(* ===== verification/Prelude.thy ===== *)
theory Prelude
  imports Main
    "HOL-Library.Word"
    "HOL-Library.AList"
    "HOL-Library.Multiset"
    "HOL-Library.Signed_Division"
    "HOL-Library.Monad_Syntax"
begin

text \<open>
  Shared vocabulary of the development: the machine integer types of the C++ sources, the
  association lists that stand for \<^verbatim>\<open>std::unordered_map\<close> and \<^verbatim>\<open>std::map\<close>, decimal
  printing as \<^verbatim>\<open>std::ostream\<close> does it, and the generic lemmas the components use.

  Conventions.
  \<^item> \<^verbatim>\<open>uint64_t\<close>, \<^verbatim>\<open>uint32_t\<close> and \<^verbatim>\<open>size_t\<close> are words: their arithmetic wraps.
  \<^item> \<^verbatim>\<open>int64_t\<close> is \<^typ>\<open>int\<close>; every operation of the source that can leave the 64-bit range
    is wrapped by \<open>wrap64\<close>, two's complement arithmetic. C++ leaves signed
    overflow undefined: a theorem that needs an operation not to overflow says so with
    \<open>in_i64\<close>. \<^verbatim>\<open>int\<close> is treated the same way with \<open>wrap32\<close>.
  \<^item> An unordered map is an association list with distinct keys, looked up with
    \<^const>\<open>map_of\<close>, written with \<^const>\<open>AList.update\<close> and erased with \<^const>\<open>AList.delete\<close>.
    Where the result depends on the iteration order of the container, the order is an
    argument of the definition.
\<close>

section \<open>Collections of facts\<close>

named_theorems wrap_simps \<open>removing and composing the 64-bit wrap-around\<close>
named_theorems alist_simps \<open>look-up after update and erase\<close>
named_theorems text_simps \<open>facts about strings and their decimal digits\<close>

section \<open>Machine integers\<close>

type_synonym u64 = "64 word"
type_synonym u32 = "32 word"
type_synonym i64 = int
type_synonym i32 = int

abbreviation i64_min :: int where "i64_min \<equiv> - 9223372036854775808"
abbreviation i64_max :: int where "i64_max \<equiv> 9223372036854775807"

definition in_i64 :: "int \<Rightarrow> bool" where
  "in_i64 x \<longleftrightarrow> i64_min \<le> x \<and> x \<le> i64_max"

definition wrap64 :: "int \<Rightarrow> i64" where
  "wrap64 x = (x + 9223372036854775808) mod 18446744073709551616 - 9223372036854775808"

definition wrap32 :: "int \<Rightarrow> i32" where
  "wrap32 x = (x + 2147483648) mod 4294967296 - 2147483648"

lemma in_i64_wrap64 [simp]: "in_i64 (wrap64 x)"
proof -
  have "0 \<le> (x + 9223372036854775808) mod 18446744073709551616"
    "(x + 9223372036854775808) mod 18446744073709551616 < 18446744073709551616"
    by simp_all
  then show ?thesis unfolding in_i64_def wrap64_def by linarith
qed

lemma wrap64_id [wrap_simps]: "in_i64 x \<Longrightarrow> wrap64 x = x"
  by (simp add: in_i64_def wrap64_def)

lemma wrap64_bounded: "i64_min \<le> x \<Longrightarrow> x \<le> i64_max \<Longrightarrow> wrap64 x = x"
  by (simp add: wrap64_def)

lemma wrap64_cong: "wrap64 x = wrap64 y \<longleftrightarrow> x mod 18446744073709551616 = y mod 18446744073709551616"
proof -
  have "wrap64 x = wrap64 y \<longleftrightarrow>
      (x + 9223372036854775808) mod 18446744073709551616 = (y + 9223372036854775808) mod 18446744073709551616"
    by (simp add: wrap64_def)
  also have "\<dots> \<longleftrightarrow> x mod 18446744073709551616 = y mod 18446744073709551616"
    by (simp add: mod_eq_dvd_iff)
  finally show ?thesis .
qed

lemma wrap64_mod: "wrap64 x mod 18446744073709551616 = x mod 18446744073709551616"
  by (simp add: wrap64_def mod_diff_left_eq)

lemma wrap64_wrap64 [simp, wrap_simps]: "wrap64 (wrap64 x) = wrap64 x"
  by (simp add: wrap64_cong wrap64_mod)

lemma wrap64_add_left [wrap_simps]: "wrap64 (wrap64 x + y) = wrap64 (x + y)"
  unfolding wrap64_cong by (metis mod_add_left_eq wrap64_mod)

lemma wrap64_add_right [wrap_simps]: "wrap64 (x + wrap64 y) = wrap64 (x + y)"
  unfolding wrap64_cong by (metis mod_add_right_eq wrap64_mod)

lemma wrap64_diff_left [wrap_simps]: "wrap64 (wrap64 x - y) = wrap64 (x - y)"
  unfolding wrap64_cong by (metis mod_diff_left_eq wrap64_mod)

lemma wrap64_diff_right [wrap_simps]: "wrap64 (x - wrap64 y) = wrap64 (x - y)"
  unfolding wrap64_cong by (metis mod_diff_right_eq wrap64_mod)

lemma wrap64_uminus [wrap_simps]: "wrap64 (- wrap64 x) = wrap64 (- x)"
  using wrap64_diff_right [of 0 x] by simp

text \<open>Subtracting a smaller positive quantity never leaves the range.\<close>

lemma wrap64_sub_pos: "0 \<le> y \<Longrightarrow> 0 \<le> x \<Longrightarrow> x \<le> i64_max \<Longrightarrow> y \<le> i64_max \<Longrightarrow> wrap64 (x - y) = x - y"
  by (rule wrap64_bounded) simp_all

text \<open>Counting up a word that is not at its end.\<close>

lemma succ_word:
  fixes l seq :: u64
  assumes "seq \<noteq> 0"
  shows "seq = l + 1 \<longleftrightarrow> unat seq = unat l + 1"
proof -
  have m: "unat (l + 1) = (unat l + 1) mod 2 ^ 64" by (simp add: unat_word_ariths)
  have b: "unat seq < 2 ^ 64" "unat l < 2 ^ 64" using unsigned_less [of seq] unsigned_less [of l] by simp_all
  show ?thesis
  proof (cases "unat l + 1 < 2 ^ 64")
    case True
    with m show ?thesis by (metis mod_less unsigned_word_eqI)
  next
    case False
    with b have "unat l + 1 = 2 ^ 64" by linarith
    with m have "unat (l + 1) = 0" by simp
    then have "l + 1 = 0" by (metis unsigned_word_eqI unsigned_0)
    with assms b \<open>unat l + 1 = 2 ^ 64\<close> show ?thesis by auto
  qed
qed

lemma word_less_succ:
  fixes l :: u64
  assumes "l \<noteq> - 1"
  shows "l < l + 1"
proof -
  have "l + 1 \<noteq> 0" using assms by (simp add: eq_neg_iff_add_eq_0)
  then show ?thesis using succ_word [of "l + 1" l] by (simp add: word_less_nat_alt)
qed

section \<open>Association lists\<close>

lemma map_of_update [alist_simps]:
  "map_of (AList.update k v xs) k' = (if k' = k then Some v else map_of xs k')"
  by (simp add: update_conv')

lemma map_of_delete [alist_simps]:
  "map_of (AList.delete k xs) k' = (if k' = k then None else map_of xs k')"
  by (simp add: delete_conv')

lemma keys_update [alist_simps]:
  "set (map fst (AList.update k v xs)) = insert k (set (map fst xs))"
  by (simp add: dom_map_of_conv_image_fst [symmetric] update_conv')

lemma keys_delete [alist_simps]:
  "set (map fst (AList.delete k xs)) = set (map fst xs) - {k}"
  by (simp add: dom_map_of_conv_image_fst [symmetric] delete_conv')

lemma distinct_keys_update [intro]:
  "distinct (map fst xs) \<Longrightarrow> distinct (map fst (AList.update k v xs))"
  by (rule distinct_update)

lemma distinct_keys_delete [intro]:
  "distinct (map fst xs) \<Longrightarrow> distinct (map fst (AList.delete k xs))"
  by (rule distinct_delete)

text \<open>The total of a measure of the values of a map: how the components count quantities.\<close>

definition alist_sum :: "('v \<Rightarrow> int) \<Rightarrow> ('k \<times> 'v) list \<Rightarrow> int" where
  "alist_sum f xs = (\<Sum>(k, v)\<leftarrow>xs. f v)"

lemma alist_sum_Nil [simp]: "alist_sum f [] = 0"
  by (simp add: alist_sum_def)

lemma alist_sum_Cons [simp]: "alist_sum f (p # xs) = f (snd p) + alist_sum f xs"
  by (simp add: alist_sum_def case_prod_beta)

lemma alist_sum_append [simp]: "alist_sum f (xs @ ys) = alist_sum f xs + alist_sum f ys"
  by (simp add: alist_sum_def)

lemma alist_sum_zero [simp]: "alist_sum (\<lambda>_. 0) xs = 0"
  by (induction xs) simp_all

lemma alist_sum_nonneg:
  "(\<And>k v. (k, v) \<in> set xs \<Longrightarrow> 0 \<le> f v) \<Longrightarrow> 0 \<le> alist_sum f xs"
  by (induction xs) (auto, metis add_nonneg_nonneg)

lemma alist_sum_update_new:
  "map_of xs k = None \<Longrightarrow> alist_sum f (AList.update k v xs) = alist_sum f xs + f v"
  by (induction xs) (auto split: if_splits)

lemma alist_sum_update_old:
  "map_of xs k = Some w \<Longrightarrow> alist_sum f (AList.update k v xs) = alist_sum f xs - f w + f v"
  by (induction xs) (auto split: if_splits)

lemma AList_delete_notin: "k \<notin> fst ` set xs \<Longrightarrow> AList.delete k xs = xs"
  by (induction xs) auto

lemma alist_sum_delete:
  "distinct (map fst xs) \<Longrightarrow> map_of xs k = Some w \<Longrightarrow>
   alist_sum f (AList.delete k xs) = alist_sum f xs - f w"
  by (induction xs) (auto simp: AList_delete_notin split: if_splits)

lemma alist_sum_cong:
  "(\<And>k v. (k, v) \<in> set xs \<Longrightarrow> f v = g v) \<Longrightarrow> alist_sum f xs = alist_sum g xs"
  unfolding alist_sum_def by (intro arg_cong [where f = sum_list] map_cong) auto

lemma alist_sum_ge_member:
  assumes "\<And>k v. (k, v) \<in> set xs \<Longrightarrow> 0 \<le> f v" and "map_of xs k = Some w"
  shows "f w \<le> alist_sum f xs"
  using assms
proof (induction xs)
  case (Cons p xs)
  have rest: "0 \<le> alist_sum f xs"
    using Cons.prems(1) by (intro alist_sum_nonneg) (metis list.set_intros(2))
  have hd: "0 \<le> f (snd p)" using Cons.prems(1) [of "fst p" "snd p"] by simp
  have "k \<noteq> fst p \<Longrightarrow> f w \<le> alist_sum f xs"
    using Cons by (auto split: if_splits)
  with Cons.prems(2) rest hd show ?case by (auto split: if_splits)
qed simp

section \<open>Decimal printing\<close>

text \<open>Characters by code, and the digits of \<^verbatim>\<open>std::ostream << uint64_t\<close>.\<close>

definition digit_char :: "nat \<Rightarrow> char" where
  "digit_char d = char_of (48 + d)"

definition is_digit :: "char \<Rightarrow> bool" where
  "is_digit c \<longleftrightarrow> 48 \<le> (of_char c :: nat) \<and> (of_char c :: nat) \<le> 57"

definition digit_val :: "char \<Rightarrow> nat" where
  "digit_val c = of_char c - 48"

fun show_nat :: "nat \<Rightarrow> string" where
  "show_nat n = (if n < 10 then [digit_char n] else show_nat (n div 10) @ [digit_char (n mod 10)])"

declare show_nat.simps [simp del]

definition show_int :: "int \<Rightarrow> string" where
  "show_int x = (if x < 0 then ''-'' @ show_nat (nat (- x)) else show_nat (nat x))"

lemma of_char_digit_char: "d < 10 \<Longrightarrow> of_char (digit_char d) = 48 + d"
  by (simp add: digit_char_def)

lemma is_digit_digit_char [simp]: "d < 10 \<Longrightarrow> is_digit (digit_char d)"
  by (simp add: is_digit_def of_char_digit_char)

lemma digit_val_digit_char [simp]: "d < 10 \<Longrightarrow> digit_val (digit_char d) = d"
  by (simp add: digit_val_def of_char_digit_char)

lemma show_nat_digits: "c \<in> set (show_nat n) \<Longrightarrow> is_digit c"
proof (induction n rule: show_nat.induct)
  case (1 n)
  then show ?case
    by (subst (asm) (2) show_nat.simps) (auto split: if_splits)
qed

lemma show_nat_nonempty [simp]: "show_nat n \<noteq> []"
  by (subst show_nat.simps) simp

text \<open>Reading a digit string back, as \<^verbatim>\<open>strtoull\<close> accumulates it.\<close>

definition digits_val :: "string \<Rightarrow> nat" where
  "digits_val s = foldl (\<lambda>a c. 10 * a + digit_val c) 0 s"

lemma digits_val_show_nat [simp]: "digits_val (show_nat n) = n"
proof (induction n rule: show_nat.induct)
  case (1 n)
  show ?case
  proof (cases "n < 10")
    case True
    then show ?thesis by (subst show_nat.simps) (simp add: digits_val_def)
  next
    case False
    with 1 have "digits_val (show_nat (n div 10)) = n div 10" by simp
    with False show ?thesis
      by (subst show_nat.simps) (simp add: digits_val_def)
  qed
qed

lemma show_nat_inj [simp]: "show_nat m = show_nat n \<longleftrightarrow> m = n"
  by (metis digits_val_show_nat)

text \<open>A suffix after the last separator is determined by the whole string.\<close>

lemma split_last_sep:
  assumes "xs @ c # ds = ys @ c # es" and "c \<notin> set ds" and "c \<notin> set es"
  shows "xs = ys \<and> ds = es"
proof -
  have "takeWhile (\<lambda>x. x \<noteq> c) (rev (xs @ c # ds)) = rev ds"
    "takeWhile (\<lambda>x. x \<noteq> c) (rev (ys @ c # es)) = rev es"
    using assms(2,3) by (auto simp: takeWhile_append)
  with assms(1) have "ds = es" by (metis rev_rev_ident)
  with assms(1) show ?thesis by simp
qed

lemma not_digit_notin_show_nat: "\<not> is_digit c \<Longrightarrow> c \<notin> set (show_nat n)"
  using show_nat_digits by blast

end
