(* ===== verification/Csv_Text.thy ===== *)
theory Csv_Text
  imports Prelude
begin

text \<open>
  \<^verbatim>\<open>src/common/csv.cpp\<close>: trimming, upper-casing, the CSV splitter, the tolerant number and
  boolean parsers and the key/value reader; and the two CSV writers of the repository,
  \<^verbatim>\<open>esc\<close> of \<^verbatim>\<open>apps/scenario_suite.cpp\<close> and \<^verbatim>\<open>csv_escape\<close> of
  \<^verbatim>\<open>bench/bench_queue_pipeline.cpp\<close>. The lemmas give each loop a closed form (\<open>trim\<close> is
  \<^const>\<open>dropWhile\<close> from both ends), show that a field written by either writer is read back by
  \<open>split_csv\<close>, and that printed numbers parse to themselves.
\<close>

section \<open>Characters\<close>

text \<open>\<^verbatim>\<open>std::isspace\<close> and \<^verbatim>\<open>std::toupper\<close> in the C locale.\<close>

definition isspace :: "char \<Rightarrow> bool" where
  "isspace c \<longleftrightarrow> (of_char c :: nat) = 32 \<or> 9 \<le> (of_char c :: nat) \<and> (of_char c :: nat) \<le> 13"

definition toupper :: "char \<Rightarrow> char" where
  "toupper c = (if 97 \<le> (of_char c :: nat) \<and> (of_char c :: nat) \<le> 122
                then char_of ((of_char c :: nat) - 32) else c)"

abbreviation quote_char :: char where "quote_char \<equiv> CHR 0x22"

section \<open>trim, upper, split\<close>

function trim_start :: "string \<Rightarrow> nat \<Rightarrow> nat" where
  "trim_start s start =
     (if start < length s \<and> isspace (s ! start) then trim_start s (Suc start) else start)"
  by pat_completeness auto
termination by (relation "measure (\<lambda>(s, start). length s - start)") auto

fun trim_end :: "string \<Rightarrow> nat \<Rightarrow> nat \<Rightarrow> nat" where
  "trim_end s start e =
     (if start < e \<and> isspace (s ! (e - 1)) then trim_end s start (e - 1) else e)"

declare trim_start.simps [simp del] trim_end.simps [simp del]

definition trim :: "string \<Rightarrow> string" where
  "trim s = (let start = trim_start s 0; e = trim_end s start (length s)
             in take (e - start) (drop start s))"

definition upper :: "string \<Rightarrow> string" where
  "upper s = map toupper s"

fun split_csv_loop :: "string \<Rightarrow> string \<Rightarrow> bool \<Rightarrow> string list \<Rightarrow> string list" where
  "split_csv_loop [] cur in_quotes cols = cols @ [trim cur]"
| "split_csv_loop (c # cs) cur in_quotes cols =
     (if c = quote_char then
        (if in_quotes \<and> cs \<noteq> [] \<and> hd cs = quote_char
         then split_csv_loop (tl cs) (cur @ [quote_char]) in_quotes cols
         else split_csv_loop cs cur (\<not> in_quotes) cols)
      else if c = CHR '','' \<and> \<not> in_quotes
      then split_csv_loop cs [] in_quotes (cols @ [trim cur])
      else split_csv_loop cs (cur @ [c]) in_quotes cols)"

definition split_csv :: "string \<Rightarrow> string list" where
  "split_csv line = split_csv_loop line [] False []"

section \<open>Booleans and numbers\<close>

definition parse_bool :: "string \<Rightarrow> bool \<Rightarrow> bool" where
  "parse_bool s default_value =
     (let v = upper (trim s) in
      if v = ''TRUE'' \<or> v = ''YES'' \<or> v = ''1'' then True
      else if v = ''FALSE'' \<or> v = ''NO'' \<or> v = ''0'' then False
      else default_value)"

text \<open>
  \<^verbatim>\<open>std::stoll\<close> and \<^verbatim>\<open>std::stoull\<close> in base 10: leading white space, an optional sign, the
  longest run of digits; what follows the digits is ignored. They throw
  \<^verbatim>\<open>invalid_argument\<close> without digits and \<^verbatim>\<open>out_of_range\<close> when the value does not fit;
  \<^verbatim>\<open>stoull\<close> negates modulo \<open>2 ^ 64\<close>.
\<close>

datatype parse_error = InvalidArgument | OutOfRange

definition sign_and_digits :: "string \<Rightarrow> bool \<times> string" where
  "sign_and_digits s =
     (let t = dropWhile isspace s in
      case t of
        [] \<Rightarrow> (False, [])
      | c # r \<Rightarrow> if c = CHR ''-'' then (True, takeWhile is_digit r)
                else if c = CHR ''+'' then (False, takeWhile is_digit r)
                else (False, takeWhile is_digit t))"

definition stoll :: "string \<Rightarrow> parse_error + i64" where
  "stoll s = (case sign_and_digits s of (neg, ds) \<Rightarrow>
      if ds = [] then Inl InvalidArgument
      else (let v = (if neg then - int (digits_val ds) else int (digits_val ds))
            in if in_i64 v then Inr v else Inl OutOfRange))"

definition stoull :: "string \<Rightarrow> parse_error + u64" where
  "stoull s = (case sign_and_digits s of (neg, ds) \<Rightarrow>
      if ds = [] then Inl InvalidArgument
      else if 2 ^ 64 \<le> digits_val ds then Inl OutOfRange
      else Inr (if neg then - word_of_nat (digits_val ds) else word_of_nat (digits_val ds)))"

definition parse_i64 :: "string \<Rightarrow> i64 \<Rightarrow> i64" where
  "parse_i64 s default_value =
     (if trim s = [] then default_value
      else case stoll (trim s) of Inr v \<Rightarrow> v | Inl _ \<Rightarrow> default_value)"

definition parse_u64 :: "string \<Rightarrow> u64 \<Rightarrow> u64" where
  "parse_u64 s default_value =
     (if trim s = [] then default_value
      else case stoull (trim s) of Inr v \<Rightarrow> v | Inl _ \<Rightarrow> default_value)"

section \<open>Key/value files\<close>

text \<open>
  \<^verbatim>\<open>std::getline\<close> until end of file: the lines of the text, the last one without its
  newline; a final newline opens no further line.
\<close>

fun getlines :: "string \<Rightarrow> string list" where
  "getlines [] = []"
| "getlines (c # cs) =
     (if c = CHR 0x0A then [] # getlines cs
      else case getlines cs of
             [] \<Rightarrow> [[c]]
           | l # ls \<Rightarrow> (c # l) # ls)"

fun read_key_values :: "string list \<Rightarrow> (string \<times> string) list \<Rightarrow> (string \<times> string) list" where
  "read_key_values [] kv = kv"
| "read_key_values (line # rest) kv =
     (let body = trim (takeWhile (\<lambda>c. c \<noteq> CHR ''#'') line) in
      if body = [] then read_key_values rest kv
      else if CHR '':'' \<notin> set body then read_key_values rest kv
      else let key = trim (takeWhile (\<lambda>c. c \<noteq> CHR '':'') body);
               val = trim (tl (dropWhile (\<lambda>c. c \<noteq> CHR '':'') body))
           in read_key_values rest (AList.update key val kv))"

text \<open>The file system is an argument: the contents of the file, \<^const>\<open>None\<close> when it does not open.\<close>

definition read_key_value_file :: "(string \<Rightarrow> string option) \<Rightarrow> string \<Rightarrow> string + (string \<times> string) list" where
  "read_key_value_file fs path =
     (case fs path of
        None \<Rightarrow> Inl (''cannot open config file: '' @ path)
      | Some text \<Rightarrow> Inr (read_key_values (getlines text) []))"

section \<open>CSV writers\<close>

fun esc_loop :: "string \<Rightarrow> string \<Rightarrow> bool \<Rightarrow> string \<times> bool" where
  "esc_loop [] y q = (y, q)"
| "esc_loop (c # cs) y q =
     (if c = quote_char then esc_loop cs (y @ [quote_char, quote_char]) True
      else esc_loop cs (y @ [c]) (if c = CHR '','' \<or> c = CHR 0x0A then True else q))"

definition esc :: "string \<Rightarrow> string" where
  "esc x = (case esc_loop x [] False of (y, q) \<Rightarrow> if q then [quote_char] @ y @ [quote_char] else y)"

fun csv_escape_loop :: "string \<Rightarrow> string \<Rightarrow> string" where
  "csv_escape_loop [] out = out"
| "csv_escape_loop (c # cs) out =
     (if c = quote_char then csv_escape_loop cs (out @ [quote_char, quote_char])
      else csv_escape_loop cs (out @ [c]))"

definition csv_escape :: "string \<Rightarrow> string" where
  "csv_escape text = csv_escape_loop text [quote_char] @ [quote_char]"

text \<open>One row: the fields joined by commas, as both writers stream them.\<close>

fun csv_row :: "string list \<Rightarrow> string" where
  "csv_row [] = []"
| "csv_row [f] = f"
| "csv_row (f # fs) = f @ '','' @ csv_row fs"

section \<open>Closed forms\<close>

lemma trim_start_dropWhile:
  "start \<le> length s \<Longrightarrow>
   trim_start s start \<le> length s \<and> start \<le> trim_start s start \<and>
   drop (trim_start s start) s = dropWhile isspace (drop start s)"
proof (induction s start rule: trim_start.induct)
  case (1 s start)
  show ?case
  proof (cases "start < length s \<and> isspace (s ! start)")
    case True
    then have "drop start s = s ! start # drop (Suc start) s" by (simp add: Cons_nth_drop_Suc)
    with True 1 show ?thesis by (simp add: trim_start.simps [of s start])
  next
    case False
    have "dropWhile isspace (drop start s) = drop start s"
    proof (cases "drop start s")
      case (Cons c cs)
      then have "start < length s" and "c = s ! start"
        by (auto simp: nth_via_drop intro: leI dest: leD) (metis drop_all leI list.distinct(1))
      with False Cons show ?thesis by simp
    qed simp
    moreover have "trim_start s start = start"
      using False by (simp only: trim_start.simps [of s start] if_False simp_thms)
    ultimately show ?thesis using "1.prems" by simp
  qed
qed

definition strip_end :: "string \<Rightarrow> string" where
  "strip_end s = rev (dropWhile isspace (rev s))"

lemma strip_end_snoc [simp]:
  "strip_end (xs @ [c]) = (if isspace c then strip_end xs else xs @ [c])"
  by (simp add: strip_end_def)

lemma strip_end_Nil [simp]: "strip_end [] = []"
  by (simp add: strip_end_def)

lemma trim_end_strip:
  "start \<le> e \<Longrightarrow> e \<le> length s \<Longrightarrow>
   take (trim_end s start e - start) (drop start s) = strip_end (take (e - start) (drop start s))"
proof (induction s start e rule: trim_end.induct)
  case (1 s start e)
  show ?case
  proof (cases "start < e")
    case True
    then have snoc: "take (e - start) (drop start s) = take (e - 1 - start) (drop start s) @ [s ! (e - 1)]"
      using "1.prems" take_Suc_conv_app_nth [of "e - 1 - start" "drop start s"]
      by (simp add: Suc_diff_Suc add.commute)
    show ?thesis
    proof (cases "isspace (s ! (e - 1))")
      case sp: True
      with True 1 have "take (trim_end s start (e - 1) - start) (drop start s)
          = strip_end (take (e - 1 - start) (drop start s))" by simp
      with sp True snoc show ?thesis by (simp add: trim_end.simps [of s start e])
    next
      case False
      with snoc show ?thesis by (simp add: trim_end.simps [of s start e])
    qed
  next
    case False
    then have "trim_end s start e = e" by (simp add: trim_end.simps [of s start e])
    with False "1.prems" show ?thesis by simp
  qed
qed

lemma trim_eq: "trim s = strip_end (dropWhile isspace s)"
proof -
  have start: "trim_start s 0 \<le> length s" "drop (trim_start s 0) s = dropWhile isspace s"
    using trim_start_dropWhile [of 0 s] by simp_all
  then have "trim s = strip_end (take (length s - trim_start s 0) (drop (trim_start s 0) s))"
    unfolding trim_def Let_def by (intro trim_end_strip) simp_all
  also have "take (length s - trim_start s 0) (drop (trim_start s 0) s) = drop (trim_start s 0) s"
    by simp
  finally show ?thesis using start by simp
qed

lemma dropWhile_isspace_id [simp]: "s = [] \<or> \<not> isspace (hd s) \<Longrightarrow> dropWhile isspace s = s"
  by (cases s) auto

lemma strip_end_id: "s = [] \<or> \<not> isspace (last s) \<Longrightarrow> strip_end s = s"
  by (cases s rule: rev_cases) auto

lemma trim_id [text_simps]: "s = [] \<or> \<not> isspace (hd s) \<and> \<not> isspace (last s) \<Longrightarrow> trim s = s"
  by (auto simp: trim_eq intro: strip_end_id)

lemma strip_end_last: "strip_end s = [] \<or> \<not> isspace (last (strip_end s))"
  by (induction s rule: rev_induct) auto

lemma strip_end_prefix: "\<exists>t. s = strip_end s @ t"
proof (induction s rule: rev_induct)
  case (snoc c s)
  then obtain t where t: "strip_end s @ t = s" by metis
  show ?case
    by (rule exI [of _ "if isspace c then t @ [c] else []"]) (simp flip: append_assoc add: t)
qed simp

lemma hd_strip_end: "strip_end s \<noteq> [] \<Longrightarrow> hd (strip_end s) = hd s"
  using strip_end_prefix [of s] by (metis hd_append2)

lemma trim_ends: "trim s = [] \<or> \<not> isspace (hd (trim s)) \<and> \<not> isspace (last (trim s))"
proof (cases "trim s = []")
  case False
  then have "dropWhile isspace s \<noteq> []" by (metis strip_end_Nil trim_eq)
  then have "\<not> isspace (hd (dropWhile isspace s))" by (rule hd_dropWhile)
  with False show ?thesis
    using strip_end_last [of "dropWhile isspace s"] hd_strip_end [of "dropWhile isspace s"]
    by (simp add: trim_eq)
qed simp

lemma trim_Nil [simp]: "trim [] = []"
  by (simp add: trim_eq)

text \<open>
  Evaluation uses the closed form: the index loops read \<^term>\<open>s ! i\<close> once per step.
\<close>

lemmas trim_eval = trim_eq strip_end_def

section \<open>Writing and reading back a row\<close>

definition double_quotes :: "string \<Rightarrow> string" where
  "double_quotes x = concat (map (\<lambda>c. if c = quote_char then [quote_char, quote_char] else [c]) x)"

lemma double_quotes_simps [simp]:
  "double_quotes [] = []"
  "double_quotes (c # x) = (if c = quote_char then [quote_char, quote_char] else [c]) @ double_quotes x"
  by (simp_all add: double_quotes_def)

definition needs_quotes :: "string \<Rightarrow> bool" where
  "needs_quotes x \<longleftrightarrow> quote_char \<in> set x \<or> CHR '','' \<in> set x \<or> CHR 0x0A \<in> set x"

lemma esc_loop_eq: "esc_loop x y q = (y @ double_quotes x, q \<or> needs_quotes x)"
  by (induction x arbitrary: y q) (auto simp: needs_quotes_def)

lemma csv_escape_loop_eq: "csv_escape_loop x out = out @ double_quotes x"
  by (induction x arbitrary: out) auto

lemma double_quotes_id: "quote_char \<notin> set x \<Longrightarrow> double_quotes x = x"
  by (induction x) auto

lemma esc_eq: "esc x = (if needs_quotes x then quote_char # double_quotes x @ [quote_char] else x)"
  by (auto simp: esc_def esc_loop_eq needs_quotes_def double_quotes_id)

lemma csv_escape_eq: "csv_escape x = quote_char # double_quotes x @ [quote_char]"
  by (simp add: csv_escape_def csv_escape_loop_eq)

lemma split_csv_quoted:
  "rest = [] \<or> hd rest \<noteq> quote_char \<Longrightarrow>
   split_csv_loop (double_quotes x @ quote_char # rest) cur True cols
   = split_csv_loop rest (cur @ x) False cols"
  by (induction x arbitrary: cur) auto

lemma split_csv_plain:
  "quote_char \<notin> set x \<Longrightarrow> CHR '','' \<notin> set x \<Longrightarrow>
   split_csv_loop (x @ rest) cur False cols = split_csv_loop rest (cur @ x) False cols"
  by (induction x arbitrary: cur) auto

text \<open>
  What a CSV writer promises to the splitter: reading a written field up to the next comma
  leaves exactly the field in the accumulator. The rows of every such writer read back.
\<close>

locale csv_field_writer =
  fixes put :: "string \<Rightarrow> string"
  assumes put_read:
    "rest = [] \<or> hd rest = CHR '','' \<Longrightarrow>
     split_csv_loop (put x @ rest) [] False cols = split_csv_loop rest x False cols"
begin

lemma row_loop:
  "split_csv_loop (csv_row (map put (f # fs))) [] False cols = cols @ map trim (f # fs)"
proof (induction fs arbitrary: f cols)
  case Nil
  then show ?case using put_read [of "[]" f cols] by simp
next
  case (Cons g fs)
  have "split_csv_loop (csv_row (map put (f # g # fs))) [] False cols
      = split_csv_loop ('','' @ csv_row (map put (g # fs))) f False cols"
    using put_read [of "'','' @ csv_row (map put (g # fs))" f cols] by simp
  also have "\<dots> = split_csv_loop (csv_row (map put (g # fs))) [] False (cols @ [trim f])"
    by simp
  also have "\<dots> = cols @ map trim (f # g # fs)" by (simp only: Cons.IH) simp
  finally show ?case .
qed

lemma row_roundtrip: "fs \<noteq> [] \<Longrightarrow> split_csv (csv_row (map put fs)) = map trim fs"
  by (cases fs) (simp_all only: split_csv_def row_loop, simp_all)

end

interpretation esc_writer: csv_field_writer esc
proof unfold_locales
  fix rest x :: string and cols
  assume rest: "rest = [] \<or> hd rest = CHR '',''"
  then have "rest = [] \<or> hd rest \<noteq> quote_char" by auto
  then have "split_csv_loop (double_quotes x @ quote_char # rest) [] True cols
      = split_csv_loop rest x False cols"
    using split_csv_quoted [of rest x "[]" cols] by simp
  then show "split_csv_loop (esc x @ rest) [] False cols = split_csv_loop rest x False cols"
    using split_csv_plain [of x rest "[]" cols] by (auto simp: esc_eq needs_quotes_def)
qed

interpretation bench_writer: csv_field_writer csv_escape
proof unfold_locales
  fix rest x :: string and cols
  assume "rest = [] \<or> hd rest = CHR '',''"
  then have "rest = [] \<or> hd rest \<noteq> quote_char" by auto
  then show "split_csv_loop (csv_escape x @ rest) [] False cols = split_csv_loop rest x False cols"
    using split_csv_quoted [of rest x "[]" cols] by (simp add: csv_escape_eq)
qed

text \<open>
  C40: a row of the scenario report is read back field by field. Whatever the fields hold -
  quotes, commas, newlines - splitting the row that the report writer prints gives the
  fields, trimmed of white space at their ends; no field is lost, merged or split.
\<close>

theorem scenario_row_roundtrip:
  assumes "fs \<noteq> []"
  shows "split_csv (csv_row (map esc fs)) = map trim fs"
  using assms by (rule esc_writer.row_roundtrip)

theorem scenario_row_roundtrip_witness:
  "split_csv (csv_row (map esc [''a,b'', ''c'', [quote_char]])) = [''a,b'', ''c'', [quote_char]]"
proof -
  have "split_csv (csv_row (map esc [''a,b'', ''c'', [quote_char]]))
      = map trim [''a,b'', ''c'', [quote_char]]"
    by (rule scenario_row_roundtrip) simp
  also have "\<dots> = [''a,b'', ''c'', [quote_char]]"
    by (simp add: trim_eval isspace_def)
  finally show ?thesis .
qed

section \<open>Printing and parsing numbers\<close>

lemma is_digit_not_space: "is_digit c \<Longrightarrow> \<not> isspace c"
  by (auto simp: is_digit_def isspace_def)

lemma trim_show_nat [text_simps]: "trim (show_nat n) = show_nat n"
  using show_nat_digits is_digit_not_space by (intro trim_id) (metis hd_in_set last_in_set)

lemma takeWhile_show_nat [text_simps]: "takeWhile is_digit (show_nat n) = show_nat n"
  using show_nat_digits by (simp add: takeWhile_eq_all_conv)

lemma sign_and_digits_show_nat [text_simps]: "sign_and_digits (show_nat n) = (False, show_nat n)"
proof -
  obtain c r where cr: "show_nat n = c # r" by (cases "show_nat n") auto
  then have "is_digit c" using show_nat_digits [of c n] by simp
  then have "\<not> isspace c" "c \<noteq> CHR ''-''" "c \<noteq> CHR ''+''"
    by (auto simp: is_digit_not_space is_digit_def)
  with cr takeWhile_show_nat [of n] show ?thesis
    by (simp add: sign_and_digits_def)
qed

lemma sign_and_digits_neg [text_simps]:
  "sign_and_digits (CHR ''-'' # show_nat n) = (True, show_nat n)"
  by (simp add: sign_and_digits_def isspace_def takeWhile_show_nat)

lemma parse_u64_show [simp]: "parse_u64 (show_nat (unat w)) d = w"
proof -
  have "unat w < 18446744073709551616" using unsigned_less [of w] by simp
  then show ?thesis by (simp add: parse_u64_def stoull_def text_simps)
qed

lemma trim_show_int [text_simps]: "trim (show_int x) = show_int x"
proof (cases "x < 0")
  case True
  have "\<not> isspace (last (show_nat (nat (- x))))"
    using show_nat_digits is_digit_not_space by (metis last_in_set show_nat_nonempty)
  with True show ?thesis by (intro trim_id) (simp add: show_int_def isspace_def)
qed (simp add: show_int_def text_simps)

lemma parse_i64_show [simp]:
  assumes "in_i64 x"
  shows "parse_i64 (show_int x) d = x"
proof (cases "x < 0")
  case True
  with assms show ?thesis
    by (simp add: parse_i64_def trim_show_int) (simp add: show_int_def stoll_def text_simps)
next
  case False
  with assms show ?thesis
    by (simp add: parse_i64_def trim_show_int) (simp add: show_int_def stoll_def text_simps)
qed

lemma parse_i64_range: "in_i64 d \<Longrightarrow> in_i64 (parse_i64 s d)"
  by (auto simp: parse_i64_def stoll_def Let_def split: sum.splits prod.splits if_splits)

lemma getlines_line: "CHR 0x0A \<notin> set l \<Longrightarrow> getlines (l @ CHR 0x0A # rest) = l # getlines rest"
  by (induction l) auto

end
