(* ===== verification/Common_Types.thy ===== *)
theory Common_Types
  imports Csv_Text
begin

text \<open>
  \<^verbatim>\<open>src/common/types.hpp\<close> and \<^verbatim>\<open>types.cpp\<close>: the enumerations of the system, their printed
  names and their tolerant parsers, and the two involutions on venues and sides. The C++
  enumerators \<^verbatim>\<open>Unknown\<close> get the enumeration's initial as a prefix. The enumerations that
  key a \<^verbatim>\<open>std::set\<close> or \<^verbatim>\<open>std::map\<close> are linear orders by enumerator index.
\<close>

section \<open>Enumerations\<close>

datatype venue = NSE | BSE | VUnknown
datatype side = Buy | Sell | SUnknown
datatype event_type = EvAdd | EvModify | EvCancel | EvTrade | EvHeartbeat | EvReset | EvUnknown
datatype order_type = LimitOrder | MarketOrder
datatype time_in_force = Day | IOC
datatype order_role = AlphaBuy | AlphaSell | Hedge | Passive | RUnknown

text \<open>\<^verbatim>\<open>static_cast<int>\<close> of an enumerator.\<close>

fun venue_code :: "venue \<Rightarrow> nat" where
  "venue_code NSE = 0" | "venue_code BSE = 1" | "venue_code VUnknown = 2"

fun role_code :: "order_role \<Rightarrow> nat" where
  "role_code AlphaBuy = 0" | "role_code AlphaSell = 1" | "role_code Hedge = 2"
| "role_code Passive = 3" | "role_code RUnknown = 4"

lemma venue_code_inj [simp]: "venue_code v = venue_code w \<longleftrightarrow> v = w"
  by (cases v; cases w) simp_all

lemma venue_code_bound: "venue_code v < 3"
  by (cases v) simp_all

lemma role_code_inj: "role_code r = role_code q \<longleftrightarrow> r = q"
  by (cases r; cases q) simp_all

instantiation order_role :: linorder
begin

definition less_eq_order_role :: "order_role \<Rightarrow> order_role \<Rightarrow> bool" where
  "r \<le> q \<longleftrightarrow> role_code r \<le> role_code q"

definition less_order_role :: "order_role \<Rightarrow> order_role \<Rightarrow> bool" where
  "r < q \<longleftrightarrow> role_code r < role_code q"

instance
  by standard (auto simp: less_eq_order_role_def less_order_role_def role_code_inj [symmetric])

end

section \<open>Printing\<close>

fun venue_to_string :: "venue \<Rightarrow> string" where
  "venue_to_string NSE = ''NSE''"
| "venue_to_string BSE = ''BSE''"
| "venue_to_string VUnknown = ''UNKNOWN''"

fun side_to_string :: "side \<Rightarrow> string" where
  "side_to_string Buy = ''BUY''"
| "side_to_string Sell = ''SELL''"
| "side_to_string SUnknown = ''UNKNOWN''"

fun event_type_to_string :: "event_type \<Rightarrow> string" where
  "event_type_to_string EvAdd = ''ADD''"
| "event_type_to_string EvModify = ''MODIFY''"
| "event_type_to_string EvCancel = ''CANCEL''"
| "event_type_to_string EvTrade = ''TRADE''"
| "event_type_to_string EvHeartbeat = ''HEARTBEAT''"
| "event_type_to_string EvReset = ''RESET''"
| "event_type_to_string EvUnknown = ''UNKNOWN''"

definition order_type_to_string :: "order_type \<Rightarrow> string" where
  "order_type_to_string t = (if t = LimitOrder then ''LIMIT'' else ''MARKET'')"

definition time_in_force_to_string :: "time_in_force \<Rightarrow> string" where
  "time_in_force_to_string t = (if t = IOC then ''IOC'' else ''DAY'')"

fun role_to_string :: "order_role \<Rightarrow> string" where
  "role_to_string AlphaBuy = ''ALPHA_BUY''"
| "role_to_string AlphaSell = ''ALPHA_SELL''"
| "role_to_string Hedge = ''HEDGE''"
| "role_to_string Passive = ''PASSIVE''"
| "role_to_string RUnknown = ''UNKNOWN''"

section \<open>Parsing\<close>

definition venue_from_string :: "string \<Rightarrow> venue" where
  "venue_from_string input =
     (let s = upper (trim input) in
      if s = ''NSE'' then NSE else if s = ''BSE'' then BSE else VUnknown)"

definition side_from_string :: "string \<Rightarrow> side" where
  "side_from_string input =
     (let s = upper (trim input) in
      if s = ''BUY'' \<or> s = ''B'' then Buy
      else if s = ''SELL'' \<or> s = ''S'' then Sell else SUnknown)"

definition event_type_from_string :: "string \<Rightarrow> event_type" where
  "event_type_from_string input =
     (let s = upper (trim input) in
      if s = ''ADD'' \<or> s = ''A'' then EvAdd
      else if s = ''MODIFY'' \<or> s = ''MOD'' \<or> s = ''M'' then EvModify
      else if s = ''CANCEL'' \<or> s = ''CXL'' \<or> s = ''C'' then EvCancel
      else if s = ''TRADE'' \<or> s = ''T'' then EvTrade
      else if s = ''HEARTBEAT'' \<or> s = ''HB'' then EvHeartbeat
      else if s = ''RESET'' \<or> s = ''R'' then EvReset
      else EvUnknown)"

definition order_role_from_string :: "string \<Rightarrow> order_role" where
  "order_role_from_string input =
     (let s = upper (trim input) in
      if s = ''ALPHA_BUY'' then AlphaBuy
      else if s = ''ALPHA_SELL'' then AlphaSell
      else if s = ''HEDGE'' then Hedge
      else if s = ''PASSIVE'' then Passive
      else RUnknown)"

definition opposite :: "side \<Rightarrow> side" where
  "opposite s = (if s = Buy then Sell else if s = Sell then Buy else SUnknown)"

definition other_venue :: "venue \<Rightarrow> venue" where
  "other_venue v = (if v = NSE then BSE else if v = BSE then NSE else VUnknown)"

section \<open>Round trips\<close>

lemmas word_eval = trim_eval isspace_def upper_def toupper_def

lemma venue_roundtrip [simp]: "venue_from_string (venue_to_string v) = v"
  by (cases v) (simp_all add: venue_from_string_def word_eval)

lemma side_roundtrip [simp]: "side_from_string (side_to_string s) = s"
  by (cases s) (simp_all add: side_from_string_def word_eval)

lemma event_type_roundtrip [simp]: "event_type_from_string (event_type_to_string e) = e"
  by (cases e) (simp_all add: event_type_from_string_def word_eval)

lemma order_role_roundtrip [simp]: "order_role_from_string (role_to_string r) = r"
  by (cases r) (simp_all add: order_role_from_string_def word_eval)

lemma opposite_simps [simp]:
  "opposite Buy = Sell" "opposite Sell = Buy" "opposite SUnknown = SUnknown"
  by (simp_all add: opposite_def)

lemma other_venue_simps [simp]:
  "other_venue NSE = BSE" "other_venue BSE = NSE" "other_venue VUnknown = VUnknown"
  by (simp_all add: other_venue_def)

lemma other_venue_ne: "other_venue v \<noteq> VUnknown \<longleftrightarrow> v \<noteq> VUnknown"
  by (cases v) simp_all

end
