(* ===== verification/Order_Book.thy ===== *)
theory Order_Book
  imports Common_Types
begin

text \<open>
  \<^verbatim>\<open>src/book/order_book.hpp\<close>, \<^verbatim>\<open>order_book.cpp\<close>, \<^verbatim>\<open>best_quote.hpp\<close> and
  \<^verbatim>\<open>src/md/book_event.hpp\<close>: one venue's book of one instrument. The state keeps the two
  price-level maps and the index of resting orders by id, as the class does; every public
  and private operation is a definition. The invariants relate the two: \<open>book_ok\<close> (every
  event keeps it) says that a level never holds more than its orders, \<open>book_inv\<close> says
  that levels and orders agree exactly, which is what the class's own \<open>invariant_ok\<close>
  checks.

  \<^verbatim>\<open>std::map\<close> is a list sorted by the map's comparison, so \<^verbatim>\<open>begin()\<close> is the head.
  \<^verbatim>\<open>std::unordered_map\<close> is an association list; \<open>consume_orders_at_price\<close>, whose effect
  depends on the iteration order, takes that order as the argument \<open>h\<close>, a permutation.
\<close>

section \<open>Data\<close>

record book_event =
  be_ts_exchange_ns :: u64
  be_ts_ingest_ns :: u64
  be_venue :: venue
  be_instrument_id :: u32
  be_native_token :: u32
  be_event_type :: event_type
  be_order_id :: u64
  be_side :: side
  be_price_paise :: i64
  be_qty :: i64
  be_native_payload :: string

record best_quote =
  q_venue :: venue
  q_instrument_id :: u32
  q_bid_px_paise :: i64
  q_bid_qty :: i64
  q_ask_px_paise :: i64
  q_ask_qty :: i64
  q_book_age_us :: u32

definition empty_quote :: best_quote where
  "empty_quote = \<lparr>q_venue = VUnknown, q_instrument_id = 0, q_bid_px_paise = 0, q_bid_qty = 0,
                  q_ask_px_paise = 0, q_ask_qty = 0, q_book_age_us = - 1\<rparr>"

definition quote_valid :: "best_quote \<Rightarrow> bool" where
  "quote_valid q \<longleftrightarrow> q_venue q \<noteq> VUnknown \<and> q_instrument_id q \<noteq> 0 \<and>
     0 < q_bid_px_paise q \<and> 0 < q_ask_px_paise q \<and> 0 < q_bid_qty q \<and> 0 < q_ask_qty q"

record resting_order =
  ro_side :: side
  ro_price_paise :: i64
  ro_qty :: i64

record level_fill =
  lf_price_paise :: i64
  lf_qty :: i64

type_synonym levels = "(i64 \<times> i64) list"
type_synonym order_index = "(u64 \<times> resting_order) list"
type_synonym iteration_order = "order_index \<Rightarrow> order_index"

record order_book =
  ob_venue :: venue
  ob_instrument_id :: u32
  ob_last_update_ns :: u64
  ob_bids :: levels
  ob_asks :: levels
  ob_orders :: order_index

definition new_book :: "venue \<Rightarrow> u32 \<Rightarrow> order_book" where
  "new_book v i = \<lparr>ob_venue = v, ob_instrument_id = i, ob_last_update_ns = 0,
                   ob_bids = [], ob_asks = [], ob_orders = []\<rparr>"

section \<open>Price levels: a map sorted by a comparison\<close>

fun lvl_put :: "(i64 \<Rightarrow> i64 \<Rightarrow> bool) \<Rightarrow> i64 \<Rightarrow> i64 \<Rightarrow> levels \<Rightarrow> levels" where
  "lvl_put lt px q [] = [(px, q)]"
| "lvl_put lt px q ((p, r) # xs) =
     (if lt px p then (px, q) # (p, r) # xs
      else if px = p then (p, q) # xs
      else (p, r) # lvl_put lt px q xs)"

text \<open>\<^verbatim>\<open>it == end() ? 0 : it->second\<close>.\<close>

definition lvl_qty :: "levels \<Rightarrow> i64 \<Rightarrow> i64" where
  "lvl_qty xs px = (case map_of xs px of None \<Rightarrow> 0 | Some q \<Rightarrow> q)"

text \<open>\<^verbatim>\<open>levels[px] += qty\<close>: a missing level is created with quantity 0 first.\<close>

definition lvl_add :: "(i64 \<Rightarrow> i64 \<Rightarrow> bool) \<Rightarrow> i64 \<Rightarrow> i64 \<Rightarrow> levels \<Rightarrow> levels" where
  "lvl_add lt px qty xs = lvl_put lt px (wrap64 (lvl_qty xs px + qty)) xs"

text \<open>\<^verbatim>\<open>it->second -= qty; if (it->second <= 0) erase(it)\<close>, nothing without a level.\<close>

definition lvl_remove :: "(i64 \<Rightarrow> i64 \<Rightarrow> bool) \<Rightarrow> i64 \<Rightarrow> i64 \<Rightarrow> levels \<Rightarrow> levels" where
  "lvl_remove lt px qty xs =
     (case map_of xs px of
        None \<Rightarrow> xs
      | Some l \<Rightarrow> (let l' = wrap64 (l - qty) in
                  if l' \<le> 0 then AList.delete px xs else lvl_put lt px l' xs))"

section \<open>Operations\<close>

definition remove_from_level :: "side \<Rightarrow> i64 \<Rightarrow> i64 \<Rightarrow> order_book \<Rightarrow> order_book" where
  "remove_from_level sd px qty b =
     (if qty \<le> 0 then b
      else if sd = Buy then b\<lparr>ob_bids := lvl_remove (>) px qty (ob_bids b)\<rparr>
      else if sd = Sell then b\<lparr>ob_asks := lvl_remove (<) px qty (ob_asks b)\<rparr>
      else b)"

text \<open>The shared tail of \<open>add\<close> and \<open>modify\<close>: every side but \<^const>\<open>Buy\<close> goes to the asks.\<close>

definition add_to_level :: "side \<Rightarrow> i64 \<Rightarrow> i64 \<Rightarrow> order_book \<Rightarrow> order_book" where
  "add_to_level sd px qty b =
     (if sd = Buy then b\<lparr>ob_bids := lvl_add (>) px qty (ob_bids b)\<rparr>
      else b\<lparr>ob_asks := lvl_add (<) px qty (ob_asks b)\<rparr>)"

definition book_cancel :: "u64 \<Rightarrow> order_book \<Rightarrow> order_book" where
  "book_cancel oid b =
     (case map_of (ob_orders b) oid of
        None \<Rightarrow> b
      | Some ro \<Rightarrow>
          let b1 = remove_from_level (ro_side ro) (ro_price_paise ro) (ro_qty ro) b
          in b1\<lparr>ob_orders := AList.delete oid (ob_orders b1)\<rparr>)"

definition book_add :: "u64 \<Rightarrow> side \<Rightarrow> i64 \<Rightarrow> i64 \<Rightarrow> order_book \<Rightarrow> order_book" where
  "book_add oid sd px qty b =
     (if oid = 0 \<or> sd = SUnknown \<or> px \<le> 0 \<or> qty \<le> 0 then b
      else let b1 = (if map_of (ob_orders b) oid \<noteq> None then book_cancel oid b else b);
               b2 = b1\<lparr>ob_orders := AList.update oid
                         \<lparr>ro_side = sd, ro_price_paise = px, ro_qty = qty\<rparr> (ob_orders b1)\<rparr>
           in add_to_level sd px qty b2)"

definition book_modify :: "u64 \<Rightarrow> side \<Rightarrow> i64 \<Rightarrow> i64 \<Rightarrow> order_book \<Rightarrow> order_book" where
  "book_modify oid sd new_px new_qty b =
     (case map_of (ob_orders b) oid of
        None \<Rightarrow> book_add oid sd new_px new_qty b
      | Some ro \<Rightarrow>
          let old_side = ro_side ro;
              b1 = remove_from_level old_side (ro_price_paise ro) (ro_qty ro) b
          in if new_qty \<le> 0 then b1\<lparr>ob_orders := AList.delete oid (ob_orders b1)\<rparr>
             else let final_side = (if sd = SUnknown then old_side else sd);
                      b2 = b1\<lparr>ob_orders := AList.update oid
                             \<lparr>ro_side = final_side, ro_price_paise = new_px, ro_qty = new_qty\<rparr>
                             (ob_orders b1)\<rparr>
                  in add_to_level final_side new_px new_qty b2)"

definition book_trade :: "u64 \<Rightarrow> side \<Rightarrow> i64 \<Rightarrow> i64 \<Rightarrow> order_book \<Rightarrow> order_book" where
  "book_trade resting_id sd px qty b =
     (if qty \<le> 0 then b
      else case map_of (ob_orders b) resting_id of
        Some ro \<Rightarrow>
          let consumed = min qty (ro_qty ro);
              b1 = remove_from_level (ro_side ro) (ro_price_paise ro) consumed b;
              left = wrap64 (ro_qty ro - consumed)
          in if left \<le> 0 then b1\<lparr>ob_orders := AList.delete resting_id (ob_orders b1)\<rparr>
             else b1\<lparr>ob_orders := AList.update resting_id (ro\<lparr>ro_qty := left\<rparr>) (ob_orders b1)\<rparr>
      | None \<Rightarrow> if sd \<noteq> SUnknown \<and> 0 < px then remove_from_level sd px qty b else b)"

definition book_clear :: "order_book \<Rightarrow> order_book" where
  "book_clear b = b\<lparr>ob_bids := [], ob_asks := [], ob_orders := []\<rparr>"

definition book_apply :: "book_event \<Rightarrow> order_book \<Rightarrow> order_book" where
  "book_apply ev b0 =
     (let b = b0\<lparr>ob_venue := be_venue ev, ob_instrument_id := be_instrument_id ev,
                ob_last_update_ns := be_ts_ingest_ns ev\<rparr>
      in case be_event_type ev of
           EvAdd \<Rightarrow> book_add (be_order_id ev) (be_side ev) (be_price_paise ev) (be_qty ev) b
         | EvModify \<Rightarrow> book_modify (be_order_id ev) (be_side ev) (be_price_paise ev) (be_qty ev) b
         | EvCancel \<Rightarrow> book_cancel (be_order_id ev) b
         | EvTrade \<Rightarrow> book_trade (be_order_id ev) (be_side ev) (be_price_paise ev) (be_qty ev) b
         | EvReset \<Rightarrow> book_clear b
         | EvHeartbeat \<Rightarrow> b
         | EvUnknown \<Rightarrow> b)"

text \<open>
  The loop of \<open>consume_orders_at_price\<close>: the entries still to visit, the index as it is
  being updated in place, what remains to consume and the ids to erase afterwards.
\<close>

fun consume_loop ::
  "side \<Rightarrow> i64 \<Rightarrow> order_index \<Rightarrow> order_index \<Rightarrow> i64 \<Rightarrow> u64 list \<Rightarrow> order_index \<times> i64 \<times> u64 list" where
  "consume_loop rs px [] orders remaining erase_ids = (orders, remaining, erase_ids)"
| "consume_loop rs px ((oid, ro) # todo) orders remaining erase_ids =
     (if remaining \<le> 0 then (orders, remaining, erase_ids)
      else if ro_side ro \<noteq> rs \<or> ro_price_paise ro \<noteq> px
      then consume_loop rs px todo orders remaining erase_ids
      else let taken = min remaining (ro_qty ro);
               left = wrap64 (ro_qty ro - taken)
           in consume_loop rs px todo (AList.update oid (ro\<lparr>ro_qty := left\<rparr>) orders)
                (wrap64 (remaining - taken)) (if left \<le> 0 then erase_ids @ [oid] else erase_ids))"

definition consume_orders_at_price ::
  "iteration_order \<Rightarrow> side \<Rightarrow> i64 \<Rightarrow> i64 \<Rightarrow> order_book \<Rightarrow> order_book" where
  "consume_orders_at_price h rs px qty_to_consume b =
     (case consume_loop rs px (h (ob_orders b)) (ob_orders b) qty_to_consume [] of
        (orders, remaining, erase_ids) \<Rightarrow>
          let b1 = remove_from_level rs px (wrap64 (qty_to_consume - remaining)) (b\<lparr>ob_orders := orders\<rparr>)
          in b1\<lparr>ob_orders := fold AList.delete erase_ids (ob_orders b1)\<rparr>)"

text \<open>
  The two symmetric loops of \<open>match_ioc\<close>: an aggressive buy walks the asks up to its limit,
  an aggressive sell the bids down to it. A level without quantity would make the loop spin
  forever, which is \<^const>\<open>None\<close> here.
\<close>

definition side_levels :: "side \<Rightarrow> order_book \<Rightarrow> levels" where
  "side_levels sd b = (if sd = Buy then ob_bids b else if sd = Sell then ob_asks b else [])"

definition beyond_limit :: "side \<Rightarrow> i64 \<Rightarrow> i64 \<Rightarrow> bool" where
  "beyond_limit aggressor limit_px px \<longleftrightarrow> (if aggressor = Buy then px > limit_px else px < limit_px)"

partial_function (option) match_loop ::
  "iteration_order \<Rightarrow> side \<Rightarrow> i64 \<Rightarrow> i64 \<Rightarrow> level_fill list \<Rightarrow> order_book \<Rightarrow> (level_fill list \<times> order_book) option" where
  "match_loop h aggressor limit_px qty fills b =
     (case side_levels (opposite aggressor) b of
        [] \<Rightarrow> Some (fills, b)
      | lvl # _ \<Rightarrow>
          if \<not> 0 < qty then Some (fills, b)
          else if beyond_limit aggressor limit_px (fst lvl) then Some (fills, b)
          else match_loop h aggressor limit_px (wrap64 (qty - min qty (snd lvl)))
                 (fills @ [\<lparr>lf_price_paise = fst lvl, lf_qty = min qty (snd lvl)\<rparr>])
                 (consume_orders_at_price h (opposite aggressor) (fst lvl) (min qty (snd lvl)) b))"

definition match_ioc ::
  "iteration_order \<Rightarrow> side \<Rightarrow> i64 \<Rightarrow> i64 \<Rightarrow> order_book \<Rightarrow> (level_fill list \<times> order_book) option" where
  "match_ioc h aggressor limit_px qty b =
     (if qty \<le> 0 \<or> limit_px \<le> 0 then Some ([], b)
      else if aggressor = Buy \<or> aggressor = Sell then match_loop h aggressor limit_px qty [] b
      else Some ([], b))"

definition book_age :: "u64 \<Rightarrow> u64 \<Rightarrow> u32" where
  "book_age last_ns now = (if 0 < last_ns \<and> last_ns \<le> now then ucast ((now - last_ns) div 1000) else 0)"

definition book_best_quote :: "u64 \<Rightarrow> order_book \<Rightarrow> best_quote" where
  "book_best_quote now_ns b =
     (let q0 = empty_quote\<lparr>q_venue := ob_venue b, q_instrument_id := ob_instrument_id b\<rparr>;
          q1 = (case ob_bids b of [] \<Rightarrow> q0
                | (px, qt) # _ \<Rightarrow> q0\<lparr>q_bid_px_paise := px, q_bid_qty := qt\<rparr>);
          q2 = (case ob_asks b of [] \<Rightarrow> q1
                | (px, qt) # _ \<Rightarrow> q1\<lparr>q_ask_px_paise := px, q_ask_qty := qt\<rparr>)
      in q2\<lparr>q_book_age_us := book_age (ob_last_update_ns b) now_ns\<rparr>)"

definition book_crossed :: "order_book \<Rightarrow> bool" where
  "book_crossed b = (case (ob_bids b, ob_asks b) of
     ((bp, _) # _, (ap, _) # _) \<Rightarrow> ap \<le> bp | _ \<Rightarrow> False)"

definition depth_at :: "side \<Rightarrow> i64 \<Rightarrow> order_book \<Rightarrow> i64" where
  "depth_at sd px b =
     (if sd = Buy then lvl_qty (ob_bids b) px
      else if sd = Sell then lvl_qty (ob_asks b) px
      else 0)"

definition total_depth :: "side \<Rightarrow> order_book \<Rightarrow> i64" where
  "total_depth sd b = foldl (\<lambda>total (px, q). wrap64 (total + q)) 0 (side_levels sd b)"

text \<open>The self-check, in the order the source makes its checks, with the reason it reports.\<close>

fun index_sums :: "order_index \<Rightarrow> levels \<Rightarrow> levels \<Rightarrow> (levels \<times> levels) option" where
  "index_sums [] bid_sum ask_sum = Some (bid_sum, ask_sum)"
| "index_sums ((oid, ro) # rest) bid_sum ask_sum =
     (if ro_qty ro \<le> 0 \<or> ro_price_paise ro \<le> 0 then None
      else if ro_side ro = Buy then index_sums rest (lvl_add (<) (ro_price_paise ro) (ro_qty ro) bid_sum) ask_sum
      else if ro_side ro = Sell then index_sums rest bid_sum (lvl_add (<) (ro_price_paise ro) (ro_qty ro) ask_sum)
      else index_sums rest bid_sum ask_sum)"

definition book_invariant_ok :: "order_book \<Rightarrow> bool \<times> string" where
  "book_invariant_ok b =
     (if list_ex (\<lambda>(px, q). px \<le> 0 \<or> q \<le> 0) (ob_bids b) then (False, ''bad bid level'')
      else if list_ex (\<lambda>(px, q). px \<le> 0 \<or> q \<le> 0) (ob_asks b) then (False, ''bad ask level'')
      else case index_sums (ob_orders b) [] [] of
        None \<Rightarrow> (False, ''bad order index entry'')
      | Some (bid_sum, ask_sum) \<Rightarrow>
          if list_ex (\<lambda>(px, q). map_of bid_sum px \<noteq> Some q) (ob_bids b)
          then (False, ''bid level/index mismatch'')
          else if list_ex (\<lambda>(px, q). map_of ask_sum px \<noteq> Some q) (ob_asks b)
          then (False, ''ask level/index mismatch'')
          else (True, ''OK''))"

end
