(* ===== verification/Config.thy ===== *)
theory Config
  imports Csv_Text
begin

text \<open>
  \<^verbatim>\<open>src/common/config.cpp\<close>, \<^verbatim>\<open>src/strategy/cost_model.cpp\<close> and \<^verbatim>\<open>src/risk/risk_config.cpp\<close>: the
  key/value configuration and the two records loaded from it. A missing file is the
  exception of the reader, a missing key or an unreadable number the default.
\<close>

section \<open>SimpleConfig\<close>

record simple_config =
  sc_kv :: "(string \<times> string) list"

definition config_load :: "(string \<Rightarrow> string option) \<Rightarrow> string \<Rightarrow> string + simple_config" where
  "config_load fs path =
     (case read_key_value_file fs path of Inl e \<Rightarrow> Inl e | Inr kv \<Rightarrow> Inr \<lparr>sc_kv = kv\<rparr>)"

definition get_string :: "simple_config \<Rightarrow> string \<Rightarrow> string \<Rightarrow> string" where
  "get_string c key def = (case map_of (sc_kv c) key of None \<Rightarrow> def | Some v \<Rightarrow> v)"

definition get_int :: "simple_config \<Rightarrow> string \<Rightarrow> i32 \<Rightarrow> i32" where
  "get_int c key def = (case map_of (sc_kv c) key of None \<Rightarrow> def | Some v \<Rightarrow> wrap32 (parse_i64 v def))"

definition get_i64 :: "simple_config \<Rightarrow> string \<Rightarrow> i64 \<Rightarrow> i64" where
  "get_i64 c key def = (case map_of (sc_kv c) key of None \<Rightarrow> def | Some v \<Rightarrow> parse_i64 v def)"

definition get_bool :: "simple_config \<Rightarrow> string \<Rightarrow> bool \<Rightarrow> bool" where
  "get_bool c key def = (case map_of (sc_kv c) key of None \<Rightarrow> def | Some v \<Rightarrow> parse_bool v def)"

section \<open>The cost model\<close>

record cost_model =
  cm_fees_paise_per_share :: i64
  cm_taxes_paise_per_share :: i64
  cm_slippage_buffer_paise :: i64
  cm_latency_buffer_paise :: i64
  cm_hedge_risk_buffer_paise :: i64
  cm_min_net_edge_paise :: i64

definition cost_of_config :: "simple_config \<Rightarrow> cost_model" where
  "cost_of_config cfg =
     \<lparr>cm_fees_paise_per_share = get_i64 cfg ''fees_paise_per_share'' 0,
      cm_taxes_paise_per_share = get_i64 cfg ''taxes_paise_per_share'' 0,
      cm_slippage_buffer_paise = get_i64 cfg ''slippage_buffer_paise'' 0,
      cm_latency_buffer_paise = get_i64 cfg ''latency_buffer_paise'' 0,
      cm_hedge_risk_buffer_paise = get_i64 cfg ''hedge_risk_buffer_paise'' 0,
      cm_min_net_edge_paise = get_i64 cfg ''min_net_edge_paise'' 0\<rparr>"

definition cost_load :: "(string \<Rightarrow> string option) \<Rightarrow> string \<Rightarrow> string + cost_model" where
  "cost_load fs path = (case config_load fs path of Inl e \<Rightarrow> Inl e | Inr cfg \<Rightarrow> Inr (cost_of_config cfg))"

definition cost_validate :: "cost_model \<Rightarrow> bool \<times> string" where
  "cost_validate c =
     (if cm_fees_paise_per_share c \<le> 0 \<or> cm_taxes_paise_per_share c \<le> 0
      then (False, ''fees/taxes must be positive placeholders or verified values'')
      else if cm_min_net_edge_paise c < 0 then (False, ''min_net_edge_paise cannot be negative'')
      else (True, ''OK''))"

definition round_trip_paise :: "cost_model \<Rightarrow> i64" where
  "round_trip_paise c = wrap64 (2 * wrap64 (cm_fees_paise_per_share c + cm_taxes_paise_per_share c))"

definition buffers_paise :: "cost_model \<Rightarrow> i64" where
  "buffers_paise c = wrap64 (wrap64 (cm_slippage_buffer_paise c + cm_latency_buffer_paise c)
                              + cm_hedge_risk_buffer_paise c)"

definition all_in_cost_paise :: "cost_model \<Rightarrow> i64" where
  "all_in_cost_paise c = wrap64 (round_trip_paise c + buffers_paise c)"

section \<open>The risk limits\<close>

record risk_config =
  rc_max_order_qty :: i64
  rc_max_position_qty :: i64
  rc_max_notional_paise :: i64
  rc_max_book_age_us :: u32
  rc_max_orders_per_sec :: i32
  rc_max_hedge_attempts :: i32
  rc_max_hedge_delay_us :: u64
  rc_max_hedge_loss_paise :: i64
  rc_price_band_paise :: i64
  rc_daily_loss_limit_paise :: i64
  rc_force_flatten_on_max_loss :: bool

definition default_risk_config :: risk_config where
  "default_risk_config =
     \<lparr>rc_max_order_qty = 100, rc_max_position_qty = 200, rc_max_notional_paise = 20000000,
      rc_max_book_age_us = 250, rc_max_orders_per_sec = 50, rc_max_hedge_attempts = 3,
      rc_max_hedge_delay_us = 2000, rc_max_hedge_loss_paise = 2000, rc_price_band_paise = 100,
      rc_daily_loss_limit_paise = 100000, rc_force_flatten_on_max_loss = False\<rparr>"

definition risk_of_config :: "simple_config \<Rightarrow> risk_config" where
  "risk_of_config cfg =
     (let r = default_risk_config in
      \<lparr>rc_max_order_qty = get_i64 cfg ''max_order_qty'' (rc_max_order_qty r),
       rc_max_position_qty = get_i64 cfg ''max_position_qty'' (rc_max_position_qty r),
       rc_max_notional_paise = get_i64 cfg ''max_notional_paise'' (rc_max_notional_paise r),
       rc_max_book_age_us = word_of_int (get_i64 cfg ''max_book_age_us'' (uint (rc_max_book_age_us r))),
       rc_max_orders_per_sec = get_int cfg ''max_orders_per_sec'' (rc_max_orders_per_sec r),
       rc_max_hedge_attempts = get_int cfg ''max_hedge_attempts'' (rc_max_hedge_attempts r),
       rc_max_hedge_delay_us = word_of_int (get_i64 cfg ''max_hedge_delay_us'' (wrap64 (uint (rc_max_hedge_delay_us r)))),
       rc_max_hedge_loss_paise = get_i64 cfg ''max_hedge_loss_paise'' (rc_max_hedge_loss_paise r),
       rc_price_band_paise = get_i64 cfg ''price_band_paise'' (rc_price_band_paise r),
       rc_daily_loss_limit_paise = get_i64 cfg ''daily_loss_limit_paise'' (rc_daily_loss_limit_paise r),
       rc_force_flatten_on_max_loss = get_bool cfg ''force_flatten_on_max_loss'' (rc_force_flatten_on_max_loss r)\<rparr>)"

definition risk_load :: "(string \<Rightarrow> string option) \<Rightarrow> string \<Rightarrow> string + risk_config" where
  "risk_load fs path = (case config_load fs path of Inl e \<Rightarrow> Inl e | Inr cfg \<Rightarrow> Inr (risk_of_config cfg))"

section \<open>Costs without overflow\<close>

text \<open>
  A money amount small enough that no sum the program forms of a few of them leaves 64
  bits: at most \<open>10 ^ 15\<close> paise, ten trillion rupees.
\<close>

definition sane_money :: "int \<Rightarrow> bool" where
  "sane_money x \<longleftrightarrow> - 1000000000000000 \<le> x \<and> x \<le> 1000000000000000"

definition sane_costs :: "cost_model \<Rightarrow> bool" where
  "sane_costs c \<longleftrightarrow> sane_money (cm_fees_paise_per_share c) \<and> sane_money (cm_taxes_paise_per_share c) \<and>
     sane_money (cm_slippage_buffer_paise c) \<and> sane_money (cm_latency_buffer_paise c) \<and>
     sane_money (cm_hedge_risk_buffer_paise c)"

definition true_cost :: "cost_model \<Rightarrow> int" where
  "true_cost c = 2 * (cm_fees_paise_per_share c + cm_taxes_paise_per_share c)
     + cm_slippage_buffer_paise c + cm_latency_buffer_paise c + cm_hedge_risk_buffer_paise c"

lemma true_cost_bound:
  "sane_costs c \<Longrightarrow> - 7000000000000000 \<le> true_cost c \<and> true_cost c \<le> 7000000000000000"
  by (simp add: sane_costs_def sane_money_def true_cost_def)

lemma all_in_cost_exact: "sane_costs c \<Longrightarrow> all_in_cost_paise c = true_cost c"
  by (simp add: sane_costs_def sane_money_def true_cost_def all_in_cost_paise_def round_trip_paise_def
      buffers_paise_def wrap64_bounded)

section \<open>Configuration files are read back\<close>

definition kv_line :: "string \<Rightarrow> string \<Rightarrow> string" where
  "kv_line k v = k @ '': '' @ v @ [CHR 0x0A]"

definition kv_text :: "(string \<times> string) list \<Rightarrow> string" where
  "kv_text kvs = concat (map (\<lambda>(k, v). kv_line k v) kvs)"

definition plain_key :: "string \<Rightarrow> bool" where
  "plain_key k \<longleftrightarrow> k \<noteq> [] \<and> list_all (\<lambda>c. \<not> isspace c \<and> c \<noteq> CHR ''#'' \<and> c \<noteq> CHR '':'') k"

definition plain_value :: "string \<Rightarrow> bool" where
  "plain_value v \<longleftrightarrow> v \<noteq> [] \<and> list_all (\<lambda>c. \<not> isspace c \<and> c \<noteq> CHR ''#'') v"

lemma newline_isspace [simp]: "isspace CHR 0x0A" "isspace CHR '' ''"
  by (simp_all add: isspace_def)

lemma getlines_kv:
  assumes "plain_key k" and "plain_value v"
  shows "getlines (kv_line k v @ rest) = (k @ '': '' @ v) # getlines rest"
proof -
  have "CHR 0x0A \<notin> set k" "CHR 0x0A \<notin> set v"
    using assms newline_isspace(1) unfolding plain_key_def plain_value_def list_all_iff by blast+
  then show ?thesis using getlines_line [of "k @ '': '' @ v" rest] by (simp add: kv_line_def)
qed

lemma read_kv_line:
  assumes "plain_key k" and "plain_value v"
  shows "read_key_values ((k @ '': '' @ v) # rest) kv = read_key_values rest (AList.update k v kv)"
proof -
  define l where "l = k @ '': '' @ v"
  have ne: "k \<noteq> []" "v \<noteq> []" and sp: "c \<in> set k \<union> set v \<Longrightarrow> \<not> isspace c \<and> c \<noteq> CHR ''#''"
    and co: "CHR '':'' \<notin> set k" for c
    using assms by (auto simp: plain_key_def plain_value_def list_all_iff)
  have k: "\<not> isspace (hd k)" "\<not> isspace (last k)" and v: "\<not> isspace (hd v)" "\<not> isspace (last v)"
    using ne sp by simp_all
  have "CHR ''#'' \<notin> set l" using sp by (auto simp: l_def)
  then have nohash: "takeWhile (\<lambda>c. c \<noteq> CHR ''#'') l = l" by (auto simp: takeWhile_eq_all_conv)
  have body: "trim l = l" using k v ne by (intro trim_id) (simp add: l_def)
  have "takeWhile (\<lambda>c. c \<noteq> CHR '':'') l = k" "dropWhile (\<lambda>c. c \<noteq> CHR '':'') l = '': '' @ v"
    unfolding l_def using co by (induction k) auto
  moreover have "trim k = k" using k by (intro trim_id) simp
  moreover have "trim ('' '' @ v) = v" using v by (simp add: trim_eq strip_end_id)
  moreover have "l \<noteq> []" "CHR '':'' \<in> set l" by (simp_all add: l_def)
  ultimately show ?thesis unfolding l_def [symmetric] by (simp add: nohash body Let_def)
qed

lemma read_kv_text:
  assumes "list_all (\<lambda>(k, v). plain_key k \<and> plain_value v) kvs"
  shows "read_key_values (getlines (kv_text kvs)) kv = fold (\<lambda>(k, v). AList.update k v) kvs kv"
  using assms
proof (induction kvs arbitrary: kv)
  case (Cons p kvs)
  obtain k v where p: "p = (k, v)" by force
  have "getlines (kv_text (p # kvs)) = (k @ '': '' @ v) # getlines (kv_text kvs)"
    using getlines_kv [of k v "kv_text kvs"] Cons.prems p by (simp add: kv_text_def)
  with read_kv_line [of k v "getlines (kv_text kvs)" kv] Cons p show ?case by simp
qed (simp add: kv_text_def)

lemma plain_value_show_int [simp]: "plain_value (show_int x)"
proof -
  have "c \<in> set (show_nat n) \<Longrightarrow> \<not> isspace c \<and> c \<noteq> CHR ''#''" for c n
    using show_nat_digits [of c n] by (auto simp: is_digit_not_space is_digit_def)
  then show ?thesis by (auto simp: plain_value_def show_int_def list_all_iff isspace_def)
qed

definition cost_text :: "cost_model \<Rightarrow> string" where
  "cost_text c = kv_text
     [(''fees_paise_per_share'', show_int (cm_fees_paise_per_share c)),
      (''taxes_paise_per_share'', show_int (cm_taxes_paise_per_share c)),
      (''slippage_buffer_paise'', show_int (cm_slippage_buffer_paise c)),
      (''latency_buffer_paise'', show_int (cm_latency_buffer_paise c)),
      (''hedge_risk_buffer_paise'', show_int (cm_hedge_risk_buffer_paise c)),
      (''min_net_edge_paise'', show_int (cm_min_net_edge_paise c))]"

section \<open>Properties\<close>

text \<open>
  C39: a cost file is loaded as written. Loading a configuration file that lists the six
  cost parameters as printed decimal numbers, one per line, gives back exactly those
  parameters.
\<close>

theorem cost_file_roundtrip:
  assumes "fs path = Some (cost_text c)" and "in_i64 (cm_fees_paise_per_share c)"
    and "in_i64 (cm_taxes_paise_per_share c)" and "in_i64 (cm_slippage_buffer_paise c)"
    and "in_i64 (cm_latency_buffer_paise c)" and "in_i64 (cm_hedge_risk_buffer_paise c)"
    and "in_i64 (cm_min_net_edge_paise c)"
  shows "cost_load fs path = Inr c"
  using assms(2-)
  by (simp add: cost_load_def config_load_def read_key_value_file_def assms(1) cost_text_def read_kv_text
      plain_key_def isspace_def cost_of_config_def get_i64_def alist_simps)

theorem cost_file_roundtrip_witness:
  "cost_load [''costs.yml'' \<mapsto> cost_text \<lparr>cm_fees_paise_per_share = 5, cm_taxes_paise_per_share = 5,
      cm_slippage_buffer_paise = 5, cm_latency_buffer_paise = 5, cm_hedge_risk_buffer_paise = 10,
      cm_min_net_edge_paise = - 5\<rparr>] ''costs.yml''
   = Inr \<lparr>cm_fees_paise_per_share = 5, cm_taxes_paise_per_share = 5, cm_slippage_buffer_paise = 5,
      cm_latency_buffer_paise = 5, cm_hedge_risk_buffer_paise = 10, cm_min_net_edge_paise = - 5\<rparr>"
  by (rule cost_file_roundtrip) (simp_all add: in_i64_def)

end
