(* ===== verification/Risk.thy ===== *)
theory Risk
  imports Order_Book Config
begin

text \<open>
  \<^verbatim>\<open>src/risk\<close>: kill switch, position book, per-second rate limiter, guards and the pre-trade
  check of the risk engine. The engine holds the position book by reference; here the book
  is an argument of \<open>check_order\<close>, as it is shared with the order manager.
\<close>

section \<open>Orders, positions, switches\<close>

record order_intent =
  oi_parent_arb_id :: string
  oi_instrument_id :: u32
  oi_venue :: venue
  oi_side :: side
  oi_order_type :: order_type
  oi_tif :: time_in_force
  oi_role :: order_role
  oi_price_paise :: i64
  oi_qty :: i64

definition empty_intent :: order_intent where
  "empty_intent = \<lparr>oi_parent_arb_id = [], oi_instrument_id = 0, oi_venue = VUnknown, oi_side = SUnknown,
     oi_order_type = LimitOrder, oi_tif = IOC, oi_role = RUnknown, oi_price_paise = 0, oi_qty = 0\<rparr>"

record position =
  pos_net_qty :: i64
  pos_cash_paise :: i64

definition empty_position :: position where
  "empty_position = \<lparr>pos_net_qty = 0, pos_cash_paise = 0\<rparr>"

type_synonym position_book = "(u32 \<times> position) list"

definition pos_position :: "u32 \<Rightarrow> position_book \<Rightarrow> position" where
  "pos_position i m = (case map_of m i of None \<Rightarrow> empty_position | Some p \<Rightarrow> p)"

definition pos_apply_fill :: "u32 \<Rightarrow> side \<Rightarrow> i64 \<Rightarrow> i64 \<Rightarrow> position_book \<Rightarrow> position_book" where
  "pos_apply_fill i sd qty px m =
     (let p = pos_position i m;
          p' = (if sd = Buy then \<lparr>pos_net_qty = wrap64 (pos_net_qty p + qty),
                                  pos_cash_paise = wrap64 (pos_cash_paise p - wrap64 (qty * px))\<rparr>
                else if sd = Sell then \<lparr>pos_net_qty = wrap64 (pos_net_qty p - qty),
                                        pos_cash_paise = wrap64 (pos_cash_paise p + wrap64 (qty * px))\<rparr>
                else p)
      in AList.update i p' m)"

definition pos_net :: "u32 \<Rightarrow> position_book \<Rightarrow> i64" where
  "pos_net i m = (case map_of m i of None \<Rightarrow> 0 | Some p \<Rightarrow> pos_net_qty p)"

definition pos_cash :: "u32 \<Rightarrow> position_book \<Rightarrow> i64" where
  "pos_cash i m = (case map_of m i of None \<Rightarrow> 0 | Some p \<Rightarrow> pos_cash_paise p)"

definition pos_set_position :: "u32 \<Rightarrow> i64 \<Rightarrow> i64 \<Rightarrow> position_book \<Rightarrow> position_book" where
  "pos_set_position i qty cash m = AList.update i \<lparr>pos_net_qty = qty, pos_cash_paise = cash\<rparr> m"

record kill_switch =
  ks_enabled :: bool
  ks_reason :: string

definition new_kill_switch :: kill_switch where
  "new_kill_switch = \<lparr>ks_enabled = True, ks_reason = []\<rparr>"

definition ks_disable :: "string \<Rightarrow> kill_switch \<Rightarrow> kill_switch" where
  "ks_disable reason k = \<lparr>ks_enabled = False, ks_reason = reason\<rparr>"

definition ks_enable :: "kill_switch \<Rightarrow> kill_switch" where
  "ks_enable k = \<lparr>ks_enabled = True, ks_reason = []\<rparr>"

record rate_limiter =
  rl_max_per_sec :: i32
  rl_buckets :: "(u32 \<times> i32 \<times> u64) list"

definition new_rate_limiter :: "i32 \<Rightarrow> rate_limiter" where
  "new_rate_limiter n = \<lparr>rl_max_per_sec = n, rl_buckets = []\<rparr>"

definition rl_bucket :: "u32 \<Rightarrow> rate_limiter \<Rightarrow> i32 \<times> u64" where
  "rl_bucket i l = (case map_of (rl_buckets l) i of None \<Rightarrow> (0, 0) | Some b \<Rightarrow> b)"

definition rl_allow :: "u32 \<Rightarrow> u64 \<Rightarrow> rate_limiter \<Rightarrow> bool \<times> rate_limiter" where
  "rl_allow i now_ns l =
     (let sec = now_ns div 1000000000;
          b = rl_bucket i l;
          b1 = (if snd b \<noteq> sec then (0, sec) else b)
      in if fst b1 \<ge> rl_max_per_sec l
         then (False, l\<lparr>rl_buckets := AList.update i b1 (rl_buckets l)\<rparr>)
         else (True, l\<lparr>rl_buckets := AList.update i (wrap32 (fst b1 + 1), snd b1) (rl_buckets l)\<rparr>))"

definition rl_set_limit :: "i32 \<Rightarrow> rate_limiter \<Rightarrow> rate_limiter" where
  "rl_set_limit n l = l\<lparr>rl_max_per_sec := n\<rparr>"

definition severe_skew :: "u64 \<Rightarrow> u64 \<Rightarrow> u64 \<Rightarrow> bool" where
  "severe_skew exchange_ts ingest_ts max_abs =
     (let diff = (if exchange_ts > ingest_ts then exchange_ts - ingest_ts else ingest_ts - exchange_ts)
      in diff > max_abs)"

definition should_flatten :: "u64 \<Rightarrow> u64 \<Rightarrow> u64 \<Rightarrow> i64 \<Rightarrow> bool" where
  "should_flatten now session_end window residual_qty \<longleftrightarrow>
     residual_qty \<noteq> 0 \<and> session_end > now \<and> session_end - now \<le> window"

section \<open>The pre-trade check\<close>

record risk_event =
  re_ts_ns :: u64
  re_severity :: string
  re_rule_name :: string
  re_instrument_id :: u32
  re_details_json :: string

record risk_decision =
  rd_approved :: bool
  rd_rule :: string
  rd_details :: string

definition rd_approve :: risk_decision where
  "rd_approve = \<lparr>rd_approved = True, rd_rule = ''APPROVED'', rd_details = []\<rparr>"

definition rd_block :: "string \<Rightarrow> string \<Rightarrow> risk_decision" where
  "rd_block rule details = \<lparr>rd_approved = False, rd_rule = rule, rd_details = details\<rparr>"

record risk_engine =
  rk_cfg :: risk_config
  rk_limiter :: rate_limiter
  rk_kill :: kill_switch

definition new_risk_engine :: "risk_config \<Rightarrow> risk_engine" where
  "new_risk_engine cfg = \<lparr>rk_cfg = cfg, rk_limiter = new_rate_limiter (rc_max_orders_per_sec cfg),
                         rk_kill = new_kill_switch\<rparr>"

text \<open>\<^verbatim>\<open>std::llabs\<close>; the most negative value has no absolute value in 64 bits.\<close>

definition llabs :: "i64 \<Rightarrow> i64" where
  "llabs x = wrap64 (if x < 0 then - x else x)"

definition check_order ::
  "order_intent \<Rightarrow> best_quote \<Rightarrow> u64 \<Rightarrow> position_book \<Rightarrow> risk_engine \<Rightarrow> risk_decision \<times> risk_engine" where
  "check_order o1 q now_ns positions e =
     (let cfg = rk_cfg e; signed_effect = (if oi_side o1 = Buy then oi_qty o1 else wrap64 (- oi_qty o1)) in
      if \<not> ks_enabled (rk_kill e) then (rd_block ''KILL_SWITCH'' (ks_reason (rk_kill e)), e)
      else if \<not> quote_valid q then (rd_block ''INVALID_QUOTE'' ''quote missing or one-sided'', e)
      else if q_book_age_us q > rc_max_book_age_us cfg then (rd_block ''STALE_BOOK'' ''quote age too high'', e)
      else if oi_qty o1 \<le> 0 \<or> oi_qty o1 > rc_max_order_qty cfg
      then (rd_block ''MAX_QTY'' ''order quantity outside limits'', e)
      else if oi_price_paise o1 \<le> 0 then (rd_block ''BAD_PRICE'' ''price must be positive'', e)
      else if wrap64 (oi_qty o1 * oi_price_paise o1) > rc_max_notional_paise cfg
      then (rd_block ''MAX_NOTIONAL'' ''order notional too high'', e)
      else if llabs (wrap64 (pos_net (oi_instrument_id o1) positions + signed_effect)) > rc_max_position_qty cfg
      then (rd_block ''MAX_POSITION'' ''position cap exceeded'', e)
      else if oi_side o1 = Buy \<and> q_ask_px_paise q > 0 \<and>
              oi_price_paise o1 > wrap64 (q_ask_px_paise q + rc_price_band_paise cfg)
      then (rd_block ''PRICE_BAND'' ''buy price too far from ask'', e)
      else if oi_side o1 = Sell \<and> q_bid_px_paise q > 0 \<and>
              oi_price_paise o1 < wrap64 (q_bid_px_paise q - rc_price_band_paise cfg)
      then (rd_block ''PRICE_BAND'' ''sell price too far from bid'', e)
      else case rl_allow (oi_instrument_id o1) now_ns (rk_limiter e) of
        (ok, l) \<Rightarrow> (if ok then rd_approve else rd_block ''ORDER_RATE'' ''order rate exceeded'', e\<lparr>rk_limiter := l\<rparr>))"

section \<open>Positions are the sum of the fills\<close>

type_synonym pos_fill = "u32 \<times> side \<times> i64 \<times> i64"

definition signed_qty :: "side \<Rightarrow> int \<Rightarrow> int" where
  "signed_qty sd q = (if sd = Buy then q else if sd = Sell then - q else 0)"

definition net_of :: "u32 \<Rightarrow> pos_fill list \<Rightarrow> int" where
  "net_of i fs = (\<Sum>(j, sd, q, px)\<leftarrow>fs. if j = i then signed_qty sd q else 0)"

definition cash_of :: "u32 \<Rightarrow> pos_fill list \<Rightarrow> int" where
  "cash_of i fs = (\<Sum>(j, sd, q, px)\<leftarrow>fs. if j = i then - signed_qty sd (q * px) else 0)"

lemma pos_net_apply [simp]:
  "pos_net j (pos_apply_fill i sd q px m) =
    (if j = i \<and> sd \<noteq> SUnknown then wrap64 (pos_net i m + signed_qty sd q) else pos_net j m)"
  by (cases sd) (auto simp: pos_net_def pos_apply_fill_def pos_position_def empty_position_def signed_qty_def
      alist_simps Let_def split: option.splits)

lemma pos_cash_apply [simp]:
  "pos_cash j (pos_apply_fill i sd q px m) =
    (if j = i \<and> sd \<noteq> SUnknown then wrap64 (pos_cash i m - signed_qty sd (q * px)) else pos_cash j m)"
  by (cases sd) (auto simp: pos_cash_def pos_apply_fill_def pos_position_def empty_position_def signed_qty_def
      alist_simps wrap_simps Let_def split: option.splits)

lemma signed_qty_SUnknown [simp]: "signed_qty SUnknown q = 0"
  by (simp add: signed_qty_def)

definition apply_fills :: "pos_fill list \<Rightarrow> position_book \<Rightarrow> position_book" where
  "apply_fills fs m = fold (\<lambda>(i, sd, q, px). pos_apply_fill i sd q px) fs m"

lemma apply_fills_net:
  assumes "in_i64 (pos_net i m)"
  shows "pos_net i (apply_fills fs m) = wrap64 (pos_net i m + net_of i fs)"
  using assms
proof (induction fs arbitrary: m)
  case Nil
  then show ?case by (simp add: apply_fills_def net_of_def wrap64_id)
next
  case (Cons f fs)
  obtain j sd q px where f: "f = (j, sd, q, px)" by (cases f)
  let ?m = "pos_apply_fill j sd q px m"
  have "in_i64 (pos_net i ?m)" using Cons.prems by simp
  from Cons.IH [OF this]
  have "pos_net i (apply_fills (f # fs) m) = wrap64 (pos_net i ?m + net_of i fs)" by (simp add: apply_fills_def f)
  also have "\<dots> = wrap64 (pos_net i m + net_of i (f # fs))"
    by (cases sd) (auto simp: f net_of_def wrap_simps algebra_simps)
  finally show ?case .
qed

lemma apply_fills_cash:
  assumes "in_i64 (pos_cash i m)"
  shows "pos_cash i (apply_fills fs m) = wrap64 (pos_cash i m + cash_of i fs)"
  using assms
proof (induction fs arbitrary: m)
  case Nil
  then show ?case by (simp add: apply_fills_def cash_of_def wrap64_id)
next
  case (Cons f fs)
  obtain j sd q px where f: "f = (j, sd, q, px)" by (cases f)
  let ?m = "pos_apply_fill j sd q px m"
  have "in_i64 (pos_cash i ?m)" using Cons.prems by simp
  from Cons.IH [OF this]
  have "pos_cash i (apply_fills (f # fs) m) = wrap64 (pos_cash i ?m + cash_of i fs)" by (simp add: apply_fills_def f)
  also have "\<dots> = wrap64 (pos_cash i m + cash_of i (f # fs))"
    by (cases sd) (auto simp: f cash_of_def wrap_simps algebra_simps)
  finally show ?case .
qed

lemma apply_fills_exact:
  assumes "in_i64 (pos_net i m)" and "in_i64 (pos_cash i m)"
  shows "pos_net i (apply_fills fs m) = wrap64 (pos_net i m + net_of i fs) \<and>
    pos_cash i (apply_fills fs m) = wrap64 (pos_cash i m + cash_of i fs)"
  using assms by (simp add: apply_fills_net apply_fills_cash)

section \<open>What the check decides\<close>

definition effect_of :: "order_intent \<Rightarrow> int" where
  "effect_of o1 = (if oi_side o1 = Buy then oi_qty o1 else - oi_qty o1)"

text \<open>The limits, in unbounded integers.\<close>

definition within_limits :: "order_intent \<Rightarrow> best_quote \<Rightarrow> position_book \<Rightarrow> risk_engine \<Rightarrow> bool" where
  "within_limits o1 q positions e \<longleftrightarrow>
     ks_enabled (rk_kill e) \<and> quote_valid q \<and> q_book_age_us q \<le> rc_max_book_age_us (rk_cfg e) \<and>
     0 < oi_qty o1 \<and> oi_qty o1 \<le> rc_max_order_qty (rk_cfg e) \<and> 0 < oi_price_paise o1 \<and>
     oi_qty o1 * oi_price_paise o1 \<le> rc_max_notional_paise (rk_cfg e) \<and>
     \<bar>pos_net (oi_instrument_id o1) positions + effect_of o1\<bar> \<le> rc_max_position_qty (rk_cfg e) \<and>
     (oi_side o1 = Buy \<longrightarrow> oi_price_paise o1 \<le> q_ask_px_paise q + rc_price_band_paise (rk_cfg e)) \<and>
     (oi_side o1 = Sell \<longrightarrow> q_bid_px_paise q - rc_price_band_paise (rk_cfg e) \<le> oi_price_paise o1)"

text \<open>No intermediate value of the check leaves 64 bits.\<close>

definition check_fits :: "order_intent \<Rightarrow> best_quote \<Rightarrow> position_book \<Rightarrow> risk_config \<Rightarrow> bool" where
  "check_fits o1 q positions cfg \<longleftrightarrow>
     oi_qty o1 * oi_price_paise o1 \<le> i64_max \<and>
     \<bar>pos_net (oi_instrument_id o1) positions\<bar> + oi_qty o1 \<le> i64_max \<and>
     in_i64 (q_ask_px_paise q + rc_price_band_paise cfg) \<and> in_i64 (q_bid_px_paise q - rc_price_band_paise cfg)"

lemma llabs_exact: "\<bar>x\<bar> \<le> i64_max \<Longrightarrow> llabs x = \<bar>x\<bar>"
  by (auto simp: llabs_def intro!: wrap64_bounded split: abs_split)

lemma position_check_exact:
  assumes "\<bar>n\<bar> + q \<le> i64_max" and "0 < q"
  shows "llabs (wrap64 (n + (if b then q else wrap64 (- q)))) = \<bar>n + (if b then q else - q)\<bar>"
proof -
  have "wrap64 (n + (if b then q else wrap64 (- q))) = wrap64 (n + (if b then q else - q))"
    by (simp add: wrap_simps)
  also have "\<dots> = n + (if b then q else - q)" using assms by (intro wrap64_bounded) auto
  finally show ?thesis using assms by (simp add: llabs_exact)
qed

lemma notional_exact: "0 < q \<Longrightarrow> 0 < p \<Longrightarrow> q * p \<le> i64_max \<Longrightarrow> wrap64 (q * p) = q * (p :: int)"
  by (intro wrap64_bounded) (auto intro: order_trans [of _ 0])

lemma check_order_values:
  assumes "check_fits o1 q positions (rk_cfg e)" and "0 < oi_qty o1" and "0 < oi_price_paise o1"
  shows "wrap64 (oi_qty o1 * oi_price_paise o1) = oi_qty o1 * oi_price_paise o1"
    and "llabs (wrap64 (pos_net (oi_instrument_id o1) positions
      + (if oi_side o1 = Buy then oi_qty o1 else wrap64 (- oi_qty o1))))
      = \<bar>pos_net (oi_instrument_id o1) positions + effect_of o1\<bar>"
    and "wrap64 (q_ask_px_paise q + rc_price_band_paise (rk_cfg e)) = q_ask_px_paise q + rc_price_band_paise (rk_cfg e)"
    and "wrap64 (q_bid_px_paise q - rc_price_band_paise (rk_cfg e)) = q_bid_px_paise q - rc_price_band_paise (rk_cfg e)"
proof -
  show "wrap64 (oi_qty o1 * oi_price_paise o1) = oi_qty o1 * oi_price_paise o1"
    using assms by (intro notional_exact) (simp_all add: check_fits_def)
  show "llabs (wrap64 (pos_net (oi_instrument_id o1) positions
      + (if oi_side o1 = Buy then oi_qty o1 else wrap64 (- oi_qty o1))))
      = \<bar>pos_net (oi_instrument_id o1) positions + effect_of o1\<bar>"
    unfolding effect_of_def using assms by (intro position_check_exact) (simp_all add: check_fits_def)
qed (use assms in \<open>simp_all add: check_fits_def wrap64_id\<close>)

lemma check_order_within:
  assumes "check_fits o1 q positions (rk_cfg e)" and "within_limits o1 q positions e"
  shows "check_order o1 q now positions e =
     (case rl_allow (oi_instrument_id o1) now (rk_limiter e) of
        (ok, l) \<Rightarrow> (if ok then rd_approve else rd_block ''ORDER_RATE'' ''order rate exceeded'', e\<lparr>rk_limiter := l\<rparr>))"
proof -
  have pos: "0 < oi_qty o1" "0 < oi_price_paise o1" using assms(2) by (simp_all add: within_limits_def)
  note v = check_order_values [OF assms(1) pos]
  have c: "ks_enabled (rk_kill e)" "quote_valid q" "\<not> q_book_age_us q > rc_max_book_age_us (rk_cfg e)"
    "\<not> (oi_qty o1 \<le> 0 \<or> oi_qty o1 > rc_max_order_qty (rk_cfg e))" "\<not> oi_price_paise o1 \<le> 0"
    "\<not> oi_qty o1 * oi_price_paise o1 > rc_max_notional_paise (rk_cfg e)"
    "\<not> \<bar>pos_net (oi_instrument_id o1) positions + effect_of o1\<bar> > rc_max_position_qty (rk_cfg e)"
    "\<not> (oi_side o1 = Buy \<and> q_ask_px_paise q > 0 \<and> oi_price_paise o1 > q_ask_px_paise q + rc_price_band_paise (rk_cfg e))"
    "\<not> (oi_side o1 = Sell \<and> q_bid_px_paise q > 0 \<and> oi_price_paise o1 < q_bid_px_paise q - rc_price_band_paise (rk_cfg e))"
    using assms(2) by (auto simp: within_limits_def)
  show ?thesis
    unfolding check_order_def Let_def v by (simp only: c if_False not_True_eq_False simp_thms)
qed

lemma check_order_outside:
  assumes "check_fits o1 q positions (rk_cfg e)" and "\<not> within_limits o1 q positions e"
  shows "\<not> rd_approved (fst (check_order o1 q now positions e))" and "snd (check_order o1 q now positions e) = e"
proof -
  have "\<exists>r. check_order o1 q now positions e = (r, e) \<and> \<not> rd_approved r"
  proof (cases "0 < oi_qty o1 \<and> 0 < oi_price_paise o1")
    case True
    note v = check_order_values [OF assms(1) conjunct1 [OF True] conjunct2 [OF True]]
    show ?thesis
      using assms(2) True unfolding check_order_def Let_def v within_limits_def
      by (auto simp: rd_block_def quote_valid_def)
  next
    case False
    then show ?thesis unfolding check_order_def Let_def by (auto simp: rd_block_def)
  qed
  then show "\<not> rd_approved (fst (check_order o1 q now positions e))" and "snd (check_order o1 q now positions e) = e"
    by auto
qed

section \<open>The rate limiter\<close>

fun rl_run :: "(u32 \<times> u64) list \<Rightarrow> rate_limiter \<Rightarrow> (u32 \<times> u64 \<times> bool) list \<times> rate_limiter" where
  "rl_run [] l = ([], l)"
| "rl_run ((i, t) # calls) l =
     (case rl_allow i t l of (ok, l1) \<Rightarrow> case rl_run calls l1 of (out, l2) \<Rightarrow> ((i, t, ok) # out, l2))"

definition sec_of :: "u64 \<Rightarrow> u64" where
  "sec_of t = t div 1000000000"

definition granted :: "u32 \<Rightarrow> u64 \<Rightarrow> (u32 \<times> u64 \<times> bool) list \<Rightarrow> int" where
  "granted i s out = int (length (filter (\<lambda>(j, t, ok). ok \<and> j = i \<and> sec_of t = s) out))"

lemma sec_of_mono: "t \<le> t' \<Longrightarrow> sec_of t \<le> sec_of t'"
  by (simp add: sec_of_def word_le_nat_alt unat_div div_le_mono)

lemma rl_allow_other: "j \<noteq> i \<Longrightarrow> rl_bucket i (snd (rl_allow j t l)) = rl_bucket i l"
  by (simp add: rl_allow_def rl_bucket_def Let_def alist_simps)

lemma rl_allow_limit [simp]: "rl_max_per_sec (snd (rl_allow j t l)) = rl_max_per_sec l"
  by (simp add: rl_allow_def Let_def)

lemma rl_allow_self:
  fixes t :: u64
  assumes "rl_bucket i l = (c, s0)" and "0 \<le> c" and "c \<le> n" and "n = rl_max_per_sec l" and "n < 2147483648"
  defines "c1 \<equiv> (if s0 = sec_of t then c else 0)"
  shows "fst (rl_allow i t l) \<longleftrightarrow> c1 < n"
    and "rl_bucket i (snd (rl_allow i t l)) = (if c1 < n then c1 + 1 else c1, sec_of t)"
proof -
  have "c1 < n \<Longrightarrow> wrap32 (c1 + 1) = c1 + 1" using assms by (simp add: wrap32_def c1_def)
  then show "fst (rl_allow i t l) \<longleftrightarrow> c1 < n"
    and "rl_bucket i (snd (rl_allow i t l)) = (if c1 < n then c1 + 1 else c1, sec_of t)"
    using assms(1,4) unfolding rl_allow_def Let_def sec_of_def [symmetric] c1_def
    by (auto simp: rl_bucket_def [of _ "_ \<lparr>rl_buckets := _\<rparr>"] alist_simps)
qed

lemma granted_Cons [simp]:
  "granted i s ((j, t, ok) # out) = (if ok \<and> j = i \<and> sec_of t = s then 1 else 0) + granted i s out"
  by (simp add: granted_def)

lemma granted_Nil [simp]: "granted i s [] = 0"
  by (simp add: granted_def)

lemma granted_bound:
  assumes "sorted (map snd calls)" and "\<forall>t \<in> set (map snd calls). s0 \<le> sec_of t"
    and "rl_bucket i l = (c, s0)" and "0 \<le> c" and "c \<le> rl_max_per_sec l" and "rl_max_per_sec l < 2147483648"
  shows "granted i s (fst (rl_run calls l)) \<le>
    (if s < s0 then 0 else if s = s0 then rl_max_per_sec l - c else rl_max_per_sec l)"
  using assms
proof (induction calls arbitrary: l c s0)
  case (Cons call calls)
  obtain j t where call: "call = (j, t)" by force
  let ?n = "rl_max_per_sec l" and ?l1 = "snd (rl_allow j t l)"
  have run: "fst (rl_run (call # calls) l) = (j, t, fst (rl_allow j t l)) # fst (rl_run calls ?l1)"
    by (simp add: call split: prod.splits)
  have later: "\<forall>t' \<in> set (map snd calls). sec_of t \<le> sec_of t'" and s0t: "s0 \<le> sec_of t"
    and srt: "sorted (map snd calls)"
    using Cons.prems(1,2) by (auto simp: call intro: sec_of_mono)
  show ?case
  proof (cases "j = i")
    case False
    with Cons.prems(3) have "rl_bucket i ?l1 = (c, s0)" by (simp add: rl_allow_other)
    with Cons.IH [OF srt _ this] Cons.prems False show ?thesis unfolding run by (auto simp: call split: if_splits)
  next
    case True
    define c1 where "c1 = (if s0 = sec_of t then c else 0)"
    note self = rl_allow_self [OF Cons.prems(3,4,5) refl Cons.prems(6), of t, folded c1_def]
    have b: "rl_bucket i (snd (rl_allow i t l)) = (if c1 < ?n then c1 + 1 else c1, sec_of t)" by (rule self(2))
    have c1: "0 \<le> c1" "c1 \<le> ?n" using Cons.prems(4,5) by (auto simp: c1_def)
    have IH: "granted i s (fst (rl_run calls (snd (rl_allow i t l)))) \<le>
        (if s < sec_of t then 0 else if s = sec_of t then ?n - (if c1 < ?n then c1 + 1 else c1) else ?n)"
      by (rule Cons.IH [OF srt later b, unfolded rl_allow_limit]) (use c1 Cons.prems(6) in auto)
    have "granted i s (fst (rl_run (call # calls) l)) \<le>
        (if s < sec_of t then 0 else if s = sec_of t then ?n - c1 else ?n)"
      using IH unfolding run True by (auto simp: self(1))
    also have "\<dots> \<le> (if s < s0 then 0 else if s = s0 then ?n - c else ?n)"
      using s0t c1 Cons.prems(4,5) by (auto simp: c1_def)
    finally show ?thesis .
  qed
qed simp

section \<open>Properties\<close>

text \<open>A sample order, quote and engine.\<close>

definition sample_intent :: order_intent where
  "sample_intent = empty_intent\<lparr>oi_parent_arb_id := ''P'', oi_instrument_id := 1, oi_venue := NSE, oi_side := Buy,
     oi_role := AlphaBuy, oi_price_paise := 10050, oi_qty := 40\<rparr>"

definition sample_risk_quote :: best_quote where
  "sample_risk_quote = \<lparr>q_venue = NSE, q_instrument_id = 1, q_bid_px_paise = 10040, q_bid_qty = 40,
     q_ask_px_paise = 10050, q_ask_qty = 60, q_book_age_us = 10\<rparr>"

text \<open>
  C5: the pre-trade check decides exactly by the limits. When no intermediate value leaves
  64 bits, an order is approved if and only if the kill switch is on, the quote is valid and
  fresh, the quantity, price, notional, resulting position and price band are within their
  limits as unbounded integers, and the rate limiter grants it; the limiter is charged
  only for an order that passes all other limits, and nothing else of the engine changes.
\<close>

theorem risk_check_exact:
  assumes "check_fits o1 q positions (rk_cfg e)"
  shows "(rd_approved (fst (check_order o1 q now positions e)) \<longleftrightarrow>
      within_limits o1 q positions e \<and> fst (rl_allow (oi_instrument_id o1) now (rk_limiter e))) \<and>
    snd (check_order o1 q now positions e) =
      (if within_limits o1 q positions e
       then e\<lparr>rk_limiter := snd (rl_allow (oi_instrument_id o1) now (rk_limiter e))\<rparr> else e)"
  by (cases "within_limits o1 q positions e")
    (simp_all add: assms check_order_within check_order_outside rd_approve_def rd_block_def split: prod.splits)

theorem risk_check_exact_witness:
  "rd_approved (fst (check_order sample_intent sample_risk_quote 7 [] (new_risk_engine default_risk_config)))"
proof -
  have fits: "check_fits sample_intent sample_risk_quote [] (rk_cfg (new_risk_engine default_risk_config))" by code_simp
  have "within_limits sample_intent sample_risk_quote [] (new_risk_engine default_risk_config)" by code_simp
  moreover have "fst (rl_allow (oi_instrument_id sample_intent) 7 (rk_limiter (new_risk_engine default_risk_config)))"
    by code_simp
  ultimately show ?thesis using risk_check_exact [OF fits, of 7] by simp
qed

text \<open>
  C26: the order rate never exceeds the limit. For any sequence of requests with
  non-decreasing time stamps, over any number of instruments, the limiter grants at most
  \<open>max_per_sec\<close> requests per instrument in each second.
\<close>

theorem rate_limit_per_second:
  assumes "sorted (map snd calls)" and "0 \<le> n" and "n < 2147483648"
  shows "granted i s (fst (rl_run calls (new_rate_limiter n))) \<le> n"
proof -
  have "rl_bucket i (new_rate_limiter n) = (0, 0)" by (simp add: rl_bucket_def new_rate_limiter_def)
  from granted_bound [OF assms(1) _ this, of s] assms(2,3) show ?thesis
    by (auto simp: new_rate_limiter_def split: if_splits)
qed

theorem rate_limit_per_second_witness:
  "granted 1 0 (fst (rl_run [(1, 5), (2, 5), (1, 6), (1, 7), (1, 1000000008)] (new_rate_limiter 2))) \<le> 2"
  by (rule rate_limit_per_second) (simp_all add: word_le_nat_alt)

text \<open>
  Positions are the sum of the fills: after any sequence of fills of any instruments
  and sides, the net quantity and the cash of an instrument are the signed sums of its
  fills' quantities and notionals, in 64-bit arithmetic.
\<close>

lemma positions_sum_fills:
  "pos_net i (apply_fills fs []) = wrap64 (net_of i fs) \<and> pos_cash i (apply_fills fs []) = wrap64 (cash_of i fs)"
  using apply_fills_exact [of i "[]" fs] by (simp add: pos_net_def pos_cash_def in_i64_def)

text \<open>
  An order whose notional does not fit 64 bits passes the notional limit of the sources when
  the product wraps.
\<close>

lemma notional_wraps:
  "rd_approved (fst (check_order
     (sample_intent\<lparr>oi_qty := 4294967296, oi_price_paise := 4294967296\<rparr>)
     (sample_risk_quote\<lparr>q_ask_px_paise := 4294967296\<rparr>) 7 []
     (new_risk_engine (default_risk_config\<lparr>rc_max_order_qty := 4294967296, rc_max_position_qty := 4294967296\<rparr>))))"
  by code_simp

end
