(* ===== verification/Oms.thy ===== *)
theory Oms
  imports Risk
begin

text \<open>
  \<^verbatim>\<open>src/oms\<close> and \<^verbatim>\<open>src/common/ids.hpp\<close>: id generation, orders and their states, execution
  reports, the order manager and the reconciler. The gateway an order is sent through is
  the interface \<open>IOrderGateway\<close>: here an argument, a function from the order and the
  gateway's state to the reports and the new state (\<^const>\<open>None\<close> if it does not return).
  What the order manager needs of a gateway is the locale \<open>order_gateway\<close>. The order manager
  updates the position book it shares with the risk engine, which is passed through.
  Sizes of vectors are natural numbers.
\<close>

section \<open>Ids\<close>

record id_generator =
  ig_prefix :: string
  ig_parent_seq :: u64
  ig_order_seq :: u64

definition new_id_generator :: "string \<Rightarrow> id_generator" where
  "new_id_generator prefix = \<lparr>ig_prefix = prefix, ig_parent_seq = 0, ig_order_seq = 0\<rparr>"

definition next_parent :: "u32 \<Rightarrow> id_generator \<Rightarrow> string \<times> id_generator" where
  "next_parent i g =
     (let n = ig_parent_seq g + 1
      in (ig_prefix g @ ''-ARB-'' @ show_nat (unat i) @ ''-'' @ show_nat (unat n), g\<lparr>ig_parent_seq := n\<rparr>))"

definition order_id :: "string \<Rightarrow> venue \<Rightarrow> side \<Rightarrow> order_role \<Rightarrow> u64 \<Rightarrow> string" where
  "order_id parent v sd r n =
     parent @ ''-'' @ venue_to_string v @ ''-'' @ side_to_string sd @ ''-'' @ role_to_string r @ ''-'' @ show_nat (unat n)"

definition next_order :: "string \<Rightarrow> venue \<Rightarrow> side \<Rightarrow> order_role \<Rightarrow> id_generator \<Rightarrow> string \<times> id_generator" where
  "next_order parent v sd r g =
     (let n = ig_order_seq g + 1 in (order_id parent v sd r n, g\<lparr>ig_order_seq := n\<rparr>))"

section \<open>Orders, fills and reports\<close>

datatype order_state = OsNew | OsSent | OsAcked | OsPartial | OsFilled | OsCanceled | OsRejected | OsExpired

fun order_state_to_string :: "order_state \<Rightarrow> string" where
  "order_state_to_string OsNew = ''NEW''"
| "order_state_to_string OsSent = ''SENT''"
| "order_state_to_string OsAcked = ''ACKED''"
| "order_state_to_string OsPartial = ''PARTIAL''"
| "order_state_to_string OsFilled = ''FILLED''"
| "order_state_to_string OsCanceled = ''CANCELED''"
| "order_state_to_string OsRejected = ''REJECTED''"
| "order_state_to_string OsExpired = ''EXPIRED''"

record order =
  or_intent :: order_intent
  or_client_order_id :: string
  or_exchange_order_id :: string
  or_filled_qty :: i64
  or_state :: order_state
  or_ts_sent_ns :: u64
  or_ts_ack_ns :: u64
  or_ts_done_ns :: u64
  or_err_code :: string

record fill =
  fl_parent_arb_id :: string
  fl_client_order_id :: string
  fl_instrument_id :: u32
  fl_venue :: venue
  fl_side :: side
  fl_fill_px_paise :: i64
  fl_fill_qty :: i64
  fl_ts_fill_ns :: u64

datatype exec_type = ExAck | ExFill | ExReject | ExExpire | ExCancel

record execution_report =
  er_type :: exec_type
  er_client_order_id :: string
  er_parent_arb_id :: string
  er_instrument_id :: u32
  er_venue :: venue
  er_side :: side
  er_price_paise :: i64
  er_qty :: i64
  er_ts_ns :: u64
  er_reason :: string

section \<open>The order manager\<close>

record order_manager =
  om_ids :: id_generator
  om_orders :: "(string \<times> order) list"
  om_fills :: "fill list"
  om_consumed :: nat

definition new_order_manager :: order_manager where
  "new_order_manager = \<lparr>om_ids = new_id_generator ''SIM'', om_orders = [], om_fills = [], om_consumed = 0\<rparr>"

definition fill_of_report :: "order \<Rightarrow> execution_report \<Rightarrow> fill" where
  "fill_of_report o1 r =
     \<lparr>fl_parent_arb_id = oi_parent_arb_id (or_intent o1), fl_client_order_id = or_client_order_id o1,
      fl_instrument_id = oi_instrument_id (or_intent o1), fl_venue = oi_venue (or_intent o1),
      fl_side = oi_side (or_intent o1), fl_fill_px_paise = er_price_paise r, fl_fill_qty = er_qty r,
      fl_ts_fill_ns = er_ts_ns r\<rparr>"

text \<open>The branch of the switch on the report type, on the order it names.\<close>

definition report_order :: "execution_report \<Rightarrow> order \<Rightarrow> order" where
  "report_order r o1 =
     (case er_type r of
        ExAck \<Rightarrow> if or_state o1 = OsSent then o1\<lparr>or_state := OsAcked, or_ts_ack_ns := er_ts_ns r\<rparr> else o1
      | ExFill \<Rightarrow>
          let o2 = o1\<lparr>or_filled_qty := wrap64 (or_filled_qty o1 + er_qty r)\<rparr>
          in if or_filled_qty o2 \<ge> oi_qty (or_intent o2)
             then o2\<lparr>or_state := OsFilled, or_ts_done_ns := er_ts_ns r\<rparr>
             else o2\<lparr>or_state := OsPartial\<rparr>
      | ExReject \<Rightarrow> o1\<lparr>or_state := (if or_filled_qty o1 > 0 then OsPartial else OsRejected),
                       or_err_code := er_reason r, or_ts_done_ns := er_ts_ns r\<rparr>
      | ExExpire \<Rightarrow> o1\<lparr>or_state := (if or_filled_qty o1 > 0 then OsPartial else OsExpired),
                       or_err_code := (if er_reason r = [] then ''IOC_EXPIRED'' else er_reason r),
                       or_ts_done_ns := er_ts_ns r\<rparr>
      | ExCancel \<Rightarrow> o1\<lparr>or_state := OsCanceled, or_ts_done_ns := er_ts_ns r\<rparr>)"

definition om_on_report ::
  "execution_report \<Rightarrow> order_manager \<times> position_book \<Rightarrow> order_manager \<times> position_book" where
  "om_on_report r s =
     (case s of (om, positions) \<Rightarrow>
       case map_of (om_orders om) (er_client_order_id r) of
         None \<Rightarrow> (om, positions)
       | Some o1 \<Rightarrow>
           let om1 = om\<lparr>om_orders := AList.update (er_client_order_id r) (report_order r o1) (om_orders om)\<rparr>
           in if er_type r = ExFill
              then let f = fill_of_report o1 r
                   in (om1\<lparr>om_fills := om_fills om1 @ [f]\<rparr>,
                       pos_apply_fill (fl_instrument_id f) (fl_side f) (fl_fill_qty f) (fl_fill_px_paise f) positions)
              else (om1, positions))"

text \<open>The defaults \<open>submit\<close> fills into a report before it handles it.\<close>

definition complete_report :: "string \<Rightarrow> order_intent \<Rightarrow> execution_report \<Rightarrow> execution_report" where
  "complete_report cid intent r =
     (let r1 = (if er_client_order_id r = [] then r\<lparr>er_client_order_id := cid\<rparr> else r)
      in if er_parent_arb_id r1 = [] then r1\<lparr>er_parent_arb_id := oi_parent_arb_id intent\<rparr> else r1)"

definition sent_order :: "order_intent \<Rightarrow> string \<Rightarrow> u64 \<Rightarrow> order" where
  "sent_order intent cid now =
     \<lparr>or_intent = intent, or_client_order_id = cid, or_exchange_order_id = [], or_filled_qty = 0,
      or_state = OsSent, or_ts_sent_ns = now, or_ts_ack_ns = 0, or_ts_done_ns = 0, or_err_code = []\<rparr>"

text \<open>\<^verbatim>\<open>emplace\<close> keeps an order already stored under the id; the result is the stored order.\<close>

definition om_submit ::
  "(order \<Rightarrow> 'g \<Rightarrow> (execution_report list \<times> 'g) option) \<Rightarrow> order_intent \<Rightarrow> u64 \<Rightarrow>
   order_manager \<times> position_book \<Rightarrow> 'g \<Rightarrow> (order \<times> (order_manager \<times> position_book) \<times> 'g) option" where
  "om_submit send intent now s g =
     (case s of (om, positions) \<Rightarrow>
       case next_order (oi_parent_arb_id intent) (oi_venue intent) (oi_side intent) (oi_role intent) (om_ids om) of
         (cid, ids) \<Rightarrow>
           let stored = (case map_of (om_orders om) cid of None \<Rightarrow> sent_order intent cid now | Some o1 \<Rightarrow> o1);
               om1 = om\<lparr>om_ids := ids, om_orders := AList.update cid stored (om_orders om)\<rparr>
           in case send stored g of
                None \<Rightarrow> None
              | Some (reports, g') \<Rightarrow>
                  let s' = fold (\<lambda>r. om_on_report (complete_report (or_client_order_id stored) intent r)) reports (om1, positions)
                  in Some (the (map_of (om_orders (fst s')) cid), s', g'))"

definition om_take_new_fills :: "order_manager \<Rightarrow> fill list \<times> order_manager" where
  "om_take_new_fills om = (drop (om_consumed om) (om_fills om), om\<lparr>om_consumed := length (om_fills om)\<rparr>)"

definition om_known_order :: "string \<Rightarrow> order_manager \<Rightarrow> bool" where
  "om_known_order cid om \<longleftrightarrow> map_of (om_orders om) cid \<noteq> None"

definition on_external_fill :: "fill \<Rightarrow> order_manager \<Rightarrow> risk_event option" where
  "on_external_fill f om =
     (if \<not> om_known_order (fl_client_order_id f) om
      then Some \<lparr>re_ts_ns = fl_ts_fill_ns f, re_severity = ''HIGH'', re_rule_name = ''ORPHAN_FILL'',
                 re_instrument_id = fl_instrument_id f,
                 re_details_json = CHR ''{'' # quote_char # ''client_order_id'' @ [quote_char, CHR '':'', quote_char]
                    @ fl_client_order_id f @ [quote_char, CHR ''}'']\<rparr>
      else None)"

section \<open>Ids are never reused\<close>

lemma dash_not_digit: "\<not> is_digit CHR ''-''"
  by (simp add: is_digit_def)

lemma order_id_inj:
  assumes "order_id p v sd r n = order_id p' v' sd' r' n'"
  shows "n = n'"
proof -
  have "show_nat (unat n) = show_nat (unat n')"
    using split_last_sep [of "p @ ''-'' @ venue_to_string v @ ''-'' @ side_to_string sd @ ''-'' @ role_to_string r" "CHR ''-''"
        "show_nat (unat n)" "p' @ ''-'' @ venue_to_string v' @ ''-'' @ side_to_string sd' @ ''-'' @ role_to_string r'"
        "show_nat (unat n')"] assms not_digit_notin_show_nat [OF dash_not_digit]
    by (simp add: order_id_def)
  then show ?thesis by (simp add: unsigned_word_eqI)
qed

text \<open>Every stored id was generated: its number is at most the last one drawn.\<close>

definition ids_ok :: "order_manager \<Rightarrow> bool" where
  "ids_ok om \<longleftrightarrow> distinct (map fst (om_orders om)) \<and>
     (\<forall>cid o1. map_of (om_orders om) cid = Some o1 \<longrightarrow> or_client_order_id o1 = cid \<and>
       (\<exists>p v sd r n. cid = order_id p v sd r n \<and> n \<le> ig_order_seq (om_ids om)))"

lemma report_order_id [simp]: "or_client_order_id (report_order r o1) = or_client_order_id o1"
  "or_intent (report_order r o1) = or_intent o1"
  by (simp_all add: report_order_def Let_def split: exec_type.splits)

lemma on_report_ids [simp]: "om_ids (fst (om_on_report r s)) = om_ids (fst s)"
  "om_consumed (fst (om_on_report r s)) = om_consumed (fst s)"
  by (simp_all add: om_on_report_def Let_def split: prod.splits option.splits)

lemma on_report_ids_ok: "ids_ok (fst s) \<Longrightarrow> ids_ok (fst (om_on_report r s))"
  by (cases s) (auto simp: om_on_report_def ids_ok_def Let_def alist_simps simp del: map_of_eq_Some_iff split: option.splits if_splits)

lemma on_report_ids_ok_fold: "ids_ok (fst s) \<Longrightarrow> ids_ok (fst (fold om_on_report rs s))"
  by (induction rs arbitrary: s) (simp_all add: on_report_ids_ok)

lemma order_id_nonempty [simp]: "order_id p v sd r n \<noteq> []"
  by (simp add: order_id_def)

lemma fresh_id:
  assumes "ids_ok om" and "ig_order_seq (om_ids om) \<noteq> - 1"
  shows "map_of (om_orders om) (order_id p v sd r (ig_order_seq (om_ids om) + 1)) = None"
proof (rule ccontr)
  assume "map_of (om_orders om) (order_id p v sd r (ig_order_seq (om_ids om) + 1)) \<noteq> None"
  then obtain p' v' sd' r' n where "order_id p v sd r (ig_order_seq (om_ids om) + 1) = order_id p' v' sd' r' n"
    and le: "n \<le> ig_order_seq (om_ids om)"
    using assms(1) unfolding ids_ok_def by blast
  then have "ig_order_seq (om_ids om) + 1 = n" by (blast dest: order_id_inj)
  with le word_less_succ [OF assms(2)] show False by auto
qed

section \<open>Handling a list of reports on one order\<close>

definition is_fill :: "execution_report \<Rightarrow> bool" where
  "is_fill r \<longleftrightarrow> er_type r = ExFill"

definition pos_of_fill :: "fill \<Rightarrow> pos_fill" where
  "pos_of_fill f = (fl_instrument_id f, fl_side f, fl_fill_qty f, fl_fill_px_paise f)"

lemma fill_of_report_cong:
  "or_intent o1 = or_intent o2 \<Longrightarrow> or_client_order_id o1 = or_client_order_id o2 \<Longrightarrow>
   fill_of_report o1 r = fill_of_report o2 r"
  by (simp add: fill_of_report_def)

lemma on_report_known:
  assumes "map_of (om_orders om) (er_client_order_id r) = Some o1"
  shows "om_on_report r (om, pos) =
    (om\<lparr>om_orders := AList.update (er_client_order_id r) (report_order r o1) (om_orders om),
        om_fills := om_fills om @ map (fill_of_report o1) (filter is_fill [r])\<rparr>,
     apply_fills (map (pos_of_fill \<circ> fill_of_report o1) (filter is_fill [r])) pos)"
  using assms
  by (simp add: om_on_report_def Let_def is_fill_def apply_fills_def pos_of_fill_def fill_of_report_def)

lemma apply_fills_append: "apply_fills (xs @ ys) m = apply_fills ys (apply_fills xs m)"
  by (simp add: apply_fills_def)

lemma apply_fills_Nil [simp]: "apply_fills [] m = m"
  by (simp add: apply_fills_def)

lemma reports_fold:
  assumes "map_of (om_orders om) cid = Some o1" and "list_all (\<lambda>r. er_client_order_id r = cid) rs"
    and "fold om_on_report rs (om, pos) = (om', pos')"
  shows "map_of (om_orders om') = (map_of (om_orders om))(cid \<mapsto> fold report_order rs o1) \<and>
    om_fills om' = om_fills om @ map (fill_of_report o1) (filter is_fill rs) \<and>
    pos' = apply_fills (map (pos_of_fill \<circ> fill_of_report o1) (filter is_fill rs)) pos \<and>
    om_ids om' = om_ids om \<and> om_consumed om' = om_consumed om"
  using assms
proof (induction rs arbitrary: om pos o1)
  case Nil
  then show ?case by auto
next
  case (Cons r rs)
  have r: "map_of (om_orders om) (er_client_order_id r) = Some o1" using Cons.prems by simp
  let ?om = "om\<lparr>om_orders := AList.update cid (report_order r o1) (om_orders om),
        om_fills := om_fills om @ map (fill_of_report o1) (filter is_fill [r])\<rparr>"
  let ?pos = "apply_fills (map (pos_of_fill \<circ> fill_of_report o1) (filter is_fill [r])) pos"
  have "fold om_on_report rs (?om, ?pos) = (om', pos')"
    using Cons.prems on_report_known [OF r, of pos] by simp
  moreover have "map_of (om_orders ?om) cid = Some (report_order r o1)" by (simp add: alist_simps)
  moreover have "fill_of_report (report_order r o1) = fill_of_report o1"
    by (rule ext, rule fill_of_report_cong) simp_all
  ultimately show ?case
    using Cons.IH [of ?om "report_order r o1" ?pos] Cons.prems(2)
    by (auto simp: fun_eq_iff alist_simps apply_fills_append [symmetric])
qed

text \<open>Reports on the order stored last change no other entry of the table.\<close>

lemma update_fresh: "k \<notin> fst ` set xs \<Longrightarrow> AList.update k v xs = xs @ [(k, v)]"
  by (induction xs) auto

lemma update_last: "k \<notin> fst ` set xs \<Longrightarrow> AList.update k v (xs @ [(k, u)]) = xs @ [(k, v)]"
  by (induction xs) auto

lemma reports_fold_table:
  assumes "om_orders om = xs @ [(cid, o1)]" and "cid \<notin> fst ` set xs" and "list_all (\<lambda>r. er_client_order_id r = cid) rs"
  shows "om_orders (fst (fold om_on_report rs (om, pos))) = xs @ [(cid, fold report_order rs o1)]"
  using assms
proof (induction rs arbitrary: om pos o1)
  case (Cons r rs)
  have "map_of xs cid = None" using Cons.prems(2) by (simp add: map_of_eq_None_iff)
  then have "map_of (om_orders om) cid = Some o1" using Cons.prems(1) by (simp add: map_add_def)
  then have "map_of (om_orders om) (er_client_order_id r) = Some o1" using Cons.prems(3) by simp
  from on_report_known [OF this, of pos] show ?case
    using Cons.IH [of "fst (om_on_report r (om, pos))" "report_order r o1" "snd (om_on_report r (om, pos))"] Cons.prems
    by (simp add: update_last)
qed simp

text \<open>The state an acknowledged and filled order is in.\<close>

definition fill_sum :: "execution_report list \<Rightarrow> int" where
  "fill_sum rs = (\<Sum>r\<leftarrow>rs. if is_fill r then er_qty r else 0)"

definition ack_or_fill :: "execution_report \<Rightarrow> bool" where
  "ack_or_fill r \<longleftrightarrow> er_type r = ExAck \<or> er_type r = ExFill \<and> 0 < er_qty r"

lemma fill_sum_simps [simp]:
  "fill_sum [] = 0" "fill_sum (r # rs) = (if is_fill r then er_qty r else 0) + fill_sum rs"
  "fill_sum (xs @ ys) = fill_sum xs + fill_sum ys"
  by (simp_all add: fill_sum_def)

lemma fill_sum_nonneg: "list_all ack_or_fill rs \<Longrightarrow> 0 \<le> fill_sum rs"
  by (induction rs) (auto simp: ack_or_fill_def is_fill_def)

lemma fold_acks_fills:
  assumes "list_all ack_or_fill rs" and "0 \<le> or_filled_qty o1" and "or_filled_qty o1 + fill_sum rs \<le> i64_max"
  shows "or_filled_qty (fold report_order rs o1) = or_filled_qty o1 + fill_sum rs \<and>
    or_intent (fold report_order rs o1) = or_intent o1 \<and>
    or_client_order_id (fold report_order rs o1) = or_client_order_id o1 \<and>
    or_state (fold report_order rs o1) =
      (if fill_sum rs = 0 then if or_state o1 = OsSent \<and> rs \<noteq> [] then OsAcked else or_state o1
       else if or_filled_qty o1 + fill_sum rs \<ge> oi_qty (or_intent o1) then OsFilled else OsPartial)"
  using assms
proof (induction rs arbitrary: o1)
  case (Cons r rs)
  have nn: "0 \<le> fill_sum rs" using Cons.prems(1) by (simp add: fill_sum_nonneg)
  show ?case
  proof (cases "is_fill r")
    case False
    then have "er_type r = ExAck" using Cons.prems(1) by (simp add: is_fill_def ack_or_fill_def)
    with False Cons.IH [of "report_order r o1"] Cons.prems show ?thesis
      by (auto simp: report_order_def)
  next
    case True
    then have q: "er_type r = ExFill" "0 < er_qty r" using Cons.prems(1) by (auto simp: is_fill_def ack_or_fill_def)
    then have "wrap64 (or_filled_qty o1 + er_qty r) = or_filled_qty o1 + er_qty r"
      using Cons.prems(2,3) nn True by (intro wrap64_bounded) simp_all
    then have st: "or_filled_qty (report_order r o1) = or_filled_qty o1 + er_qty r"
      "or_state (report_order r o1) = (if or_filled_qty o1 + er_qty r \<ge> oi_qty (or_intent o1) then OsFilled else OsPartial)"
      using q by (simp_all add: report_order_def Let_def)
    with Cons.IH [of "report_order r o1"] Cons.prems True q nn show ?thesis by auto
  qed
qed simp

section \<open>The gateway's contract\<close>

text \<open>
  What a gateway answers: all reports name the order; either a single reject, or
  acknowledgements and positive fills within the limit price and the quantity, followed by
  an expiry exactly when something is left.
\<close>

definition report_protocol :: "order \<Rightarrow> execution_report list \<Rightarrow> bool" where
  "report_protocol o1 rs \<longleftrightarrow>
     list_all (\<lambda>r. er_client_order_id r = or_client_order_id o1) rs \<and>
     list_all (\<lambda>r. is_fill r \<longrightarrow> \<not> beyond_limit (oi_side (or_intent o1)) (oi_price_paise (or_intent o1)) (er_price_paise r)) rs \<and>
     ((\<exists>r. rs = [r] \<and> er_type r = ExReject) \<or>
      (\<exists>ms tl. rs = ms @ tl \<and> list_all ack_or_fill ms \<and> fill_sum ms \<le> oi_qty (or_intent o1) \<and>
        (if fill_sum ms < oi_qty (or_intent o1) then \<exists>r. tl = [r] \<and> er_type r = ExExpire else tl = [])))"

definition sendable :: "order_intent \<Rightarrow> bool" where
  "sendable i \<longleftrightarrow> 0 < oi_qty i \<and> oi_qty i \<le> i64_max \<and> 0 < oi_price_paise i \<and> oi_side i \<noteq> SUnknown"

text \<open>How an order stands when its submission returns: no limbo states.\<close>

definition settled :: "order \<Rightarrow> bool" where
  "settled o1 \<longleftrightarrow> 0 \<le> or_filled_qty o1 \<and> or_filled_qty o1 \<le> oi_qty (or_intent o1) \<and>
     or_state o1 \<in> {OsFilled, OsPartial, OsRejected, OsExpired} \<and>
     (or_state o1 = OsFilled \<longleftrightarrow> or_filled_qty o1 = oi_qty (or_intent o1)) \<and>
     (or_state o1 = OsPartial \<longleftrightarrow> 0 < or_filled_qty o1 \<and> or_filled_qty o1 < oi_qty (or_intent o1))"

lemma protocol_settles:
  assumes "report_protocol (sent_order i cid now) rs" and "sendable i"
  shows "settled (fold report_order rs (sent_order i cid now)) \<and>
    or_filled_qty (fold report_order rs (sent_order i cid now)) = fill_sum rs \<and>
    or_intent (fold report_order rs (sent_order i cid now)) = i"
proof -
  let ?o = "sent_order i cid now"
  have q: "0 < oi_qty i" "oi_qty i \<le> i64_max" using assms(2) by (simp_all add: sendable_def)
  consider (rej) r where "rs = [r]" "er_type r = ExReject"
    | (fin) ms tl where "rs = ms @ tl" "list_all ack_or_fill ms" "fill_sum ms \<le> oi_qty i"
        "if fill_sum ms < oi_qty i then \<exists>r. tl = [r] \<and> er_type r = ExExpire else tl = []"
    using assms(1) by (auto simp: report_protocol_def sent_order_def)
  then show ?thesis
  proof cases
    case rej
    with q show ?thesis by (simp add: report_order_def sent_order_def settled_def is_fill_def)
  next
    case fin
    have m: "or_filled_qty (fold report_order ms ?o) = fill_sum ms" "or_intent (fold report_order ms ?o) = i"
      "or_state (fold report_order ms ?o) = (if fill_sum ms = 0 then if ms \<noteq> [] then OsAcked else OsSent
         else if fill_sum ms \<ge> oi_qty i then OsFilled else OsPartial)"
      using fold_acks_fills [OF fin(2), of ?o] fin(3) q by (auto simp: sent_order_def)
    have nn: "0 \<le> fill_sum ms" using fill_sum_nonneg [OF fin(2)] .
    show ?thesis
    proof (cases "fill_sum ms < oi_qty i")
      case True
      then obtain r where r: "tl = [r]" "er_type r = ExExpire" using fin(4) by auto
      with True m nn q fin(1) show ?thesis
        by (auto simp: settled_def report_order_def [of r] is_fill_def)
    next
      case False
      with fin(1,3,4) m nn q show ?thesis by (auto simp: settled_def)
    qed
  qed
qed

lemma complete_report_fields [simp]:
  "er_type (complete_report c i r) = er_type r" "er_qty (complete_report c i r) = er_qty r"
  "er_ts_ns (complete_report c i r) = er_ts_ns r" "er_reason (complete_report c i r) = er_reason r"
  "er_price_paise (complete_report c i r) = er_price_paise r"
  "er_client_order_id (complete_report c i r) = (if er_client_order_id r = [] then c else er_client_order_id r)"
  by (simp_all add: complete_report_def Let_def)

lemma complete_report_simps [simp]:
  "report_order (complete_report c i r) = report_order r" "is_fill (complete_report c i r) = is_fill r"
  "fill_of_report o1 (complete_report c i r) = fill_of_report o1 r"
  unfolding report_order_def is_fill_def fill_of_report_def fun_eq_iff complete_report_fields by simp_all

definition fill_matches :: "order_intent \<Rightarrow> string \<Rightarrow> fill \<Rightarrow> bool" where
  "fill_matches i cid f \<longleftrightarrow> fl_parent_arb_id f = oi_parent_arb_id i \<and> fl_client_order_id f = cid \<and>
     fl_instrument_id f = oi_instrument_id i \<and> fl_venue f = oi_venue i \<and> fl_side f = oi_side i \<and>
     0 < fl_fill_qty f \<and> \<not> beyond_limit (oi_side i) (oi_price_paise i) (fl_fill_px_paise f)"

definition fills_qty :: "fill list \<Rightarrow> int" where
  "fills_qty fs = (\<Sum>f\<leftarrow>fs. fl_fill_qty f)"

lemma protocol_fills:
  assumes "report_protocol (sent_order i cid now) rs"
  defines "fs \<equiv> map (fill_of_report (sent_order i cid now)) (filter is_fill rs)"
  shows "list_all (fill_matches i cid) fs" and "fills_qty fs = fill_sum rs"
proof -
  have "0 < er_qty r" if "r \<in> set rs" "is_fill r" for r
    using assms(1) that by (auto simp: report_protocol_def list_all_iff ack_or_fill_def is_fill_def split: if_splits)
      (metis exec_type.distinct(1))+
  then show "list_all (fill_matches i cid) fs"
    using assms(1) by (auto simp: fs_def list_all_iff fill_matches_def fill_of_report_def sent_order_def report_protocol_def)
  show "fills_qty fs = fill_sum rs"
    unfolding fs_def fills_qty_def by (induction rs) (auto simp: fill_of_report_def)
qed

text \<open>What a submission does to the order manager, told by its reports.\<close>

definition next_cid :: "order_intent \<Rightarrow> order_manager \<Rightarrow> string" where
  "next_cid i om = order_id (oi_parent_arb_id i) (oi_venue i) (oi_side i) (oi_role i) (ig_order_seq (om_ids om) + 1)"

definition submitted ::
  "order_intent \<Rightarrow> order_manager \<times> position_book \<Rightarrow> order \<Rightarrow> order_manager \<times> position_book \<Rightarrow> bool" where
  "submitted i s o1 s' \<longleftrightarrow>
     settled o1 \<and> or_intent o1 = i \<and> ids_ok (fst s') \<and>
     ig_order_seq (om_ids (fst s')) = ig_order_seq (om_ids (fst s)) + 1 \<and>
     om_consumed (fst s') = om_consumed (fst s) \<and>
     map_of (om_orders (fst s')) = (map_of (om_orders (fst s)))(next_cid i (fst s) \<mapsto> o1) \<and>
     om_orders (fst s') = om_orders (fst s) @ [(next_cid i (fst s), o1)] \<and>
     (\<exists>fs. om_fills (fst s') = om_fills (fst s) @ fs \<and> list_all (fill_matches i (next_cid i (fst s))) fs \<and>
           fills_qty fs = or_filled_qty o1 \<and> snd s' = apply_fills (map pos_of_fill fs) (snd s))"

lemma ids_ok_sent:
  assumes "ids_ok om" and "ig_order_seq (om_ids om) \<noteq> - 1"
  shows "ids_ok (om\<lparr>om_ids := (om_ids om)\<lparr>ig_order_seq := ig_order_seq (om_ids om) + 1\<rparr>,
    om_orders := AList.update (next_cid i om) (sent_order i (next_cid i om) now) (om_orders om)\<rparr>)"
  unfolding ids_ok_def
proof (intro conjI allI impI)
  let ?om = "om\<lparr>om_ids := (om_ids om)\<lparr>ig_order_seq := ig_order_seq (om_ids om) + 1\<rparr>,
    om_orders := AList.update (next_cid i om) (sent_order i (next_cid i om) now) (om_orders om)\<rparr>"
  have le: "ig_order_seq (om_ids om) \<le> ig_order_seq (om_ids om) + 1"
    using word_less_succ [OF assms(2)] by simp
  show "distinct (map fst (om_orders ?om))" using assms(1) by (auto simp: ids_ok_def)
  fix cid o1 assume o1: "map_of (om_orders ?om) cid = Some o1"
  show "or_client_order_id o1 = cid"
    using o1 assms(1) by (auto simp: ids_ok_def alist_simps sent_order_def simp del: map_of_eq_Some_iff split: if_splits)
  show "\<exists>p v sd r n. cid = order_id p v sd r n \<and> n \<le> ig_order_seq (om_ids ?om)"
  proof (cases "cid = next_cid i om")
    case True
    then have "cid = order_id (oi_parent_arb_id i) (oi_venue i) (oi_side i) (oi_role i) (ig_order_seq (om_ids om) + 1)"
      by (simp add: next_cid_def)
    then show ?thesis by simp blast
  next
    case False
    with o1 have "map_of (om_orders om) cid = Some o1" by (simp add: alist_simps)
    with assms(1) obtain p v sd r n where "cid = order_id p v sd r n" "n \<le> ig_order_seq (om_ids om)"
      unfolding ids_ok_def by blast
    moreover from this(2) le have "n \<le> ig_order_seq (om_ids ?om)" by simp
    ultimately show ?thesis by blast
  qed
qed

locale order_gateway =
  fixes send :: "order \<Rightarrow> 'g \<Rightarrow> (execution_report list \<times> 'g) option"
    and good :: "'g \<Rightarrow> bool"
  assumes send_ok: "good g \<Longrightarrow> sendable (or_intent o1) \<Longrightarrow>
      \<exists>rs g'. send o1 g = Some (rs, g') \<and> good g' \<and> report_protocol o1 rs"
begin

lemma submit_ok:
  assumes ok: "ids_ok om" "ig_order_seq (om_ids om) \<noteq> - 1" and g: "good g" and i: "sendable i"
  shows "\<exists>o1 s' g'. om_submit send i now (om, pos) g = Some (o1, s', g') \<and> good g' \<and> submitted i (om, pos) o1 s'"
proof -
  let ?cid = "next_cid i om" and ?n = "ig_order_seq (om_ids om) + 1"
  let ?o = "sent_order i ?cid now"
  have new: "map_of (om_orders om) ?cid = None" unfolding next_cid_def by (rule fresh_id [OF ok])
  obtain rs g' where snd1: "send ?o g = Some (rs, g')" "good g'" "report_protocol ?o rs"
    using send_ok [OF g, of ?o] i by (auto simp: sent_order_def)
  let ?om1 = "om\<lparr>om_ids := (om_ids om)\<lparr>ig_order_seq := ?n\<rparr>, om_orders := AList.update ?cid ?o (om_orders om)\<rparr>"
  let ?rs = "map (complete_report ?cid i) rs"
  obtain om' pos' where fold: "fold om_on_report ?rs (?om1, pos) = (om', pos')" by force
  have cid: "list_all (\<lambda>r. er_client_order_id r = ?cid) ?rs"
    using snd1(3) by (auto simp: report_protocol_def list_all_iff sent_order_def)
  have fr: "fold report_order ?rs = fold report_order rs" by (simp add: fold_map comp_def)
  have ff: "filter is_fill ?rs = map (complete_report ?cid i) (filter is_fill rs)"
    by (simp add: filter_map comp_def)
  let ?o' = "fold report_order rs ?o" and ?fs = "map (fill_of_report ?o) (filter is_fill rs)"
  have known: "map_of (om_orders ?om1) ?cid = Some ?o" by (simp add: alist_simps)
  have out: "map_of (om_orders om') = (map_of (om_orders om))(?cid \<mapsto> ?o')" "om_fills om' = om_fills om @ ?fs"
    "pos' = apply_fills (map pos_of_fill ?fs) pos" "om_ids om' = (om_ids om)\<lparr>ig_order_seq := ?n\<rparr>"
    "om_consumed om' = om_consumed om"
    using reports_fold [OF known cid fold]
    by (auto simp: fr ff comp_def alist_simps fun_eq_iff sent_order_def split: if_splits)
  have st: "settled ?o'" "or_filled_qty ?o' = fill_sum rs" "or_intent ?o' = i"
    using protocol_settles [OF snd1(3) i] by simp_all
  have "ids_ok ?om1" by (rule ids_ok_sent [OF ok])
  then have "ids_ok (fst (fold om_on_report ?rs (?om1, pos)))"
    using on_report_ids_ok_fold [of "(?om1, pos)"] by simp
  then have ids: "ids_ok om'" using fold by simp
  have sub: "om_submit send i now (om, pos) g = Some (?o', (om', pos'), g')"
    using snd1(1) fold out(1) new
    by (simp add: om_submit_def next_order_def Let_def next_cid_def [symmetric] fold_map comp_def sent_order_def [of i])
  have k: "?cid \<notin> fst ` set (om_orders om)" using new by (simp add: map_of_eq_None_iff)
  then have "om_orders ?om1 = om_orders om @ [(?cid, ?o)]" by (simp add: update_fresh)
  from reports_fold_table [OF this k cid, of pos] have "om_orders om' = om_orders om @ [(?cid, ?o')]"
    unfolding fold fr by simp
  then have "submitted i (om, pos) ?o' (om', pos')"
    unfolding submitted_def
    using st ids out protocol_fills [OF snd1(3)] by auto
  with sub snd1(2) show ?thesis by blast
qed

end

section \<open>Accounts that always balance\<close>

definition filled_of :: "string \<Rightarrow> fill list \<Rightarrow> int" where
  "filled_of cid fs = (\<Sum>f\<leftarrow>fs. if fl_client_order_id f = cid then fl_fill_qty f else 0)"

definition om_inv :: "order_manager \<times> position_book \<Rightarrow> bool" where
  "om_inv s \<longleftrightarrow> ids_ok (fst s) \<and> snd s = apply_fills (map pos_of_fill (om_fills (fst s))) [] \<and>
     list_all (\<lambda>f. om_known_order (fl_client_order_id f) (fst s)) (om_fills (fst s)) \<and>
     (\<forall>cid o1. map_of (om_orders (fst s)) cid = Some o1 \<longrightarrow>
        or_filled_qty o1 = wrap64 (filled_of cid (om_fills (fst s))) \<and>
        list_all (\<lambda>f. fl_client_order_id f = cid \<longrightarrow> fl_side f = oi_side (or_intent o1) \<and>
           fl_instrument_id f = oi_instrument_id (or_intent o1) \<and> fl_venue f = oi_venue (or_intent o1)) (om_fills (fst s)))"

text \<open>
  Everything that can happen to an order manager: submissions through any gateway, reports
  for any order at any time, fills taken; fewer than \<open>2 ^ 64 - 1\<close> orders are submitted.
\<close>

inductive om_reach :: "(order \<Rightarrow> 'g \<Rightarrow> (execution_report list \<times> 'g) option) \<Rightarrow> order_manager \<times> position_book \<Rightarrow> bool"
  for send :: "order \<Rightarrow> 'g \<Rightarrow> (execution_report list \<times> 'g) option" where
  om_start: "om_reach send (new_order_manager, [])"
| om_sub: "om_reach send s \<Longrightarrow> ig_order_seq (om_ids (fst s)) \<noteq> - 1 \<Longrightarrow>
     om_submit send i now s g = Some (o1, s', g') \<Longrightarrow> om_reach send s'"
| om_rep: "om_reach send s \<Longrightarrow> om_reach send (om_on_report r s)"
| om_take: "om_reach send (om, pos) \<Longrightarrow> om_reach send (snd (om_take_new_fills om), pos)"

lemma filled_of_simps [simp]:
  "filled_of cid [] = 0"
  "filled_of cid (fs @ [f]) = filled_of cid fs + (if fl_client_order_id f = cid then fl_fill_qty f else 0)"
  by (simp_all add: filled_of_def)

lemma filled_of_unknown:
  "list_all (\<lambda>f. om_known_order (fl_client_order_id f) om) fs \<Longrightarrow> \<not> om_known_order cid om \<Longrightarrow> filled_of cid fs = 0"
  by (induction fs) (auto simp: filled_of_def)

lemma report_order_filled:
  "or_filled_qty (report_order r o1) = (if is_fill r then wrap64 (or_filled_qty o1 + er_qty r) else or_filled_qty o1)"
  by (simp add: report_order_def is_fill_def Let_def split: exec_type.splits)

lemma on_report_inv:
  assumes "om_inv s"
  shows "om_inv (om_on_report r s)"
proof -
  obtain om pos where s: "s = (om, pos)" by force
  show ?thesis
  proof (cases "map_of (om_orders om) (er_client_order_id r)")
    case None
    then show ?thesis using assms by (simp add: s om_on_report_def)
  next
    case (Some o1)
    let ?cid = "er_client_order_id r"
    have cid: "or_client_order_id o1 = ?cid" using assms Some unfolding om_inv_def ids_ok_def s by simp
    define om' where "om' = om\<lparr>om_orders := AList.update ?cid (report_order r o1) (om_orders om),
        om_fills := om_fills om @ map (fill_of_report o1) (filter is_fill [r])\<rparr>"
    have step: "om_on_report r s = (om', apply_fills (map (pos_of_fill \<circ> fill_of_report o1) (filter is_fill [r])) pos)"
      unfolding s om'_def by (rule on_report_known [OF Some])
    have ids: "ids_ok om'" using on_report_ids_ok [of s r] assms by (simp add: om_inv_def step)
    have known: "om_known_order c om' \<longleftrightarrow> om_known_order c om" for c
      using Some by (simp add: om'_def om_known_order_def alist_simps)
    have look: "map_of (om_orders om') c = (if c = ?cid then Some (report_order r o1) else map_of (om_orders om) c)" for c
      by (simp add: om'_def alist_simps)
    note old = assms [unfolded om_inv_def s, simplified]
    have "om_inv (om', apply_fills (map (pos_of_fill \<circ> fill_of_report o1) (filter is_fill [r])) pos)"
      unfolding om_inv_def fst_conv snd_conv
    proof (intro conjI allI impI)
      show "ids_ok om'" by (rule ids)
      show "apply_fills (map (pos_of_fill \<circ> fill_of_report o1) (filter is_fill [r])) pos
          = apply_fills (map pos_of_fill (om_fills om')) []"
        using old by (simp add: om'_def apply_fills_append)
      show "list_all (\<lambda>f. om_known_order (fl_client_order_id f) om') (om_fills om')"
        using old Some cid by (simp add: known) (simp add: om'_def fill_of_report_def om_known_order_def)
      fix c o2 assume o2: "map_of (om_orders om') c = Some o2"
      let ?P = "or_filled_qty o2 = wrap64 (filled_of c (om_fills om')) \<and>
        list_all (\<lambda>f. fl_client_order_id f = c \<longrightarrow> fl_side f = oi_side (or_intent o2) \<and>
           fl_instrument_id f = oi_instrument_id (or_intent o2) \<and> fl_venue f = oi_venue (or_intent o2)) (om_fills om')"
      have ?P
      proof (cases "c = ?cid")
        case True
        with o2 look have "o2 = report_order r o1" by simp
        with True old Some cid show ?thesis
          by (auto simp: om'_def report_order_filled fill_of_report_def wrap_simps)
      next
        case False
        with o2 look have "map_of (om_orders om) c = Some o2" by simp
        with False old cid show ?thesis by (auto simp: om'_def fill_of_report_def)
      qed
      then show "or_filled_qty o2 = wrap64 (filled_of c (om_fills om'))"
        and "list_all (\<lambda>f. fl_client_order_id f = c \<longrightarrow> fl_side f = oi_side (or_intent o2) \<and>
           fl_instrument_id f = oi_instrument_id (or_intent o2) \<and> fl_venue f = oi_venue (or_intent o2)) (om_fills om')"
        by simp_all
    qed
    then show ?thesis by (simp add: step)
  qed
qed

lemma on_report_inv_fold: "om_inv s \<Longrightarrow> om_inv (fold (\<lambda>r. om_on_report (f r)) rs s)"
  by (induction rs arbitrary: s) (simp_all add: on_report_inv)

lemma om_inv_sent:
  assumes "om_inv (om, pos)" and "ig_order_seq (om_ids om) \<noteq> - 1"
  shows "om_inv (om\<lparr>om_ids := (om_ids om)\<lparr>ig_order_seq := ig_order_seq (om_ids om) + 1\<rparr>,
    om_orders := AList.update (next_cid i om) (sent_order i (next_cid i om) now) (om_orders om)\<rparr>, pos)"
proof -
  note old = assms(1) [unfolded om_inv_def, simplified]
  have new: "map_of (om_orders om) (next_cid i om) = None"
    unfolding next_cid_def using old assms(2) by (intro fresh_id) simp_all
  then have "\<not> om_known_order (next_cid i om) om" by (simp add: om_known_order_def)
  with old have z: "filled_of (next_cid i om) (om_fills om) = 0"
    and nf: "list_all (\<lambda>f. fl_client_order_id f \<noteq> next_cid i om) (om_fills om)"
    by (auto simp: filled_of_unknown list_all_iff)
  have "ids_ok om" using old by simp
  from ids_ok_sent [OF this assms(2), of i now] show ?thesis
    unfolding om_inv_def fst_conv snd_conv
    using old z nf
    by (auto simp: alist_simps sent_order_def om_known_order_def list_all_iff wrap64_def
        simp del: map_of_eq_Some_iff split: if_splits)
qed

lemma om_submit_inv:
  assumes "om_inv s" and "ig_order_seq (om_ids (fst s)) \<noteq> - 1" and "om_submit send i now s g = Some (o1, s', g')"
  shows "om_inv s'"
proof -
  obtain om pos where s: "s = (om, pos)" by force
  have "ids_ok om" using assms(1) by (simp add: om_inv_def s)
  then have "map_of (om_orders om) (next_cid i om) = None"
    unfolding next_cid_def using assms(2) by (intro fresh_id) (simp_all add: s)
  with assms(3) obtain rs where "s' = fold (\<lambda>r. om_on_report (complete_report (next_cid i om) i r)) rs
      (om\<lparr>om_ids := (om_ids om)\<lparr>ig_order_seq := ig_order_seq (om_ids om) + 1\<rparr>,
       om_orders := AList.update (next_cid i om) (sent_order i (next_cid i om) now) (om_orders om)\<rparr>, pos)"
    by (auto simp: s om_submit_def next_order_def Let_def next_cid_def [symmetric] sent_order_def
        split: option.splits)
  with om_inv_sent [of om pos i now] assms(1,2) show ?thesis by (simp add: s on_report_inv_fold)
qed

lemma om_reach_inv: "om_reach send s \<Longrightarrow> om_inv s"
proof (induction rule: om_reach.induct)
  case om_start
  then show ?case
    by (simp add: om_inv_def ids_ok_def new_order_manager_def)
next
  case om_sub
  then show ?case by (blast intro: om_submit_inv)
next
  case om_rep
  then show ?case by (blast intro: on_report_inv)
next
  case (om_take om pos)
  then show ?case by (simp add: om_inv_def om_take_new_fills_def ids_ok_def om_known_order_def del: map_of_eq_Some_iff)
qed

section \<open>Properties\<close>

text \<open>A gateway that acknowledges and fills every order in full at its limit price.\<close>

definition full_fill_gateway :: "order \<Rightarrow> nat \<Rightarrow> (execution_report list \<times> nat) option" where
  "full_fill_gateway o1 g =
     (let r = \<lparr>er_type = ExAck, er_client_order_id = or_client_order_id o1, er_parent_arb_id = [],
               er_instrument_id = 0, er_venue = VUnknown, er_side = SUnknown,
               er_price_paise = oi_price_paise (or_intent o1), er_qty = 0, er_ts_ns = 0, er_reason = []\<rparr>
      in Some ([r, r\<lparr>er_type := ExFill, er_qty := oi_qty (or_intent o1)\<rparr>], Suc g))"

lemma sample_submit:
  "case om_submit full_fill_gateway sample_intent 7 (new_order_manager, []) 0 of
     None \<Rightarrow> False | Some (o1, s, g) \<Rightarrow> ig_order_seq (om_ids (fst s)) = 1 \<and> snd s \<noteq> []"
  by code_simp

lemma sample_submission:
  "\<exists>s. om_reach full_fill_gateway s \<and> ig_order_seq (om_ids (fst s)) = 1 \<and> snd s \<noteq> []"
proof -
  obtain o1 s g where sub: "om_submit full_fill_gateway sample_intent 7 (new_order_manager, []) 0 = Some (o1, s, g)"
    and "ig_order_seq (om_ids (fst s)) = 1 \<and> snd s \<noteq> []"
    using sample_submit by (auto split: option.splits)
  moreover have "om_reach full_fill_gateway s"
    by (rule om_sub [OF om_start _ sub]) (simp add: new_order_manager_def new_id_generator_def)
  ultimately show ?thesis by blast
qed

text \<open>
  C13: the books of the order manager always balance. Whatever the gateway answers and
  whichever reports arrive, for known or unknown orders and in any order: every recorded
  fill belongs to a submitted order and carries its side, venue and instrument; the filled
  quantity of each order is the sum of its recorded fills; and the positions are exactly
  those of the recorded fills.
\<close>

theorem oms_books_balance:
  assumes "om_reach send (om, pos)"
  shows "(\<forall>i. pos_net i pos = wrap64 (net_of i (map pos_of_fill (om_fills om))) \<and>
              pos_cash i pos = wrap64 (cash_of i (map pos_of_fill (om_fills om)))) \<and>
    (\<forall>cid o1. map_of (om_orders om) cid = Some o1 \<longrightarrow> or_client_order_id o1 = cid \<and>
       or_filled_qty o1 = wrap64 (filled_of cid (om_fills om))) \<and>
    (\<forall>f \<in> set (om_fills om). \<exists>o1. map_of (om_orders om) (fl_client_order_id f) = Some o1 \<and>
       fl_side f = oi_side (or_intent o1) \<and> fl_venue f = oi_venue (or_intent o1) \<and>
       fl_instrument_id f = oi_instrument_id (or_intent o1))"
proof (intro conjI allI impI ballI)
  note inv = om_reach_inv [OF assms, unfolded om_inv_def fst_conv snd_conv]
  have pos: "pos = apply_fills (map pos_of_fill (om_fills om)) []" using inv by blast
  show "pos_net i pos = wrap64 (net_of i (map pos_of_fill (om_fills om)))"
    and "pos_cash i pos = wrap64 (cash_of i (map pos_of_fill (om_fills om)))" for i
    unfolding pos using apply_fills_exact [of i "[]" "map pos_of_fill (om_fills om)"]
    by (simp_all add: pos_net_def pos_cash_def in_i64_def)
  fix cid o1 assume "map_of (om_orders om) cid = Some o1"
  then show "or_client_order_id o1 = cid" and "or_filled_qty o1 = wrap64 (filled_of cid (om_fills om))"
    using inv unfolding ids_ok_def by blast+
next
  note inv = om_reach_inv [OF assms, unfolded om_inv_def fst_conv snd_conv]
  fix f assume f: "f \<in> set (om_fills om)"
  then obtain o1 where o1: "map_of (om_orders om) (fl_client_order_id f) = Some o1"
    using inv unfolding list_all_iff om_known_order_def by blast
  with inv f have "fl_side f = oi_side (or_intent o1) \<and> fl_instrument_id f = oi_instrument_id (or_intent o1) \<and>
      fl_venue f = oi_venue (or_intent o1)"
    unfolding list_all_iff by blast
  with o1 show "\<exists>o1. map_of (om_orders om) (fl_client_order_id f) = Some o1 \<and>
       fl_side f = oi_side (or_intent o1) \<and> fl_venue f = oi_venue (or_intent o1) \<and>
       fl_instrument_id f = oi_instrument_id (or_intent o1)" by blast
qed

theorem oms_books_balance_witness:
  "\<exists>om pos. om_reach full_fill_gateway (om, pos) \<and> pos \<noteq> [] \<and>
     (\<forall>i. pos_net i pos = wrap64 (net_of i (map pos_of_fill (om_fills om))))"
proof -
  obtain om pos where "om_reach full_fill_gateway (om, pos)" "pos \<noteq> []" using sample_submission by fastforce
  with oms_books_balance [of full_fill_gateway om pos] show ?thesis by blast
qed

text \<open>
  C30: order ids are never reused. In every reachable state with fewer than \<open>2 ^ 64 - 1\<close>
  orders, the id the next submission draws - whatever its parent id, venue, side and
  role - is not the id of any stored order, so \<open>emplace\<close> always stores the new order and
  no earlier order is disturbed.
\<close>

theorem order_ids_fresh:
  assumes "om_reach send (om, pos)" and "ig_order_seq (om_ids om) \<noteq> - 1"
  shows "\<not> om_known_order (fst (next_order p v sd r (om_ids om))) om"
  using fresh_id [OF _ assms(2)] om_reach_inv [OF assms(1)]
  by (simp add: om_known_order_def next_order_def om_inv_def Let_def)

theorem order_ids_fresh_witness:
  "\<exists>om pos. om_reach full_fill_gateway (om, pos) \<and> pos \<noteq> [] \<and>
     \<not> om_known_order (fst (next_order ''P'' NSE Buy AlphaBuy (om_ids om))) om"
proof -
  obtain om pos where s: "om_reach full_fill_gateway (om, pos)" "ig_order_seq (om_ids om) = 1" "pos \<noteq> []"
    using sample_submission by fastforce
  then have "ig_order_seq (om_ids om) \<noteq> - 1" by simp
  from order_ids_fresh [OF s(1) this] s(1,3) show ?thesis by blast
qed

end
