(* ===== verification/Book_Invariant.thy ===== *)
theory Book_Invariant
  imports Order_Book
begin

text \<open>
  What every operation of the order book keeps true. The price-level maps are studied once
  for any strict linear comparison (locale \<open>level_order\<close>) and instantiated for bids and
  asks. How levels and the order index relate is studied once for any relation that is
  stable under adding and removing the same quantity (locale \<open>level_index_agreement\<close>)
  and instantiated with \<open>\<le>\<close>, kept by every event, and \<open>=\<close>, kept by every event that names
  its order.
\<close>

section \<open>Sorted level maps\<close>

definition lvl_ok :: "(i64 \<Rightarrow> i64 \<Rightarrow> bool) \<Rightarrow> levels \<Rightarrow> bool" where
  "lvl_ok lt xs \<longleftrightarrow> sorted_wrt lt (map fst xs) \<and>
     (\<forall>px q. map_of xs px = Some q \<longrightarrow> 0 < q \<and> q \<le> i64_max)"

locale level_order =
  fixes lt :: "i64 \<Rightarrow> i64 \<Rightarrow> bool"
  assumes lt_irrefl: "\<not> lt x x"
    and lt_trans: "lt x y \<Longrightarrow> lt y z \<Longrightarrow> lt x z"
    and lt_total: "lt x y \<or> x = y \<or> lt y x"
begin

lemma map_of_put [simp]: "map_of (lvl_put lt px q xs) p = (if p = px then Some q else map_of xs p)"
  by (induction lt px q xs rule: lvl_put.induct) auto

lemma keys_put: "fst ` set (lvl_put lt px q xs) = insert px (fst ` set xs)"
  by (induction lt px q xs rule: lvl_put.induct) auto

lemma sorted_put: "sorted_wrt lt (map fst xs) \<Longrightarrow> sorted_wrt lt (map fst (lvl_put lt px q xs))"
proof (induction xs)
  case (Cons pr xs)
  obtain p r where pr: "pr = (p, r)" by force
  have keys: "set (map fst (lvl_put lt px q xs)) = insert px (set (map fst xs))"
    using keys_put by simp
  show ?case
    using Cons pr keys lt_total [of px p] lt_trans [of px p]
    by (auto simp: sorted_wrt_append)
qed simp

lemma sorted_delete: "sorted_wrt lt (map fst xs) \<Longrightarrow> sorted_wrt lt (map fst (AList.delete px xs))"
  by (simp add: AList.delete_eq sorted_wrt_map sorted_wrt_filter)

lemma sorted_distinct: "sorted_wrt lt xs \<Longrightarrow> distinct xs"
  by (induction xs) (auto simp: lt_irrefl)

text \<open>The head of the map is its best price.\<close>

lemma hd_best:
  "sorted_wrt lt (map fst ((p, r) # xs)) \<Longrightarrow> map_of ((p, r) # xs) p' = Some q \<Longrightarrow> p' = p \<or> lt p p'"
  by (auto dest!: map_of_SomeD split: if_splits)

text \<open>Sorted, every level with a positive quantity that fits: what the operations keep.\<close>

lemma lvl_ok_qty: "lvl_ok lt xs \<Longrightarrow> 0 \<le> lvl_qty xs px \<and> lvl_qty xs px \<le> i64_max"
  unfolding lvl_ok_def lvl_qty_def by (cases "map_of xs px") force+

lemma lvl_ok_put: "lvl_ok lt xs \<Longrightarrow> 0 < q \<Longrightarrow> q \<le> i64_max \<Longrightarrow> lvl_ok lt (lvl_put lt px q xs)"
  by (auto simp: lvl_ok_def sorted_put)

lemma lvl_ok_delete: "lvl_ok lt xs \<Longrightarrow> lvl_ok lt (AList.delete px xs)"
  by (auto simp: lvl_ok_def sorted_delete alist_simps split: if_splits)

lemma lvl_qty_put: "lvl_qty (lvl_put lt px q xs) p = (if p = px then q else lvl_qty xs p)"
  by (simp add: lvl_qty_def)

lemma lvl_qty_delete: "lvl_qty (AList.delete px xs) p = (if p = px then 0 else lvl_qty xs p)"
  by (simp add: lvl_qty_def alist_simps)

lemma add_ok:
  assumes "lvl_ok lt xs" and "0 < qty" and "lvl_qty xs px + qty \<le> i64_max"
  shows "lvl_ok lt (lvl_add lt px qty xs)"
    and "lvl_qty (lvl_add lt px qty xs) p = (if p = px then lvl_qty xs px + qty else lvl_qty xs p)"
proof -
  have "wrap64 (lvl_qty xs px + qty) = lvl_qty xs px + qty"
    using assms lvl_ok_qty [OF assms(1), of px] by (intro wrap64_bounded) auto
  moreover have "0 < lvl_qty xs px + qty" using assms(2) lvl_ok_qty [OF assms(1), of px] by linarith
  ultimately show "lvl_ok lt (lvl_add lt px qty xs)"
    and "lvl_qty (lvl_add lt px qty xs) p = (if p = px then lvl_qty xs px + qty else lvl_qty xs p)"
    using assms by (simp_all add: lvl_add_def lvl_ok_put lvl_qty_put)
qed

lemma remove_ok:
  assumes "lvl_ok lt xs" and "0 \<le> qty" and "qty \<le> i64_max"
  shows "lvl_ok lt (lvl_remove lt px qty xs)"
    and "lvl_qty (lvl_remove lt px qty xs) p
      = (if p = px then max 0 (lvl_qty xs px - qty) else lvl_qty xs p)"
proof -
  consider "map_of xs px = None" | l where "map_of xs px = Some l" "0 < l" "l \<le> i64_max"
    "wrap64 (l - qty) = l - qty" "lvl_qty xs px = l"
    using assms by (cases "map_of xs px") (auto simp: lvl_ok_def lvl_qty_def wrap64_sub_pos)
  note cases = this
  show "lvl_ok lt (lvl_remove lt px qty xs)"
    using assms by (cases rule: cases) (auto simp: lvl_remove_def Let_def lvl_ok_delete intro!: lvl_ok_put)
  show "lvl_qty (lvl_remove lt px qty xs) p
      = (if p = px then max 0 (lvl_qty xs px - qty) else lvl_qty xs p)"
    using assms
    by (cases rule: cases) (auto simp: lvl_remove_def Let_def lvl_qty_put lvl_qty_delete, auto simp: lvl_qty_def)
qed

end

interpretation bid: level_order "(>) :: i64 \<Rightarrow> i64 \<Rightarrow> bool"
  by unfold_locales auto

interpretation ask: level_order "(<) :: i64 \<Rightarrow> i64 \<Rightarrow> bool"
  by unfold_locales auto

section \<open>Well-formed levels and index\<close>

definition levels_ok :: "order_book \<Rightarrow> bool" where
  "levels_ok b \<longleftrightarrow> lvl_ok (>) (ob_bids b) \<and> lvl_ok (<) (ob_asks b)"

definition entry_ok :: "resting_order \<Rightarrow> bool" where
  "entry_ok ro \<longleftrightarrow> ro_side ro \<noteq> SUnknown \<and> 0 < ro_qty ro \<and> ro_qty ro \<le> i64_max"

definition index_ok :: "order_index \<Rightarrow> bool" where
  "index_ok xs \<longleftrightarrow> distinct (map fst xs) \<and> (\<forall>oid ro. map_of xs oid = Some ro \<longrightarrow> entry_ok ro)"

text \<open>The quantity of the resting orders of one side at one price.\<close>

definition qty_at :: "side \<Rightarrow> i64 \<Rightarrow> resting_order \<Rightarrow> int" where
  "qty_at sd px ro = (if ro_side ro = sd \<and> ro_price_paise ro = px then ro_qty ro else 0)"

definition orders_at :: "side \<Rightarrow> i64 \<Rightarrow> order_book \<Rightarrow> int" where
  "orders_at sd px b = alist_sum (qty_at sd px) (ob_orders b)"

definition book_agrees :: "(int \<Rightarrow> int \<Rightarrow> bool) \<Rightarrow> order_book \<Rightarrow> bool" where
  "book_agrees R b \<longleftrightarrow> levels_ok b \<and> index_ok (ob_orders b) \<and>
     (\<forall>sd px. sd \<noteq> SUnknown \<longrightarrow> R (depth_at sd px b) (orders_at sd px b))"

definition book_ok :: "order_book \<Rightarrow> bool" where
  "book_ok b \<longleftrightarrow> book_agrees (\<le>) b"

definition book_inv :: "order_book \<Rightarrow> bool" where
  "book_inv b \<longleftrightarrow> book_agrees (=) b \<and> (\<forall>oid ro. map_of (ob_orders b) oid = Some ro \<longrightarrow> 0 < ro_price_paise ro)"

text \<open>A new order of this quantity overflows no level: the only arithmetic that could.\<close>

definition room_for :: "i64 \<Rightarrow> i64 \<Rightarrow> order_book \<Rightarrow> bool" where
  "room_for px qty b \<longleftrightarrow> depth_at Buy px b + qty \<le> i64_max \<and> depth_at Sell px b + qty \<le> i64_max"

lemma depth_at_range: "levels_ok b \<Longrightarrow> 0 \<le> depth_at sd px b \<and> depth_at sd px b \<le> i64_max"
  using bid.lvl_ok_qty ask.lvl_ok_qty by (auto simp: levels_ok_def depth_at_def)

lemmas depth_at_nonneg = depth_at_range [THEN conjunct1]
lemmas depth_at_max = depth_at_range [THEN conjunct2]

lemma depth_at_SUnknown [simp]: "depth_at SUnknown px b = 0"
  by (simp add: depth_at_def)

lemma index_ok_member: "index_ok xs \<Longrightarrow> map_of xs oid = Some ro \<Longrightarrow> entry_ok ro"
  by (simp add: index_ok_def)

lemma index_ok_set: "index_ok xs \<Longrightarrow> (oid, ro) \<in> set xs \<Longrightarrow> entry_ok ro"
  by (simp add: index_ok_def)

lemma qty_at_nonneg: "entry_ok ro \<Longrightarrow> 0 \<le> qty_at sd px ro"
  by (simp add: qty_at_def entry_ok_def)

lemma orders_at_nonneg: "index_ok (ob_orders b) \<Longrightarrow> 0 \<le> orders_at sd px b"
  unfolding orders_at_def by (rule alist_sum_nonneg) (blast intro: qty_at_nonneg index_ok_set)

lemma orders_at_ge:
  "index_ok (ob_orders b) \<Longrightarrow> map_of (ob_orders b) oid = Some ro \<Longrightarrow> qty_at sd px ro \<le> orders_at sd px b"
  unfolding orders_at_def by (rule alist_sum_ge_member) (blast intro: qty_at_nonneg index_ok_set)

section \<open>The level primitives\<close>

lemma orders_remove_from_level [simp]: "ob_orders (remove_from_level sd px qty b) = ob_orders b"
  by (simp add: remove_from_level_def)

lemma orders_add_to_level [simp]: "ob_orders (add_to_level sd px qty b) = ob_orders b"
  by (simp add: add_to_level_def)

lemma depth_at_orders [simp]: "depth_at sd px (b\<lparr>ob_orders := xs\<rparr>) = depth_at sd px b"
  by (simp add: depth_at_def)

lemma levels_ok_orders [simp]: "levels_ok (b\<lparr>ob_orders := xs\<rparr>) = levels_ok b"
  by (simp add: levels_ok_def)

lemma levels_ok_remove_from_level:
  "levels_ok b \<Longrightarrow> qty \<le> i64_max \<Longrightarrow> levels_ok (remove_from_level sd px qty b)"
  by (simp add: levels_ok_def remove_from_level_def bid.remove_ok ask.remove_ok)

lemma depth_at_remove_from_level:
  assumes "levels_ok b" and "0 \<le> qty" and "qty \<le> i64_max"
  shows "depth_at s p (remove_from_level sd px qty b)
    = (if s = sd \<and> p = px \<and> sd \<noteq> SUnknown then max 0 (depth_at s p b - qty) else depth_at s p b)"
  using assms depth_at_nonneg [OF assms(1), of s p]
  by (cases sd; cases s) (auto simp: levels_ok_def depth_at_def remove_from_level_def bid.remove_ok ask.remove_ok)

lemma levels_ok_add_to_level:
  assumes "levels_ok b" and "0 < qty" and "sd \<noteq> SUnknown" and "depth_at sd px b + qty \<le> i64_max"
  shows "levels_ok (add_to_level sd px qty b)"
  using assms by (cases sd) (simp_all add: levels_ok_def add_to_level_def depth_at_def bid.add_ok ask.add_ok)

lemma depth_at_add_to_level:
  assumes "levels_ok b" and "0 < qty" and "sd \<noteq> SUnknown" and "depth_at sd px b + qty \<le> i64_max"
  shows "depth_at s p (add_to_level sd px qty b)
    = (if s = sd \<and> p = px then depth_at s p b + qty else depth_at s p b)"
  using assms
  by (cases sd; cases s) (auto simp: levels_ok_def add_to_level_def depth_at_def bid.add_ok ask.add_ok)

section \<open>Changing one entry of the index\<close>

lemma index_ok_update: "index_ok xs \<Longrightarrow> entry_ok ro \<Longrightarrow> index_ok (AList.update oid ro xs)"
  by (auto simp: index_ok_def alist_simps)

lemma index_ok_delete: "index_ok xs \<Longrightarrow> index_ok (AList.delete oid xs)"
  by (auto simp: index_ok_def alist_simps split: if_splits)

lemma orders_at_delete:
  "index_ok (ob_orders b) \<Longrightarrow> map_of (ob_orders b) oid = Some ro \<Longrightarrow>
   orders_at sd px (b'\<lparr>ob_orders := AList.delete oid (ob_orders b)\<rparr>) = orders_at sd px b - qty_at sd px ro"
  by (simp add: orders_at_def alist_sum_delete index_ok_def)

lemma orders_at_update_old:
  "map_of (ob_orders b) oid = Some ro \<Longrightarrow>
   orders_at sd px (b'\<lparr>ob_orders := AList.update oid ro' (ob_orders b)\<rparr>)
   = orders_at sd px b - qty_at sd px ro + qty_at sd px ro'"
  by (simp add: orders_at_def alist_sum_update_old)

lemma orders_at_update_new:
  "map_of (ob_orders b) oid = None \<Longrightarrow>
   orders_at sd px (b'\<lparr>ob_orders := AList.update oid ro' (ob_orders b)\<rparr>)
   = orders_at sd px b + qty_at sd px ro'"
  by (simp add: orders_at_def alist_sum_update_new)

lemma orders_at_add_to_level [simp]: "orders_at s p (add_to_level sd px qty b) = orders_at s p b"
  by (simp add: orders_at_def)

lemma orders_at_remove_from_level [simp]: "orders_at s p (remove_from_level sd px qty b) = orders_at s p b"
  by (simp add: orders_at_def)

lemma add_to_level_orders: "add_to_level sd px qty (b\<lparr>ob_orders := xs\<rparr>) = (add_to_level sd px qty b)\<lparr>ob_orders := xs\<rparr>"
  by (simp add: add_to_level_def)

lemma depth_at_cancel_le:
  assumes "levels_ok b" and "index_ok (ob_orders b)"
  shows "depth_at sd px (book_cancel oid b) \<le> depth_at sd px b"
proof (cases "map_of (ob_orders b) oid")
  case (Some ro)
  with assms(2) have "0 < ro_qty ro" "ro_qty ro \<le> i64_max"
    using index_ok_member [of "ob_orders b" oid ro] by (simp_all add: entry_ok_def)
  with Some assms(1) show ?thesis
    by (auto simp: book_cancel_def Let_def depth_at_remove_from_level depth_at_nonneg)
qed (simp add: book_cancel_def)

section \<open>Agreement of levels and index\<close>

text \<open>
  The relation between the quantity of a level and the quantity of its orders: it survives
  adding the same quantity to both, and removing a quantity that the orders really have
  (a level stops at zero).
\<close>

locale level_index_agreement =
  fixes R :: "int \<Rightarrow> int \<Rightarrow> bool"
  assumes R_zero: "R 0 0"
    and R_le: "R d s \<Longrightarrow> d \<le> s"
    and R_add: "R d s \<Longrightarrow> R (d + q) (s + q)"
    and R_sub: "R d s \<Longrightarrow> 0 \<le> d \<Longrightarrow> 0 \<le> q \<Longrightarrow> q \<le> s \<Longrightarrow> R (max 0 (d - q)) (s - q)"
begin

lemma agreesD:
  assumes "book_agrees R b"
  shows "levels_ok b" and "index_ok (ob_orders b)"
    and "sd \<noteq> SUnknown \<Longrightarrow> R (depth_at sd px b) (orders_at sd px b)"
  using assms by (simp_all add: book_agrees_def)

text \<open>Removing \<open>q\<close> from an order's entry and from its level.\<close>

lemma agrees_take:
  assumes inv: "book_agrees R b" and ro: "map_of (ob_orders b) oid = Some ro"
    and q: "0 \<le> q" "q \<le> ro_qty ro"
    and idx: "index_ok xs"
    and sums: "\<And>sd px. alist_sum (qty_at sd px) xs
      = orders_at sd px b - (if sd = ro_side ro \<and> px = ro_price_paise ro then q else 0)"
  shows "book_agrees R ((remove_from_level (ro_side ro) (ro_price_paise ro) q b)\<lparr>ob_orders := xs\<rparr>)"
proof -
  note [simp] = agreesD(1,2) [OF inv]
  have e: "entry_ok ro" using index_ok_member [OF _ ro] by simp
  with q have qmax: "q \<le> i64_max" by (simp add: entry_ok_def)
  have "R (depth_at sd px (remove_from_level (ro_side ro) (ro_price_paise ro) q b)) (alist_sum (qty_at sd px) xs)"
    if sd: "sd \<noteq> SUnknown" for sd px
  proof (cases "sd = ro_side ro \<and> px = ro_price_paise ro")
    case True
    then have "q \<le> orders_at sd px b"
      using orders_at_ge [OF _ ro, of sd px] q by (simp add: qty_at_def)
    then have "R (max 0 (depth_at sd px b - q)) (orders_at sd px b - q)"
      using agreesD(3) [OF inv sd] q by (intro R_sub) (simp_all add: depth_at_nonneg)
    with True sd q qmax show ?thesis by (simp add: depth_at_remove_from_level sums)
  next
    case False
    with agreesD(3) [OF inv sd] q qmax show ?thesis by (auto simp: depth_at_remove_from_level sums)
  qed
  with idx qmax show ?thesis
    by (simp add: book_agrees_def levels_ok_remove_from_level orders_at_def)
qed

lemma agrees_insert:
  assumes inv: "book_agrees R b" and ro: "entry_ok ro" and new: "map_of (ob_orders b) oid = None"
    and room: "depth_at (ro_side ro) (ro_price_paise ro) b + ro_qty ro \<le> i64_max"
  shows "book_agrees R (add_to_level (ro_side ro) (ro_price_paise ro) (ro_qty ro)
           (b\<lparr>ob_orders := AList.update oid ro (ob_orders b)\<rparr>))"
proof -
  note lv = agreesD(1,2) [OF inv]
  have e: "0 < ro_qty ro" "ro_side ro \<noteq> SUnknown" using ro by (simp_all add: entry_ok_def)
  have R: "R (if sd = ro_side ro \<and> px = ro_price_paise ro then depth_at sd px b + ro_qty ro
                else depth_at sd px b) (orders_at sd px b + qty_at sd px ro)"
    if "sd \<noteq> SUnknown" for sd px
    using agreesD(3) [OF inv that, of px] by (auto simp: qty_at_def intro: R_add)
  have "R (depth_at sd px (add_to_level (ro_side ro) (ro_price_paise ro) (ro_qty ro)
             (b\<lparr>ob_orders := AList.update oid ro (ob_orders b)\<rparr>)))
          (orders_at sd px (b\<lparr>ob_orders := AList.update oid ro (ob_orders b)\<rparr>))"
    if "sd \<noteq> SUnknown" for sd px
    using R [OF that, of px] lv e room 
    by (auto simp: depth_at_add_to_level orders_at_update_new [OF new] split: if_splits)
  with lv e room ro show ?thesis
    by (simp add: book_agrees_def levels_ok_add_to_level index_ok_update)
qed

lemma agrees_cancel:
  assumes "book_agrees R b"
  shows "book_agrees R (book_cancel oid b)"
proof (cases "map_of (ob_orders b) oid")
  case (Some ro)
  note idx = agreesD(2) [OF assms]
  have "book_agrees R ((remove_from_level (ro_side ro) (ro_price_paise ro) (ro_qty ro) b)
         \<lparr>ob_orders := AList.delete oid (ob_orders b)\<rparr>)"
  proof (rule agrees_take [OF assms Some])
    show "0 \<le> ro_qty ro" using index_ok_member [OF idx Some] by (simp add: entry_ok_def)
    show "alist_sum (qty_at sd px) (AList.delete oid (ob_orders b))
      = orders_at sd px b - (if sd = ro_side ro \<and> px = ro_price_paise ro then ro_qty ro else 0)" for sd px
      using orders_at_delete [OF idx Some, of sd px b] by (auto simp: orders_at_def qty_at_def)
  qed (simp_all add: idx index_ok_delete)
  with Some show ?thesis by (simp add: book_cancel_def)
qed (simp add: assms book_cancel_def)

lemma agrees_reorder:
  assumes "book_agrees R b" and "index_ok ys"
    and "\<And>sd px. alist_sum (qty_at sd px) ys = orders_at sd px b"
  shows "book_agrees R (b\<lparr>ob_orders := ys\<rparr>)"
  using assms by (simp add: book_agrees_def orders_at_def)

lemma agrees_add:
  assumes inv: "book_agrees R b" and room: "room_for px qty b"
  shows "book_agrees R (book_add oid sd px qty b)"
proof (cases "oid = 0 \<or> sd = SUnknown \<or> px \<le> 0 \<or> qty \<le> 0")
  case False
  define b1 where "b1 = (if map_of (ob_orders b) oid \<noteq> None then book_cancel oid b else b)"
  have b1: "book_agrees R b1" using inv by (simp add: b1_def agrees_cancel)
  have new: "map_of (ob_orders b1) oid = None"
    by (auto simp: b1_def book_cancel_def Let_def alist_simps split: option.splits)
  have le: "depth_at sd px b1 \<le> depth_at sd px b"
    using depth_at_cancel_le [OF agreesD(1,2) [OF inv]] by (simp add: b1_def)
  let ?ro = "\<lparr>ro_side = sd, ro_price_paise = px, ro_qty = qty\<rparr>"
  have room1: "depth_at sd px b1 + qty \<le> i64_max" using le room False by (cases sd) (auto simp: room_for_def)
  have "entry_ok ?ro"
    using False room1 depth_at_nonneg [OF agreesD(1) [OF b1], of sd px] by (simp add: entry_ok_def)
  from agrees_insert [OF b1 this new] room1 False show ?thesis
    by (simp add: book_add_def Let_def b1_def)
qed (simp add: book_add_def inv)

lemma agrees_modify:
  assumes inv: "book_agrees R b" and room: "room_for px qty b"
  shows "book_agrees R (book_modify oid sd px qty b)"
proof (cases "map_of (ob_orders b) oid")
  case None
  with agrees_add [OF inv room] show ?thesis by (simp add: book_modify_def)
next
  case (Some ro)
  note idx = agreesD(2) [OF inv]
  have cancelled: "book_agrees R (book_cancel oid b)" using inv by (rule agrees_cancel)
  show ?thesis
  proof (cases "qty \<le> 0")
    case True
    with cancelled Some show ?thesis by (simp add: book_modify_def book_cancel_def Let_def)
  next
    case False
    define fs where "fs = (if sd = SUnknown then ro_side ro else sd)"
    let ?ro = "\<lparr>ro_side = fs, ro_price_paise = px, ro_qty = qty\<rparr>"
    let ?b1 = "remove_from_level (ro_side ro) (ro_price_paise ro) (ro_qty ro) b"
    have fs: "fs \<noteq> SUnknown" using index_ok_member [OF idx Some] by (simp add: fs_def entry_ok_def)
    have le: "depth_at fs px (book_cancel oid b) \<le> depth_at fs px b"
      using depth_at_cancel_le [OF agreesD(1,2) [OF inv]] .
    then have room1: "depth_at fs px (book_cancel oid b) + qty \<le> i64_max"
      using room fs by (cases fs) (auto simp: room_for_def)
    have e: "entry_ok ?ro"
      using False fs room1 depth_at_nonneg [OF agreesD(1) [OF cancelled], of fs px] by (simp add: entry_ok_def)
    have ins: "book_agrees R (add_to_level fs px qty
        (?b1\<lparr>ob_orders := AList.update oid ?ro (AList.delete oid (ob_orders b))\<rparr>))"
      using agrees_insert [OF cancelled e, of oid] room1 Some
      by (simp add: book_cancel_def Let_def alist_simps)
    have "book_agrees R ((add_to_level fs px qty
        (?b1\<lparr>ob_orders := AList.update oid ?ro (AList.delete oid (ob_orders b))\<rparr>))
        \<lparr>ob_orders := AList.update oid ?ro (ob_orders b)\<rparr>)"
      using idx Some e
      by (intro agrees_reorder [OF ins])
        (simp_all add: orders_at_def index_ok_update alist_sum_update_new alist_sum_update_old
          alist_sum_delete alist_simps index_ok_def [of "ob_orders b"])
    with Some False show ?thesis
      by (simp add: book_modify_def Let_def fs_def add_to_level_orders)
  qed
qed

lemma agrees_trade_known:
  assumes inv: "book_agrees R b" and known: "map_of (ob_orders b) oid = Some ro"
  shows "book_agrees R (book_trade oid sd px qty b)"
proof (cases "qty \<le> 0")
  case False
  note idx = agreesD(2) [OF inv]
  define c where "c = min qty (ro_qty ro)"
  have e: "0 < ro_qty ro" "ro_qty ro \<le> i64_max" "ro_side ro \<noteq> SUnknown"
    using index_ok_member [OF idx known] by (simp_all add: entry_ok_def)
  with False have c: "0 \<le> c" "c \<le> ro_qty ro" "c \<le> i64_max" by (auto simp: c_def)
  have w: "wrap64 (ro_qty ro - c) = ro_qty ro - c" using e c by (simp add: wrap64_sub_pos)
  let ?xs = "if ro_qty ro - c \<le> 0 then AList.delete oid (ob_orders b)
    else AList.update oid (ro\<lparr>ro_qty := ro_qty ro - c\<rparr>) (ob_orders b)"
  have "book_agrees R ((remove_from_level (ro_side ro) (ro_price_paise ro) c b)\<lparr>ob_orders := ?xs\<rparr>)"
  proof (rule agrees_take [OF inv known c(1,2)])
    show "index_ok ?xs" using idx e c by (auto simp: entry_ok_def intro!: index_ok_update index_ok_delete)
    show "alist_sum (qty_at s p) ?xs
      = orders_at s p b - (if s = ro_side ro \<and> p = ro_price_paise ro then c else 0)" for s p
      using idx known e c
      by (auto simp: orders_at_def alist_sum_delete alist_sum_update_old index_ok_def qty_at_def)
  qed
  with known False w show ?thesis
    by (simp add: book_trade_def Let_def c_def [symmetric] split: if_splits)
qed (simp add: book_trade_def inv)

lemma agrees_clear: "book_agrees R (book_clear b)"
  using R_zero
  by (simp add: book_agrees_def book_clear_def levels_ok_def lvl_ok_def index_ok_def depth_at_def
      lvl_qty_def orders_at_def)

lemma agrees_new: "book_agrees R (new_book v i)"
  using agrees_clear [of "new_book v i"] by (simp add: book_clear_def new_book_def)

end

interpretation weak: level_index_agreement "(\<le>)"
  by unfold_locales auto

interpretation exact: level_index_agreement "(=)"
  by unfold_locales auto

section \<open>Every event keeps the weak invariant\<close>

definition adds_quantity :: "book_event \<Rightarrow> bool" where
  "adds_quantity ev \<longleftrightarrow> be_event_type ev = EvAdd \<or> be_event_type ev = EvModify"

definition event_fits :: "book_event \<Rightarrow> order_book \<Rightarrow> bool" where
  "event_fits ev b \<longleftrightarrow> be_qty ev \<le> i64_max \<and>
     (adds_quantity ev \<longrightarrow> room_for (be_price_paise ev) (be_qty ev) b)"

definition stamp :: "book_event \<Rightarrow> order_book \<Rightarrow> order_book" where
  "stamp ev b = b\<lparr>ob_venue := be_venue ev, ob_instrument_id := be_instrument_id ev,
                  ob_last_update_ns := be_ts_ingest_ns ev\<rparr>"

lemma stamp_simps [simp]:
  "ob_bids (stamp ev b) = ob_bids b" "ob_asks (stamp ev b) = ob_asks b"
  "ob_orders (stamp ev b) = ob_orders b"
  by (simp_all add: stamp_def)

lemma depth_at_stamp [simp]: "depth_at sd px (stamp ev b) = depth_at sd px b"
  by (simp add: depth_at_def)

lemma book_agrees_stamp [simp]: "book_agrees R (stamp ev b) = book_agrees R b"
  by (simp add: book_agrees_def levels_ok_def orders_at_def)

lemma room_for_stamp [simp]: "room_for px qty (stamp ev b) = room_for px qty b"
  by (simp add: room_for_def)

lemma book_apply_stamp:
  "book_apply ev b = (case be_event_type ev of
       EvAdd \<Rightarrow> book_add (be_order_id ev) (be_side ev) (be_price_paise ev) (be_qty ev) (stamp ev b)
     | EvModify \<Rightarrow> book_modify (be_order_id ev) (be_side ev) (be_price_paise ev) (be_qty ev) (stamp ev b)
     | EvCancel \<Rightarrow> book_cancel (be_order_id ev) (stamp ev b)
     | EvTrade \<Rightarrow> book_trade (be_order_id ev) (be_side ev) (be_price_paise ev) (be_qty ev) (stamp ev b)
     | EvReset \<Rightarrow> book_clear (stamp ev b)
     | EvHeartbeat \<Rightarrow> stamp ev b
     | EvUnknown \<Rightarrow> stamp ev b)"
  unfolding book_apply_def stamp_def Let_def by (rule refl)

text \<open>A trade without a known order only takes quantity from a level.\<close>

lemma weak_remove_level:
  assumes "book_agrees (\<le>) b" and "qty \<le> i64_max"
  shows "book_agrees (\<le>) (remove_from_level sd px qty b)"
proof (cases "0 \<le> qty")
  case True
  have "depth_at s p (remove_from_level sd px qty b) \<le> orders_at s p b" if "s \<noteq> SUnknown" for s p
    using weak.agreesD [OF assms(1)] that True assms(2) orders_at_nonneg [of b s p]
    by (simp add: depth_at_remove_from_level) (smt (verit))
  with weak.agreesD [OF assms(1)] assms(2) show ?thesis
    by (simp add: book_agrees_def levels_ok_remove_from_level)
qed (use assms in \<open>simp add: remove_from_level_def\<close>)

lemma weak_trade:
  assumes "book_agrees (\<le>) b" and "qty \<le> i64_max"
  shows "book_agrees (\<le>) (book_trade oid sd px qty b)"
proof (cases "map_of (ob_orders b) oid")
  case None
  with assms show ?thesis by (simp add: book_trade_def weak_remove_level)
next
  case (Some ro)
  with assms(1) show ?thesis by (rule weak.agrees_trade_known)
qed

lemma book_ok_apply:
  assumes "book_ok b" and "event_fits ev b"
  shows "book_ok (book_apply ev b)"
  using assms
  by (cases "be_event_type ev")
    (simp_all add: book_ok_def event_fits_def adds_quantity_def book_apply_stamp weak.agrees_add
      weak.agrees_modify weak.agrees_cancel weak_trade weak.agrees_clear)

section \<open>Event streams whose volume fits\<close>

text \<open>An event raises no level by more than the quantity it brings.\<close>

definition volume :: "book_event \<Rightarrow> int" where
  "volume ev = (if adds_quantity ev then max 0 (be_qty ev) else 0)"

definition depth_bound :: "int \<Rightarrow> order_book \<Rightarrow> bool" where
  "depth_bound V b \<longleftrightarrow> (\<forall>sd px. depth_at sd px b \<le> V)"

lemma depth_boundD: "depth_bound V b \<Longrightarrow> depth_at sd px b \<le> V"
  by (simp add: depth_bound_def)

lemma depth_bound_remove:
  assumes "levels_ok b" and "qty \<le> i64_max" and "depth_bound V b"
  shows "depth_bound V (remove_from_level sd px qty b)"
proof (cases "0 \<le> qty")
  case True
  have "depth_at s p (remove_from_level sd px qty b) \<le> V" for s p
    using True assms depth_boundD [OF assms(3), of s p] depth_at_nonneg [OF assms(1), of s p]
    by (auto simp: depth_at_remove_from_level)
  then show ?thesis by (simp add: depth_bound_def)
qed (use assms in \<open>simp add: remove_from_level_def\<close>)

lemma depth_bound_add:
  assumes "levels_ok b" and "0 < qty" and "sd \<noteq> SUnknown" and "depth_at sd px b + qty \<le> i64_max"
    and "depth_bound V b"
  shows "depth_bound (V + qty) (add_to_level sd px qty b)"
proof -
  have "depth_at s p (add_to_level sd px qty b) \<le> V + qty" for s p
    using assms(1-4) depth_boundD [OF assms(5), of s p] by (auto simp: depth_at_add_to_level)
  then show ?thesis by (simp add: depth_bound_def)
qed

lemma depth_bound_orders [simp]: "depth_bound V (b\<lparr>ob_orders := xs\<rparr>) = depth_bound V b"
  by (simp add: depth_bound_def)

lemma depth_bound_mono: "depth_bound V b \<Longrightarrow> V \<le> W \<Longrightarrow> depth_bound W b"
  unfolding depth_bound_def by (meson order_trans)

lemma depth_bound_stamp [simp]: "depth_bound V (stamp ev b) = depth_bound V b"
  by (simp add: depth_bound_def)

lemma index_entry_qty:
  "index_ok xs \<Longrightarrow> map_of xs oid = Some ro \<Longrightarrow> 0 < ro_qty ro \<and> ro_qty ro \<le> i64_max \<and> ro_side ro \<noteq> SUnknown"
  using index_ok_member [of xs oid ro] by (simp add: entry_ok_def)

lemma depth_bound_cancel:
  "levels_ok b \<Longrightarrow> index_ok (ob_orders b) \<Longrightarrow> depth_bound V b \<Longrightarrow> depth_bound V (book_cancel oid b)"
  by (auto simp: book_cancel_def Let_def index_entry_qty intro!: depth_bound_remove split: option.splits)

lemma depth_bound_trade:
  assumes "levels_ok b" and "index_ok (ob_orders b)" and "qty \<le> i64_max" and "depth_bound V b"
  shows "depth_bound V (book_trade oid sd px qty b)"
  using assms
  by (auto simp: book_trade_def Let_def intro!: depth_bound_remove split: option.splits)

lemma depth_bound_book_add:
  assumes "book_ok b" and "room_for px qty b" and "depth_bound V b"
  shows "depth_bound (V + max 0 qty) (book_add oid sd px qty b)"
proof (cases "oid = 0 \<or> sd = SUnknown \<or> px \<le> 0 \<or> qty \<le> 0")
  case True
  with assms(3) show ?thesis by (simp add: book_add_def depth_bound_mono)
next
  case False
  note lv = weak.agreesD [OF assms(1) [unfolded book_ok_def]]
  define b1 where "b1 = (if map_of (ob_orders b) oid \<noteq> None then book_cancel oid b else b)"
  have "depth_bound V b1" using assms(3) lv by (simp add: b1_def depth_bound_cancel)
  moreover have "levels_ok b1"
    using weak.agrees_cancel [OF assms(1) [unfolded book_ok_def]] lv by (simp add: b1_def weak.agreesD)
  moreover have "depth_at sd px b1 + qty \<le> i64_max"
    using depth_at_cancel_le [OF lv(1,2), of sd px oid] assms(2) False
    by (cases sd) (auto simp: b1_def room_for_def)
  ultimately have "depth_bound (V + qty) (add_to_level sd px qty
      (b1\<lparr>ob_orders := AList.update oid \<lparr>ro_side = sd, ro_price_paise = px, ro_qty = qty\<rparr> (ob_orders b1)\<rparr>))"
    using False by (intro depth_bound_add) simp_all
  with False show ?thesis by (simp add: book_add_def Let_def b1_def)
qed

lemma depth_bound_modify:
  assumes "book_ok b" and "room_for px qty b" and "depth_bound V b"
  shows "depth_bound (V + max 0 qty) (book_modify oid sd px qty b)"
proof (cases "map_of (ob_orders b) oid")
  case None
  with depth_bound_book_add [OF assms] show ?thesis by (simp add: book_modify_def)
next
  case (Some ro)
  note lv = weak.agreesD [OF assms(1) [unfolded book_ok_def]]
  have e: "0 < ro_qty ro" "ro_qty ro \<le> i64_max" "ro_side ro \<noteq> SUnknown"
    using index_entry_qty [OF lv(2) Some] by simp_all
  let ?b1 = "remove_from_level (ro_side ro) (ro_price_paise ro) (ro_qty ro) b"
  define fs where "fs = (if sd = SUnknown then ro_side ro else sd)"
  have b1: "levels_ok ?b1" "depth_bound V ?b1"
    using lv e assms(3) by (simp_all add: levels_ok_remove_from_level depth_bound_remove)
  show ?thesis
  proof (cases "qty \<le> 0")
    case True
    with Some b1 show ?thesis by (simp add: book_modify_def Let_def depth_bound_mono)
  next
    case False
    have "depth_at fs px ?b1 \<le> depth_at fs px b"
      using lv e depth_at_nonneg [OF lv(1)] by (simp add: depth_at_remove_from_level)
    then have "depth_at fs px ?b1 + qty \<le> i64_max"
      using assms(2) e(3) by (cases fs) (auto simp: room_for_def fs_def split: if_splits)
    then have "depth_bound (V + qty) (add_to_level fs px qty (?b1\<lparr>ob_orders := AList.update oid
        \<lparr>ro_side = fs, ro_price_paise = px, ro_qty = qty\<rparr> (ob_orders b)\<rparr>))"
      using False b1 e(3) by (intro depth_bound_add) (simp_all add: fs_def)
    with Some False show ?thesis by (simp add: book_modify_def Let_def fs_def)
  qed
qed

lemma book_ok_stamp [simp]: "book_ok (stamp ev b) = book_ok b"
  by (simp add: book_ok_def)

lemma depth_bound_apply:
  assumes "book_ok b" and "event_fits ev b" and "depth_bound V b"
  shows "depth_bound (V + volume ev) (book_apply ev b)"
proof -
  note lv = weak.agreesD [OF assms(1) [unfolded book_ok_def]]
  have lv': "levels_ok (stamp ev b)" "index_ok (ob_orders (stamp ev b))" "0 \<le> V"
    using lv assms(3) depth_boundD [OF assms(3), of SUnknown 0] by (simp_all add: levels_ok_def)
  show ?thesis
    using assms lv'
    by (cases "be_event_type ev")
      (simp_all add: book_apply_stamp volume_def adds_quantity_def event_fits_def depth_bound_book_add
        depth_bound_modify depth_bound_cancel depth_bound_trade, simp_all add: depth_bound_def book_clear_def depth_at_def lvl_qty_def)
qed

lemma event_fits_bound:
  assumes "book_ok b" and "depth_bound V b" and "0 \<le> V" and "V + volume ev \<le> i64_max" and "be_qty ev \<le> i64_max"
  shows "event_fits ev b"
  using assms depth_boundD [OF assms(2)] weak.agreesD(1) [OF assms(1) [unfolded book_ok_def]]
  by (auto simp: event_fits_def room_for_def volume_def split: if_splits)
    (smt (verit) depth_at_max)+

definition apply_events :: "book_event list \<Rightarrow> order_book \<Rightarrow> order_book" where
  "apply_events evs b = fold book_apply evs b"

definition stream_fits :: "book_event list \<Rightarrow> bool" where
  "stream_fits evs \<longleftrightarrow> (\<Sum>ev\<leftarrow>evs. volume ev) \<le> i64_max \<and> list_all (\<lambda>ev. be_qty ev \<le> i64_max) evs"

lemma apply_events_ok:
  assumes "book_ok b" and "depth_bound V b" and "0 \<le> V"
    and "V + (\<Sum>ev\<leftarrow>evs. volume ev) \<le> i64_max" and "list_all (\<lambda>ev. be_qty ev \<le> i64_max) evs"
  shows "book_ok (fold book_apply evs b)"
  using assms
proof (induction evs arbitrary: b V)
  case (Cons ev evs)
  have nonneg: "0 \<le> (\<Sum>ev\<leftarrow>evs. volume ev)" "0 \<le> volume ev"
    by (auto intro!: sum_list_nonneg simp: volume_def)
  have fits: "event_fits ev b"
    using Cons.prems nonneg by (intro event_fits_bound [of b V]) simp_all
  show ?case
    using Cons.IH [of "book_apply ev b" "V + volume ev"] Cons.prems nonneg fits
    by (simp add: book_ok_apply depth_bound_apply)
qed simp

lemma new_book_ok: "book_ok (new_book v i)" "depth_bound 0 (new_book v i)"
  using weak.agrees_new [of v i]
  by (simp_all add: book_ok_def depth_bound_def depth_at_def new_book_def lvl_qty_def)

end
