(* ===== verification/Book_Spec.thy ===== *)
theory Book_Spec
  imports Book_Invariant
begin

text \<open>
  The specification of the order book and its refinement. Abstractly a book is the finite
  map from order ids to resting orders; a level is a sum over that map and the best quote a
  maximum or minimum over it. The concrete book, with its incrementally maintained levels,
  implements this for every event stream that fits 64-bit volume and whose trades name
  their orders. The self-check \<open>invariant_ok\<close> accepts exactly such books.
\<close>

section \<open>Specification\<close>

type_synonym spec_book = "u64 \<rightharpoonup> resting_order"

fun spec_add :: "u64 \<Rightarrow> side \<Rightarrow> i64 \<Rightarrow> i64 \<Rightarrow> spec_book \<Rightarrow> spec_book" where
  "spec_add oid sd px qty m =
     (if oid = 0 \<or> sd = SUnknown \<or> px \<le> 0 \<or> qty \<le> 0 then m
      else m(oid \<mapsto> \<lparr>ro_side = sd, ro_price_paise = px, ro_qty = qty\<rparr>))"

definition spec_apply :: "book_event \<Rightarrow> spec_book \<Rightarrow> spec_book" where
  "spec_apply ev m =
     (let oid = be_order_id ev; sd = be_side ev; px = be_price_paise ev; qty = be_qty ev in
      case be_event_type ev of
        EvAdd \<Rightarrow> spec_add oid sd px qty m
      | EvModify \<Rightarrow> (case m oid of
            None \<Rightarrow> spec_add oid sd px qty m
          | Some ro \<Rightarrow> if qty \<le> 0 then m(oid := None)
                      else m(oid \<mapsto> \<lparr>ro_side = (if sd = SUnknown then ro_side ro else sd),
                                     ro_price_paise = px, ro_qty = qty\<rparr>))
      | EvCancel \<Rightarrow> m(oid := None)
      | EvTrade \<Rightarrow> (case m oid of
            None \<Rightarrow> m
          | Some ro \<Rightarrow> if qty \<le> 0 then m
                      else if ro_qty ro \<le> qty then m(oid := None)
                      else m(oid \<mapsto> ro\<lparr>ro_qty := ro_qty ro - qty\<rparr>))
      | EvReset \<Rightarrow> Map.empty
      | _ \<Rightarrow> m)"

definition spec_depth :: "side \<Rightarrow> i64 \<Rightarrow> spec_book \<Rightarrow> int" where
  "spec_depth sd px m = (\<Sum>oid \<in> dom m. qty_at sd px (the (m oid)))"

definition spec_prices :: "side \<Rightarrow> spec_book \<Rightarrow> i64 set" where
  "spec_prices sd m = {ro_price_paise ro | ro. ro \<in> ran m \<and> ro_side ro = sd}"

text \<open>
  The event describes the book it is applied to: a trade names a resting order, or prints
  nothing that the book could remove; a modification of a resting order carries a price.
\<close>

definition event_named :: "book_event \<Rightarrow> spec_book \<Rightarrow> bool" where
  "event_named ev m \<longleftrightarrow>
     (be_event_type ev = EvTrade \<longrightarrow>
        be_qty ev \<le> 0 \<or> m (be_order_id ev) \<noteq> None \<or> be_side ev = SUnknown \<or> be_price_paise ev \<le> 0) \<and>
     (be_event_type ev = EvModify \<longrightarrow>
        be_qty ev \<le> 0 \<or> m (be_order_id ev) = None \<or> 0 < be_price_paise ev)"

fun stream_named :: "book_event list \<Rightarrow> spec_book \<Rightarrow> bool" where
  "stream_named [] m = True"
| "stream_named (ev # evs) m = (event_named ev m \<and> stream_named evs (spec_apply ev m))"

section \<open>The index refines the specification\<close>

lemma map_of_orders_cancel: "map_of (ob_orders (book_cancel oid b)) = (map_of (ob_orders b))(oid := None)"
  by (auto simp: book_cancel_def Let_def alist_simps fun_eq_iff split: option.splits)

lemma map_of_orders_add:
  "map_of (ob_orders (book_add oid sd px qty b)) = spec_add oid sd px qty (map_of (ob_orders b))"
  by (auto simp: book_add_def Let_def alist_simps fun_eq_iff map_of_orders_cancel)

lemma map_of_orders_modify:
  "be_event_type ev = EvModify \<Longrightarrow>
   map_of (ob_orders (book_modify (be_order_id ev) (be_side ev) (be_price_paise ev) (be_qty ev) b))
   = spec_apply ev (map_of (ob_orders b))"
  by (auto simp: book_modify_def spec_apply_def Let_def alist_simps fun_eq_iff map_of_orders_add
      split: option.splits)

lemma map_of_orders_trade:
  assumes "be_event_type ev = EvTrade" and "index_ok (ob_orders b)"
  shows "map_of (ob_orders (book_trade (be_order_id ev) (be_side ev) (be_price_paise ev) (be_qty ev) b))
    = spec_apply ev (map_of (ob_orders b))"
proof (cases "map_of (ob_orders b) (be_order_id ev)")
  case (Some ro)
  have "0 < ro_qty ro" "ro_qty ro \<le> i64_max" using index_entry_qty [OF assms(2) Some] by simp_all
  with Some assms show ?thesis
    by (auto simp: book_trade_def spec_apply_def Let_def alist_simps fun_eq_iff wrap64_sub_pos min_def)
qed (use assms in \<open>simp add: book_trade_def spec_apply_def Let_def\<close>)

lemma index_refines:
  assumes "index_ok (ob_orders b)"
  shows "map_of (ob_orders (book_apply ev b)) = spec_apply ev (map_of (ob_orders b))"
  using assms map_of_orders_modify [of ev "stamp ev b"] map_of_orders_trade [of ev "stamp ev b"]
  by (cases "be_event_type ev")
    (simp_all add: book_apply_stamp map_of_orders_add map_of_orders_cancel spec_apply_def Let_def book_clear_def)

lemma spec_depth_orders_at:
  assumes "index_ok (ob_orders b)"
  shows "spec_depth sd px (map_of (ob_orders b)) = orders_at sd px b"
proof -
  let ?xs = "ob_orders b"
  have d: "distinct (map fst ?xs)" using assms by (simp add: index_ok_def)
  have "spec_depth sd px (map_of ?xs) = (\<Sum>oid \<in> set (map fst ?xs). qty_at sd px (the (map_of ?xs oid)))"
    by (simp add: spec_depth_def dom_map_of_conv_image_fst)
  also have "\<dots> = (\<Sum>oid\<leftarrow>map fst ?xs. qty_at sd px (the (map_of ?xs oid)))"
    using d by (rule sum_list_distinct_conv_sum_set [symmetric])
  also have "\<dots> = orders_at sd px b"
    unfolding orders_at_def alist_sum_def using d
    by (auto intro!: arg_cong [where f = sum_list] map_cong)
  finally show ?thesis .
qed

section \<open>The exact invariant\<close>

definition prices_pos :: "spec_book \<Rightarrow> bool" where
  "prices_pos m \<longleftrightarrow> (\<forall>oid ro. m oid = Some ro \<longrightarrow> 0 < ro_price_paise ro)"

lemma book_inv_alt: "book_inv b \<longleftrightarrow> book_agrees (=) b \<and> prices_pos (map_of (ob_orders b))"
  by (simp add: book_inv_def prices_pos_def)

lemma prices_pos_apply: "prices_pos m \<Longrightarrow> event_named ev m \<Longrightarrow> prices_pos (spec_apply ev m)"
  by (cases "be_event_type ev")
    (auto simp: prices_pos_def spec_apply_def Let_def event_named_def split: option.splits if_splits)

lemma exact_apply:
  assumes "book_agrees (=) b" and "event_fits ev b" and "event_named ev (map_of (ob_orders b))"
  shows "book_agrees (=) (book_apply ev b)"
proof (cases "be_event_type ev = EvTrade")
  case True
  have "book_agrees (=) (book_trade (be_order_id ev) (be_side ev) (be_price_paise ev) (be_qty ev) (stamp ev b))"
  proof (cases "map_of (ob_orders b) (be_order_id ev)")
    case None
    with True assms(3) have "be_qty ev \<le> 0 \<or> be_side ev = SUnknown \<or> be_price_paise ev \<le> 0"
      by (simp add: event_named_def)
    with None assms(1) show ?thesis by (auto simp: book_trade_def)
  qed (use assms(1) in \<open>auto intro: exact.agrees_trade_known\<close>)
  with True show ?thesis by (simp add: book_apply_stamp)
next
  case False
  with assms(1,2) show ?thesis
    by (cases "be_event_type ev")
      (simp_all add: event_fits_def adds_quantity_def book_apply_stamp exact.agrees_add
        exact.agrees_modify exact.agrees_cancel exact.agrees_clear)
qed

lemma book_inv_apply:
  assumes "book_inv b" and "event_fits ev b" and "event_named ev (map_of (ob_orders b))"
  shows "book_inv (book_apply ev b)"
  using assms exact.agreesD(2) index_refines prices_pos_apply
  by (simp add: book_inv_alt exact_apply)

lemma book_inv_ok: "book_inv b \<Longrightarrow> book_ok b"
  by (auto simp: book_inv_def book_ok_def book_agrees_def)

lemma new_book_inv: "book_inv (new_book v i)"
  using exact.agrees_new [of v i] by (simp add: book_inv_def new_book_def)

lemma apply_events_inv:
  assumes "book_inv b" and "depth_bound V b" and "0 \<le> V"
    and "V + (\<Sum>ev\<leftarrow>evs. volume ev) \<le> i64_max" and "list_all (\<lambda>ev. be_qty ev \<le> i64_max) evs"
    and "stream_named evs (map_of (ob_orders b))"
  shows "book_inv (fold book_apply evs b) \<and>
    map_of (ob_orders (fold book_apply evs b)) = fold spec_apply evs (map_of (ob_orders b))"
  using assms
proof (induction evs arbitrary: b V)
  case (Cons ev evs)
  have nonneg: "0 \<le> (\<Sum>ev\<leftarrow>evs. volume ev)" "0 \<le> volume ev"
    by (auto intro!: sum_list_nonneg simp: volume_def)
  have fits: "event_fits ev b"
    using Cons.prems nonneg by (intro event_fits_bound [of b V]) (simp_all add: book_inv_ok)
  have inv: "book_inv (book_apply ev b)" using Cons.prems fits by (intro book_inv_apply) simp_all
  have idx: "index_ok (ob_orders b)" using Cons.prems(1) by (simp add: book_inv_def book_agrees_def)
  note ref = index_refines [OF idx, of ev]
  show ?case
    using Cons.IH [of "book_apply ev b" "V + volume ev"] Cons.prems nonneg fits inv ref
    by (simp add: book_inv_ok depth_bound_apply)
qed simp

section \<open>Best quotes\<close>

definition spec_best_bid :: "spec_book \<Rightarrow> i64 \<times> i64" where
  "spec_best_bid m = (if spec_prices Buy m = {} then (0, 0)
     else (Max (spec_prices Buy m), spec_depth Buy (Max (spec_prices Buy m)) m))"

definition spec_best_ask :: "spec_book \<Rightarrow> i64 \<times> i64" where
  "spec_best_ask m = (if spec_prices Sell m = {} then (0, 0)
     else (Min (spec_prices Sell m), spec_depth Sell (Min (spec_prices Sell m)) m))"

lemma lvl_ok_map_of: "lvl_ok lt xs \<Longrightarrow> 0 < q \<Longrightarrow> map_of xs px = Some q \<longleftrightarrow> lvl_qty xs px = q"
  by (auto simp: lvl_qty_def split: option.splits)

lemma lvl_ok_dom: "lvl_ok lt xs \<Longrightarrow> px \<in> fst ` set xs \<longleftrightarrow> 0 < lvl_qty xs px"
  by (auto simp: lvl_qty_def lvl_ok_def dom_map_of_conv_image_fst [symmetric] domIff split: option.splits)

text \<open>A price carries quantity exactly when a resting order of the side sits at it.\<close>

lemma orders_at_pos_iff:
  assumes "index_ok (ob_orders b)"
  shows "0 < orders_at sd px b \<longleftrightarrow> px \<in> spec_prices sd (map_of (ob_orders b))"
proof
  assume "px \<in> spec_prices sd (map_of (ob_orders b))"
  then obtain oid ro where ro: "map_of (ob_orders b) oid = Some ro" "ro_side ro = sd" "ro_price_paise ro = px"
    by (auto simp: spec_prices_def ran_def)
  with assms show "0 < orders_at sd px b"
    using orders_at_ge [OF assms ro(1), of sd px] index_entry_qty [OF assms ro(1)] by (simp add: qty_at_def)
next
  assume pos: "0 < orders_at sd px b"
  show "px \<in> spec_prices sd (map_of (ob_orders b))"
  proof (rule ccontr)
    assume none: "px \<notin> spec_prices sd (map_of (ob_orders b))"
    have "qty_at sd px ro = 0" if "(oid, ro) \<in> set (ob_orders b)" for oid ro
    proof -
      have "map_of (ob_orders b) oid = Some ro" using that assms by (simp add: index_ok_def)
      with none show ?thesis by (auto simp: spec_prices_def qty_at_def ran_def)
    qed
    then have "orders_at sd px b = alist_sum (\<lambda>_. 0) (ob_orders b)"
      unfolding orders_at_def by (rule alist_sum_cong)
    with pos show False by simp
  qed
qed

lemma spec_prices_levels:
  assumes "book_inv b"
  shows "spec_prices Buy (map_of (ob_orders b)) = fst ` set (ob_bids b)"
    and "spec_prices Sell (map_of (ob_orders b)) = fst ` set (ob_asks b)"
proof -
  note ag = exact.agreesD [OF conjunct1 [OF assms [unfolded book_inv_def]]]
  have lv: "lvl_ok (>) (ob_bids b)" "lvl_ok (<) (ob_asks b)" using ag(1) by (simp_all add: levels_ok_def)
  show "spec_prices Buy (map_of (ob_orders b)) = fst ` set (ob_bids b)"
    using orders_at_pos_iff [OF ag(2), of Buy] ag(3) [of Buy] lvl_ok_dom [OF lv(1)]
    by (auto simp: depth_at_def simp del: set_map)
  show "spec_prices Sell (map_of (ob_orders b)) = fst ` set (ob_asks b)"
    using orders_at_pos_iff [OF ag(2), of Sell] ag(3) [of Sell] lvl_ok_dom [OF lv(2)]
    by (auto simp: depth_at_def simp del: set_map)
qed

lemma book_inv_depth:
  assumes "book_inv b" and "sd \<noteq> SUnknown"
  shows "depth_at sd px b = spec_depth sd px (map_of (ob_orders b))"
proof -
  note ag = exact.agreesD [OF conjunct1 [OF assms(1) [unfolded book_inv_def]]]
  show ?thesis using ag(3) [OF assms(2), of px] spec_depth_orders_at [OF ag(2), of sd px] by simp
qed

lemma quote_refines:
  assumes "book_inv b"
  shows "(q_bid_px_paise (book_best_quote now b), q_bid_qty (book_best_quote now b))
      = spec_best_bid (map_of (ob_orders b))"
    and "(q_ask_px_paise (book_best_quote now b), q_ask_qty (book_best_quote now b))
      = spec_best_ask (map_of (ob_orders b))"
proof -
  note ag = exact.agreesD [OF conjunct1 [OF assms [unfolded book_inv_def]]]
  have lv: "sorted_wrt (>) (map fst (ob_bids b))" "sorted_wrt (<) (map fst (ob_asks b))"
    using ag(1) by (simp_all add: levels_ok_def lvl_ok_def)
  show "(q_bid_px_paise (book_best_quote now b), q_bid_qty (book_best_quote now b))
      = spec_best_bid (map_of (ob_orders b))"
  proof (cases "ob_bids b")
    case Nil
    then show ?thesis
      using spec_prices_levels(1) [OF assms]
      by (simp add: book_best_quote_def Let_def spec_best_bid_def empty_quote_def split: list.split)
  next
    case (Cons pq rest)
    have "Max (spec_prices Buy (map_of (ob_orders b))) = fst pq"
      unfolding spec_prices_levels(1) [OF assms] using lv(1) Cons by (intro Max_eqI) auto
    then show ?thesis
      using spec_prices_levels(1) [OF assms] book_inv_depth [OF assms, of Buy "fst pq"] Cons
      by (cases pq) (simp add: book_best_quote_def Let_def spec_best_bid_def depth_at_def lvl_qty_def
          split: list.split)
  qed
  show "(q_ask_px_paise (book_best_quote now b), q_ask_qty (book_best_quote now b))
      = spec_best_ask (map_of (ob_orders b))"
  proof (cases "ob_asks b")
    case Nil
    then show ?thesis
      using spec_prices_levels(2) [OF assms]
      by (simp add: book_best_quote_def Let_def spec_best_ask_def empty_quote_def split: list.split)
  next
    case (Cons pq rest)
    have "Min (spec_prices Sell (map_of (ob_orders b))) = fst pq"
      unfolding spec_prices_levels(2) [OF assms] using lv(2) Cons by (intro Min_eqI) auto
    then show ?thesis
      using spec_prices_levels(2) [OF assms] book_inv_depth [OF assms, of Sell "fst pq"] Cons
      by (cases pq) (simp add: book_best_quote_def Let_def spec_best_ask_def depth_at_def lvl_qty_def
          split: list.split)
  qed
qed

section \<open>What the self-check sees\<close>

lemma index_sums_ok:
  assumes "list_all (\<lambda>(oid, ro). entry_ok ro \<and> 0 < ro_price_paise ro) xs"
    and "lvl_ok (<) bs" and "lvl_ok (<) as"
    and "\<And>px. lvl_qty bs px + alist_sum (qty_at Buy px) xs \<le> i64_max"
    and "\<And>px. lvl_qty as px + alist_sum (qty_at Sell px) xs \<le> i64_max"
  shows "\<exists>bs' as'. index_sums xs bs as = Some (bs', as') \<and> lvl_ok (<) bs' \<and> lvl_ok (<) as' \<and>
    (\<forall>px. lvl_qty bs' px = lvl_qty bs px + alist_sum (qty_at Buy px) xs) \<and>
    (\<forall>px. lvl_qty as' px = lvl_qty as px + alist_sum (qty_at Sell px) xs)"
  using assms
proof (induction xs arbitrary: bs as)
  case (Cons p xs)
  obtain oid ro where p: "p = (oid, ro)" by force
  let ?px = "ro_price_paise ro" and ?q = "ro_qty ro"
  have e: "0 < ?q" "0 < ?px" "ro_side ro \<noteq> SUnknown" and
    rest: "list_all (\<lambda>(oid, ro). entry_ok ro \<and> 0 < ro_price_paise ro) xs"
    using Cons.prems(1) p by (auto simp: entry_ok_def)
  have nn: "0 \<le> alist_sum (qty_at s px) xs" for s px
    using rest by (intro alist_sum_nonneg) (auto simp: list_all_iff intro: qty_at_nonneg)
  have hd: "qty_at s px ro = (if ro_side ro = s \<and> ?px = px then ?q else 0)" for s px
    by (simp add: qty_at_def)
  consider (B) "ro_side ro = Buy" | (S) "ro_side ro = Sell" using e(3) by (cases "ro_side ro") auto
  then show ?case
  proof cases
    case B
    have room: "lvl_qty bs ?px + ?q \<le> i64_max"
      using Cons.prems(4) [of ?px] nn [of Buy ?px] B by (simp add: p hd)
    note bs1 = ask.add_ok [OF Cons.prems(2) e(1) room]
    have eqs: "lvl_qty (lvl_add (<) ?px ?q bs) px + alist_sum (qty_at Buy px) xs
        = lvl_qty bs px + alist_sum (qty_at Buy px) (p # xs)"
      "alist_sum (qty_at Sell px) xs = alist_sum (qty_at Sell px) (p # xs)" for px
      using B by (auto simp: bs1(2) p hd)
    from Cons.IH [OF rest bs1(1) Cons.prems(3), unfolded eqs, OF Cons.prems(4,5)]
    show ?thesis using B e by (simp add: p)
  next
    case S
    have room: "lvl_qty as ?px + ?q \<le> i64_max"
      using Cons.prems(5) [of ?px] nn [of Sell ?px] S by (simp add: p hd)
    note as1 = ask.add_ok [OF Cons.prems(3) e(1) room]
    have eqs: "lvl_qty (lvl_add (<) ?px ?q as) px + alist_sum (qty_at Sell px) xs
        = lvl_qty as px + alist_sum (qty_at Sell px) (p # xs)"
      "alist_sum (qty_at Buy px) xs = alist_sum (qty_at Buy px) (p # xs)" for px
      using S by (auto simp: as1(2) p hd)
    from Cons.IH [OF rest Cons.prems(2) as1(1), unfolded eqs, OF Cons.prems(4,5)]
    show ?thesis using S e by (simp add: p)
  qed
qed simp

text \<open>Every level of the list passes the comparison with the sums, or has no quantity.\<close>

lemma level_check_iff:
  assumes ok: "lvl_ok lt xs" and "distinct (map fst xs)" and sums: "lvl_ok (<) sums"
    and f: "\<And>px. lvl_qty sums px = f px"
  shows "list_ex (\<lambda>(px, q). map_of sums px \<noteq> Some q) xs \<longleftrightarrow>
    (\<exists>px. lvl_qty xs px \<noteq> 0 \<and> lvl_qty xs px \<noteq> f px)"
proof -
  have pos: "0 < q" if "map_of xs px = Some q" for px q
    using ok that by (simp add: lvl_ok_def)
  have mem: "(px, q) \<in> set xs \<longleftrightarrow> 0 < q \<and> lvl_qty xs px = q" for px q
    unfolding map_of_eq_Some_iff [OF assms(2), symmetric] using pos lvl_ok_map_of [OF ok] by blast
  have nz: "lvl_qty xs px \<noteq> 0 \<longleftrightarrow> 0 < lvl_qty xs px" for px
    using pos by (auto simp: lvl_qty_def split: option.splits)
  have "list_ex (\<lambda>(px, q). map_of sums px \<noteq> Some q) xs \<longleftrightarrow>
      (\<exists>px q. (px, q) \<in> set xs \<and> map_of sums px \<noteq> Some q)"
    by (auto simp: list_ex_iff)
  also have "\<dots> \<longleftrightarrow> (\<exists>px. 0 < lvl_qty xs px \<and> f px \<noteq> lvl_qty xs px)"
  proof -
    have "map_of sums px \<noteq> Some (lvl_qty xs px) \<longleftrightarrow> f px \<noteq> lvl_qty xs px" if "0 < lvl_qty xs px" for px
      using lvl_ok_map_of [OF sums that] f by simp
    then show ?thesis unfolding mem by blast
  qed
  finally show ?thesis by (simp only: nz) metis
qed

text \<open>The index total of every price fits, so the sums the check builds do not overflow.\<close>

definition totals_fit :: "order_book \<Rightarrow> bool" where
  "totals_fit b \<longleftrightarrow> (\<forall>sd px. orders_at sd px b \<le> i64_max)"

lemma self_check_iff:
  assumes "book_ok b" and "prices_pos (map_of (ob_orders b))" and "totals_fit b"
    and "list_all (\<lambda>(px, q). 0 < px) (ob_bids b)" and "list_all (\<lambda>(px, q). 0 < px) (ob_asks b)"
  shows "book_invariant_ok b =
    (if \<exists>px. depth_at Buy px b \<noteq> 0 \<and> depth_at Buy px b \<noteq> orders_at Buy px b
     then (False, ''bid level/index mismatch'')
     else if \<exists>px. depth_at Sell px b \<noteq> 0 \<and> depth_at Sell px b \<noteq> orders_at Sell px b
     then (False, ''ask level/index mismatch'')
     else (True, ''OK''))"
proof -
  note ag = weak.agreesD [OF assms(1) [unfolded book_ok_def]]
  have lv: "lvl_ok (>) (ob_bids b)" "lvl_ok (<) (ob_asks b)" using ag(1) by (simp_all add: levels_ok_def)
  have dist: "distinct (map fst (ob_bids b))" "distinct (map fst (ob_asks b))"
    using lv by (auto simp: lvl_ok_def intro: bid.sorted_distinct ask.sorted_distinct)
  have good: "\<not> list_ex (\<lambda>(px, q). px \<le> 0 \<or> q \<le> 0) xs"
    if "lvl_ok lt xs" "distinct (map fst xs)" "list_all (\<lambda>(px, q). 0 < px) xs" for lt xs
    using that by (fastforce simp: list_ex_iff list_all_iff lvl_ok_def map_of_eq_Some_iff)
  have entries: "list_all (\<lambda>(oid, ro). entry_ok ro \<and> 0 < ro_price_paise ro) (ob_orders b)"
    using ag(2) assms(2) by (auto simp: list_all_iff index_ok_def prices_pos_def)
  obtain bs as where sums: "index_sums (ob_orders b) [] [] = Some (bs, as)"
    "lvl_ok (<) bs" "lvl_ok (<) as"
    "\<And>px. lvl_qty bs px = orders_at Buy px b" "\<And>px. lvl_qty as px = orders_at Sell px b"
    using index_sums_ok [OF entries, of "[]" "[]"] assms(3)
    by (auto simp: lvl_qty_def lvl_ok_def orders_at_def totals_fit_def)
  have "list_ex (\<lambda>(px, q). map_of bs px \<noteq> Some q) (ob_bids b) \<longleftrightarrow>
      (\<exists>px. depth_at Buy px b \<noteq> 0 \<and> depth_at Buy px b \<noteq> orders_at Buy px b)"
    using level_check_iff [OF lv(1) dist(1) sums(2), of "\<lambda>px. orders_at Buy px b"] sums(4)
    by (simp add: depth_at_def)
  moreover have "list_ex (\<lambda>(px, q). map_of as px \<noteq> Some q) (ob_asks b) \<longleftrightarrow>
      (\<exists>px. depth_at Sell px b \<noteq> 0 \<and> depth_at Sell px b \<noteq> orders_at Sell px b)"
    using level_check_iff [OF lv(2) dist(2) sums(3), of "\<lambda>px. orders_at Sell px b"] sums(5)
    by (simp add: depth_at_def)
  ultimately show ?thesis
    using good [OF lv(1) dist(1) assms(4)] good [OF lv(2) dist(2) assms(5)] sums(1)
    by (simp add: book_invariant_ok_def)
qed

lemma book_inv_level_prices:
  assumes "book_inv b"
  shows "list_all (\<lambda>(px, q). 0 < px) (ob_bids b)" and "list_all (\<lambda>(px, q). 0 < px) (ob_asks b)"
proof -
  have "0 < px" if "px \<in> spec_prices sd (map_of (ob_orders b))" for px sd
    using that assms by (auto simp: spec_prices_def book_inv_def ran_def)
  with spec_prices_levels [OF assms] show "list_all (\<lambda>(px, q). 0 < px) (ob_bids b)"
    and "list_all (\<lambda>(px, q). 0 < px) (ob_asks b)"
    by (auto simp: list_all_iff) (metis fst_conv image_eqI)+
qed

lemma book_inv_totals_fit: "book_inv b \<Longrightarrow> totals_fit b"
  unfolding totals_fit_def
proof (intro allI)
  fix sd px
  assume inv: "book_inv b"
  note ag = exact.agreesD [OF conjunct1 [OF inv [unfolded book_inv_def]]]
  show "orders_at sd px b \<le> i64_max"
  proof (cases "sd = SUnknown")
    case True
    have "px \<notin> spec_prices SUnknown (map_of (ob_orders b))"
      using index_entry_qty [OF ag(2)] by (auto simp: spec_prices_def ran_def)
    then have "orders_at SUnknown px b \<le> 0" using orders_at_pos_iff [OF ag(2), of SUnknown px] by simp
    with True show ?thesis by simp
  next
    case False
    with ag(3) [OF False, of px] depth_at_max [OF ag(1), of sd px] show ?thesis by simp
  qed
qed

lemma self_check_passes: "book_inv b \<Longrightarrow> book_invariant_ok b = (True, ''OK'')"
  using self_check_iff [OF book_inv_ok] book_inv_totals_fit book_inv_level_prices
    exact.agreesD(3) [of b Buy] exact.agreesD(3) [of b Sell]
  by (auto simp: book_inv_alt)

section \<open>Properties\<close>

text \<open>A sample event and stream: two bids, an ask, a partial trade and a modification.\<close>

definition sample_event :: "event_type \<Rightarrow> u64 \<Rightarrow> side \<Rightarrow> i64 \<Rightarrow> i64 \<Rightarrow> book_event" where
  "sample_event t oid sd px qty =
     \<lparr>be_ts_exchange_ns = 1000000000, be_ts_ingest_ns = 1000000100, be_venue = NSE, be_instrument_id = 1,
      be_native_token = 1594, be_event_type = t, be_order_id = oid, be_side = sd, be_price_paise = px,
      be_qty = qty, be_native_payload = []\<rparr>"

definition sample_stream :: "book_event list" where
  "sample_stream = [sample_event EvAdd 1 Buy 100 10, sample_event EvAdd 2 Buy 101 5,
     sample_event EvAdd 3 Sell 105 20, sample_event EvTrade 3 Sell 105 8,
     sample_event EvModify 1 Buy 101 15]"

text \<open>
  C25: the book survives every event stream. For any sequence of events - adds under a used
  id, modifications, cancels and trades of unknown orders, resets - whose added volume fits
  64 bits, the rebuilt book is well formed: both level maps sorted best price first, every
  level with a positive quantity, every indexed order with a side and a positive quantity,
  and no level showing more quantity than the resting orders behind it.
\<close>

theorem book_stream_ok:
  assumes "stream_fits evs"
  shows "book_ok (apply_events evs (new_book v i))"
  using assms apply_events_ok [OF new_book_ok] by (simp add: apply_events_def stream_fits_def)

theorem book_stream_ok_witness: "book_ok (apply_events sample_stream (new_book NSE 1))"
  by (rule book_stream_ok) code_simp

text \<open>
  C1: the incrementally maintained book refines its specification. After any event stream
  whose volume fits and whose trades and modifications name what they change, the depth at
  every price is the sum of the quantities of the live orders of that side and price, and
  the best quote is the highest bid and lowest ask over the live orders with their depth.
\<close>

theorem book_replay_refines:
  fixes v :: venue and i :: u32
  assumes "stream_fits evs" and "stream_named evs Map.empty" and "sd \<noteq> SUnknown"
  defines "b \<equiv> apply_events evs (new_book v i)" and "m \<equiv> fold spec_apply evs Map.empty"
  shows "map_of (ob_orders b) = m \<and> depth_at sd px b = spec_depth sd px m \<and>
    (q_bid_px_paise (book_best_quote now b), q_bid_qty (book_best_quote now b)) = spec_best_bid m \<and>
    (q_ask_px_paise (book_best_quote now b), q_ask_qty (book_best_quote now b)) = spec_best_ask m"
proof -
  have "book_inv b \<and> map_of (ob_orders b) = m"
    using assms(1,2) apply_events_inv [OF new_book_inv new_book_ok(2), of evs v i]
    by (simp add: b_def m_def apply_events_def stream_fits_def new_book_def)
  then show ?thesis
    using book_inv_depth [of b sd px] quote_refines [of b now] assms(3) by simp
qed

theorem book_replay_refines_witness:
  "depth_at Buy 101 (apply_events sample_stream (new_book NSE 1))
   = spec_depth Buy 101 (fold spec_apply sample_stream Map.empty) \<and>
   depth_at Buy 101 (apply_events sample_stream (new_book NSE 1)) = 20"
proof
  have "stream_fits sample_stream" by code_simp
  moreover have "stream_named sample_stream Map.empty"
    by (simp add: sample_stream_def sample_event_def event_named_def spec_apply_def)
  ultimately show "depth_at Buy 101 (apply_events sample_stream (new_book NSE 1))
      = spec_depth Buy 101 (fold spec_apply sample_stream Map.empty)"
    using book_replay_refines [of sample_stream Buy NSE 1 101 0] by simp
  show "depth_at Buy 101 (apply_events sample_stream (new_book NSE 1)) = 20" by code_simp
qed



text \<open>
  A modification may install a non-positive price: \<open>modify\<close> of a resting order checks
  the new quantity but, unlike \<open>add\<close>, not the new price: with a price of zero or less the
  book gains a level that its own self-check rejects.
\<close>

lemma modify_accepts_bad_price:
  assumes "book_ok b" and "map_of (ob_orders b) oid = Some ro" and "px \<le> 0" and "0 < qty"
    and "room_for px qty b"
  shows "fst (book_invariant_ok (book_modify oid sd px qty b)) = False"
proof -
  let ?b = "book_modify oid sd px qty b"
  define fs where "fs = (if sd = SUnknown then ro_side ro else sd)"
  have "\<exists>q. (px, q) \<in> set (if fs = Buy then ob_bids ?b else ob_asks ?b)"
  proof -
    have "px \<in> fst ` set (lvl_add lt px qty xs)" for lt xs
    proof -
      have "px \<in> fst ` set (lvl_put lt px q ys)" for q ys
        by (induction lt px q ys rule: lvl_put.induct) auto
      then show ?thesis by (simp add: lvl_add_def)
    qed
    then show ?thesis
      using assms(2-4) by (fastforce simp: book_modify_def Let_def fs_def add_to_level_def)
  qed
  then show ?thesis
    using assms(3) by (auto simp: book_invariant_ok_def list_ex_iff split: if_splits)
qed

lemma modify_accepts_bad_price_witness:
  "fst (book_invariant_ok (book_modify 1 Sell 0 7 (apply_events sample_stream (new_book NSE 1)))) = False"
proof -
  let ?b = "apply_events sample_stream (new_book NSE 1)"
  have "book_ok ?b" using apply_events_ok [OF new_book_ok, of sample_stream NSE 1]
    by (simp add: apply_events_def sample_stream_def sample_event_def volume_def adds_quantity_def)
  moreover have "map_of (ob_orders ?b) 1 = Some \<lparr>ro_side = Buy, ro_price_paise = 101, ro_qty = 15\<rparr>"
    by code_simp
  moreover have "room_for 0 7 ?b" by code_simp
  ultimately show ?thesis by (intro modify_accepts_bad_price) simp_all
qed

text \<open>
  A crossed book passes the self-check: whenever levels and orders agree the check answers
  OK, even if the best bid is at or above the best ask; only \<open>crossed\<close> tells.
\<close>

definition crossed_stream :: "book_event list" where
  "crossed_stream = [sample_event EvAdd 1 Buy 100 10, sample_event EvAdd 2 Sell 99 10]"

lemma crossed_book_passes:
  "book_crossed (apply_events crossed_stream (new_book NSE 1)) \<and>
   book_invariant_ok (apply_events crossed_stream (new_book NSE 1)) = (True, ''OK'')"
proof
  show "book_crossed (apply_events crossed_stream (new_book NSE 1))" by code_simp
  show "book_invariant_ok (apply_events crossed_stream (new_book NSE 1)) = (True, ''OK'')"
    using apply_events_inv [OF new_book_inv new_book_ok(2), of crossed_stream NSE 1]
    by (simp add: apply_events_def new_book_def sample_event_def event_named_def crossed_stream_def
        spec_apply_def volume_def adds_quantity_def self_check_passes)
qed

end
