(* ===== verification/Keyed_Store.thy ===== *)
theory Keyed_Store
  imports Common_Types
begin

text \<open>
  Three components keep one state per venue and number in a hash map: the book manager,
  the feed health table and the sequence tracker. Each computes its own key. What they rely
  on is that the key separates the pairs (locale \<open>venue_key\<close>); then the state kept for a
  pair is the fold of the events of that pair alone, however the streams interleave.
\<close>

unbundle bit_operations_syntax

locale venue_key =
  fixes key :: "venue \<Rightarrow> u32 \<Rightarrow> 'k"
  assumes key_inj: "key v i = key v' i' \<longleftrightarrow> v = v' \<and> i = i'"
begin

lemma fold_route:
  assumes step: "\<And>e xs k. map_of (step e xs) k =
      (if k = key (vn e) (num e)
       then Some (f e (case map_of xs k of None \<Rightarrow> init (vn e) (num e) | Some s \<Rightarrow> s))
       else map_of xs k)"
  shows "map_of (fold step es xs) (key v i) =
    (let mine = filter (\<lambda>e. vn e = v \<and> num e = i) es in
     if mine = [] then map_of xs (key v i)
     else Some (fold f mine (case map_of xs (key v i) of None \<Rightarrow> init v i | Some s \<Rightarrow> s)))"
proof (induction es arbitrary: xs)
  case (Cons e es)
  show ?case using Cons.IH [of "step e xs"]
    by (auto simp: step key_inj Let_def split: option.splits)
qed simp

lemma other_key:
  "(v', i') \<noteq> (v, i) \<Longrightarrow> map_of (AList.update (key v i) s xs) (key v' i') = map_of xs (key v' i')"
  by (auto simp: alist_simps key_inj)

end

text \<open>\<^verbatim>\<open>(static_cast<uint64_t>(static_cast<int>(v)) << 32) | number\<close>.\<close>

definition packed_key :: "venue \<Rightarrow> u32 \<Rightarrow> u64" where
  "packed_key v n = push_bit 32 (word_of_nat (venue_code v)) OR ucast n"

lemma packed_key_low: "(ucast (packed_key v n) :: u32) = n"
  by (rule bit_word_eqI) (simp add: packed_key_def bit_simps)

lemma packed_key_high: "drop_bit 32 (packed_key v n) = word_of_nat (venue_code v)"
proof (rule bit_word_eqI)
  fix m :: nat
  assume "m < LENGTH(64)"
  moreover have "bit (word_of_nat (venue_code v) :: u64) m \<Longrightarrow> m < 32"
    by (cases v) (auto simp: bit_simps elim: notE)
  ultimately show "bit (drop_bit 32 (packed_key v n)) m = bit (word_of_nat (venue_code v) :: u64) m"
    by (auto simp: packed_key_def bit_simps dest: bit_imp_le_length)
qed

interpretation packed: venue_key packed_key
proof
  fix v v' :: venue and n n' :: u32
  have "v = v'" if "packed_key v n = packed_key v' n'"
  proof -
    have "(word_of_nat (venue_code v) :: u64) = word_of_nat (venue_code v')"
      using that packed_key_high by metis
    then show ?thesis by (cases v; cases v') simp_all
  qed
  moreover have "n = n'" if "packed_key v n = packed_key v' n'"
    using that packed_key_low by metis
  ultimately show "packed_key v n = packed_key v' n' \<longleftrightarrow> v = v' \<and> n = n'" by blast
qed

end
