(* ===== verification/Book_Manager.thy ===== *)
theory Book_Manager
  imports Book_Spec Keyed_Store
begin

text \<open>
  \<^verbatim>\<open>src/book/book_manager.cpp\<close>: one order book per venue and instrument, in a hash map keyed
  by the printed pair. The key separates the pairs, so each book is the replay of its own
  events, whatever is interleaved with them.
\<close>

section \<open>Operations\<close>

type_synonym book_table = "(string \<times> order_book) list"

record book_manager =
  bm_books :: book_table

definition new_book_manager :: book_manager where
  "new_book_manager = \<lparr>bm_books = []\<rparr>"

definition book_key :: "venue \<Rightarrow> u32 \<Rightarrow> string" where
  "book_key v i = show_nat (venue_code v) @ CHR '':'' # show_nat (unat i)"

definition bm_on_event :: "book_event \<Rightarrow> book_manager \<Rightarrow> best_quote \<times> book_manager" where
  "bm_on_event ev bm =
     (let k = book_key (be_venue ev) (be_instrument_id ev);
          b = (case map_of (bm_books bm) k of
                 None \<Rightarrow> new_book (be_venue ev) (be_instrument_id ev)
               | Some b \<Rightarrow> b);
          b' = book_apply ev b
      in (book_best_quote (be_ts_ingest_ns ev) b', bm\<lparr>bm_books := AList.update k b' (bm_books bm)\<rparr>))"

definition bm_book :: "venue \<Rightarrow> u32 \<Rightarrow> book_manager \<Rightarrow> order_book option" where
  "bm_book v i bm = map_of (bm_books bm) (book_key v i)"

text \<open>A caller that mutates the book through the pointer \<open>book\<close> returns.\<close>

definition bm_put_book :: "venue \<Rightarrow> u32 \<Rightarrow> order_book \<Rightarrow> book_manager \<Rightarrow> book_manager" where
  "bm_put_book v i b bm = bm\<lparr>bm_books := AList.update (book_key v i) b (bm_books bm)\<rparr>"

definition bm_quote :: "venue \<Rightarrow> u32 \<Rightarrow> u64 \<Rightarrow> book_manager \<Rightarrow> best_quote option" where
  "bm_quote v i now bm = (case bm_book v i bm of None \<Rightarrow> None | Some b \<Rightarrow> Some (book_best_quote now b))"

fun bm_invariant_loop :: "book_table \<Rightarrow> bool \<times> string" where
  "bm_invariant_loop [] = (True, ''OK'')"
| "bm_invariant_loop ((k, b) # rest) =
     (case book_invariant_ok b of
        (False, r) \<Rightarrow> (False, k @ '': '' @ r)
      | (True, _) \<Rightarrow> bm_invariant_loop rest)"

text \<open>The self-check of all books; \<open>h\<close> is the iteration order of the hash map.\<close>

definition bm_invariant_ok :: "(book_table \<Rightarrow> book_table) \<Rightarrow> book_manager \<Rightarrow> bool \<times> string" where
  "bm_invariant_ok h bm = bm_invariant_loop (h (bm_books bm))"

section \<open>Separation\<close>

lemma colon_not_digit: "\<not> is_digit CHR '':''"
  by (simp add: is_digit_def)

interpretation printed: venue_key book_key
proof
  fix v v' i i'
  have "v = v' \<and> i = i'" if "book_key v i = book_key v' i'"
  proof -
    have "show_nat (venue_code v) = show_nat (venue_code v') \<and> show_nat (unat i) = show_nat (unat i')"
      using that unfolding book_key_def
      by (intro split_last_sep [where c = "CHR '':''"] not_digit_notin_show_nat colon_not_digit)
    then show ?thesis by (metis show_nat_inj venue_code_inj unsigned_word_eqI)
  qed
  then show "book_key v i = book_key v' i' \<longleftrightarrow> v = v' \<and> i = i'" by blast
qed

lemma bm_book_put [simp]:
  "bm_book v' i' (bm_put_book v i b bm) = (if v' = v \<and> i' = i then Some b else bm_book v' i' bm)"
  by (auto simp: bm_book_def bm_put_book_def alist_simps printed.key_inj)

definition bm_replay :: "book_event list \<Rightarrow> book_manager \<Rightarrow> book_manager" where
  "bm_replay evs bm = fold (\<lambda>ev bm. snd (bm_on_event ev bm)) evs bm"

lemma bm_replay_books:
  "bm_books (bm_replay evs bm) = fold (\<lambda>ev xs. bm_books (snd (bm_on_event ev \<lparr>bm_books = xs\<rparr>))) evs (bm_books bm)"
  unfolding bm_replay_def
proof (induction evs arbitrary: bm)
  case (Cons ev evs)
  have e: "\<lparr>bm_books = bm_books bm\<rparr> = bm" by (cases bm) simp
  show ?case by (simp add: Cons.IH e)
qed simp

lemma bm_book_replay:
  "bm_book v i (bm_replay evs bm) =
    (let mine = filter (\<lambda>ev. be_venue ev = v \<and> be_instrument_id ev = i) evs in
     if mine = [] then bm_book v i bm
     else Some (fold book_apply mine (case bm_book v i bm of None \<Rightarrow> new_book v i | Some b \<Rightarrow> b)))"
  unfolding bm_book_def bm_replay_books
  by (rule printed.fold_route) (auto simp: bm_on_event_def Let_def alist_simps)

section \<open>The self-check of all books\<close>

lemma bm_invariant_loop_iff: "fst (bm_invariant_loop xs) \<longleftrightarrow> (\<forall>(k, b) \<in> set xs. fst (book_invariant_ok b))"
  by (induction xs rule: bm_invariant_loop.induct) (auto split: prod.splits bool.splits)

lemma bm_invariant_ok_iff:
  "set (h (bm_books bm)) = set (bm_books bm) \<Longrightarrow>
   fst (bm_invariant_ok h bm) \<longleftrightarrow> (\<forall>(k, b) \<in> set (bm_books bm). fst (book_invariant_ok b))"
  by (simp add: bm_invariant_ok_def bm_invariant_loop_iff)

section \<open>Properties\<close>

text \<open>
  C29: books do not interfere. After any interleaved event stream, the book that
  \<open>BookManager::book\<close> returns for a venue and instrument is the replay, on a fresh book, of
  exactly the events of that venue and instrument, in order; without such an event there
  is no book.
\<close>

theorem books_do_not_interfere:
  "bm_book v i (bm_replay evs new_book_manager) =
    (let mine = filter (\<lambda>ev. be_venue ev = v \<and> be_instrument_id ev = i) evs in
     if mine = [] then None else Some (apply_events mine (new_book v i)))"
  unfolding bm_book_replay apply_events_def
  by (simp add: new_book_manager_def bm_book_def Let_def)

end
