(* ===== verification/Book_Matching.thy ===== *)
theory Book_Matching
  imports Book_Spec
begin

text \<open>
  Immediate-or-cancel matching: \<open>consume_orders_at_price\<close> and \<open>match_ioc\<close>. Whatever the
  iteration order of the hash index, the loop ends, fills only within the limit, best
  price first and never more than asked, takes from every level exactly what it reports,
  and stops short only when nothing within the limit is left.
\<close>

section \<open>Specification of a matching run\<close>

definition iteration_ok :: "iteration_order \<Rightarrow> bool" where
  "iteration_ok h \<longleftrightarrow> (\<forall>xs. mset (h xs) = mset xs)"

definition fills_total :: "level_fill list \<Rightarrow> int" where
  "fills_total fs = (\<Sum>f\<leftarrow>fs. lf_qty f)"

definition fills_at :: "i64 \<Rightarrow> level_fill list \<Rightarrow> int" where
  "fills_at px fs = (\<Sum>f\<leftarrow>fs. if lf_price_paise f = px then lf_qty f else 0)"

definition better_for :: "side \<Rightarrow> i64 \<Rightarrow> i64 \<Rightarrow> bool" where
  "better_for aggressor p p' \<longleftrightarrow> (if aggressor = Buy then p < p' else p' < p)"

definition ioc_spec :: "side \<Rightarrow> i64 \<Rightarrow> i64 \<Rightarrow> order_book \<Rightarrow> level_fill list \<Rightarrow> order_book \<Rightarrow> bool" where
  "ioc_spec aggressor limit_px qty b fs b' \<longleftrightarrow>
     (\<forall>f \<in> set fs. 0 < lf_qty f \<and> \<not> beyond_limit aggressor limit_px (lf_price_paise f)) \<and>
     sorted_wrt (better_for aggressor) (map lf_price_paise fs) \<and>
     fills_total fs \<le> qty \<and>
     (\<forall>sd px. depth_at sd px b' = depth_at sd px b - (if sd = opposite aggressor then fills_at px fs else 0)) \<and>
     (\<forall>sd px. orders_at sd px b' = orders_at sd px b - (if sd = opposite aggressor then fills_at px fs else 0)) \<and>
     (fills_total fs < qty \<longrightarrow>
        (\<forall>px. 0 < depth_at (opposite aggressor) px b' \<longrightarrow> beyond_limit aggressor limit_px px)) \<and>
     ob_venue b' = ob_venue b \<and> ob_instrument_id b' = ob_instrument_id b \<and>
     ob_last_update_ns b' = ob_last_update_ns b \<and>
     (\<forall>oid ro'. map_of (ob_orders b') oid = Some ro' \<longrightarrow>
        (\<exists>ro. map_of (ob_orders b) oid = Some ro \<and> ro_side ro' = ro_side ro \<and>
              ro_price_paise ro' = ro_price_paise ro \<and> ro_qty ro' \<le> ro_qty ro))"

lemma fills_simps [simp]:
  "fills_total [] = 0" "fills_total (f # fs) = lf_qty f + fills_total fs"
  "fills_at px [] = 0"
  "fills_at px (f # fs) = (if lf_price_paise f = px then lf_qty f else 0) + fills_at px fs"
  by (simp_all add: fills_total_def fills_at_def)

lemma fills_total_pos: "\<forall>f \<in> set fs. 0 < lf_qty f \<Longrightarrow> 0 \<le> fills_total fs \<and> (fills_total fs = 0 \<longleftrightarrow> fs = [])"
proof (induction fs)
  case (Cons f fs)
  then have "0 < lf_qty f" "0 \<le> fills_total fs" by simp_all
  then show ?case by simp
qed simp

lemma fills_at_nonneg: "\<forall>f \<in> set fs. 0 < lf_qty f \<Longrightarrow> 0 \<le> fills_at px fs"
  by (induction fs) auto

lemma fills_at_pos: "\<forall>f \<in> set fs. 0 < lf_qty f \<Longrightarrow> px \<in> lf_price_paise ` set fs \<Longrightarrow> 0 < fills_at px fs"
  by (induction fs) (auto simp: add_pos_nonneg add_nonneg_pos fills_at_nonneg)

section \<open>The consuming loop\<close>

text \<open>The index while it is being consumed: the exhausted orders are those to be erased.\<close>

definition consuming :: "order_index \<Rightarrow> u64 list \<Rightarrow> bool" where
  "consuming xs er \<longleftrightarrow> distinct (map fst xs) \<and>
     (\<forall>oid ro. map_of xs oid = Some ro \<longrightarrow>
        ro_side ro \<noteq> SUnknown \<and> 0 \<le> ro_qty ro \<and> ro_qty ro \<le> i64_max \<and> (ro_qty ro = 0 \<longleftrightarrow> oid \<in> set er))"

lemma consumingD:
  "consuming xs er \<Longrightarrow> map_of xs oid = Some ro \<Longrightarrow>
   ro_side ro \<noteq> SUnknown \<and> 0 \<le> ro_qty ro \<and> ro_qty ro \<le> i64_max \<and> (ro_qty ro = 0 \<longleftrightarrow> oid \<in> set er)"
  unfolding consuming_def by blast

lemma consuming_start: "index_ok xs \<Longrightarrow> consuming xs []"
  unfolding consuming_def
proof (intro conjI allI impI)
  assume idx: "index_ok xs"
  then show "distinct (map fst xs)" by (simp add: index_ok_def)
  fix oid ro assume "map_of xs oid = Some ro"
  from index_entry_qty [OF idx this]
  show "ro_side ro \<noteq> SUnknown" "0 \<le> ro_qty ro" "ro_qty ro \<le> i64_max" "ro_qty ro = 0 \<longleftrightarrow> oid \<in> set []"
    by simp_all
qed

lemma consuming_update:
  assumes "consuming xs er" and "map_of xs oid = Some ro" and "0 \<le> q" and "q \<le> ro_qty ro" and "oid \<notin> set er"
  shows "consuming (AList.update oid (ro\<lparr>ro_qty := q\<rparr>) xs) (if q \<le> 0 then er @ [oid] else er)"
proof -
  have "q \<le> i64_max" "ro_side ro \<noteq> SUnknown" using consumingD [OF assms(1,2)] assms(4) by simp_all
  moreover have "distinct (map fst xs)" using assms(1) by (simp add: consuming_def)
  ultimately show ?thesis
    using assms(3,5) consumingD [OF assms(1)]
    unfolding consuming_def by (intro conjI allI impI) (auto simp: map_of_update simp del: map_of_eq_Some_iff split: if_splits)
qed

definition shrinks :: "order_index \<Rightarrow> order_index \<Rightarrow> bool" where
  "shrinks xs ys \<longleftrightarrow> (\<forall>oid ro'. map_of ys oid = Some ro' \<longrightarrow>
     (\<exists>ro. map_of xs oid = Some ro \<and> ro_side ro' = ro_side ro \<and>
           ro_price_paise ro' = ro_price_paise ro \<and> ro_qty ro' \<le> ro_qty ro))"

lemma shrinks_refl [simp]: "shrinks xs xs"
  by (simp add: shrinks_def)

lemma shrinks_trans:
  assumes "shrinks xs ys" and "shrinks ys zs"
  shows "shrinks xs zs"
  unfolding shrinks_def
proof (intro allI impI)
  fix oid z
  assume "map_of zs oid = Some z"
  then obtain y where y: "map_of ys oid = Some y" "ro_side z = ro_side y"
    "ro_price_paise z = ro_price_paise y" "ro_qty z \<le> ro_qty y"
    using assms(2) unfolding shrinks_def by blast
  with assms(1) obtain x where "map_of xs oid = Some x" "ro_side y = ro_side x"
    "ro_price_paise y = ro_price_paise x" "ro_qty y \<le> ro_qty x"
    unfolding shrinks_def by blast
  with y show "\<exists>x. map_of xs oid = Some x \<and> ro_side z = ro_side x \<and>
      ro_price_paise z = ro_price_paise x \<and> ro_qty z \<le> ro_qty x" by force
qed

definition pending :: "order_index \<Rightarrow> order_index \<Rightarrow> bool" where
  "pending todo xs \<longleftrightarrow> distinct (map fst todo) \<and> (\<forall>(oid, ro) \<in> set todo. map_of xs oid = Some ro \<and> entry_ok ro)"

lemma pending_Cons:
  "pending ((oid, ro) # todo) xs \<Longrightarrow> pending todo xs \<and> map_of xs oid = Some ro \<and> entry_ok ro \<and> oid \<notin> fst ` set todo"
  by (auto simp: pending_def)

lemma pending_update:
  "pending todo xs \<Longrightarrow> oid \<notin> fst ` set todo \<Longrightarrow> pending todo (AList.update oid ro xs)"
  unfolding pending_def by (intro conjI ballI) (auto simp: map_of_update rev_image_eqI)

lemma consume_loop_spec:
  assumes "consuming xs er" and "pending todo xs" and "0 \<le> rem" and "rem \<le> i64_max"
    and "consume_loop rs px todo xs rem er = (xs', rem', er')"
  shows "consuming xs' er' \<and> shrinks xs xs' \<and> 0 \<le> rem' \<and> rem' \<le> rem \<and>
    rem' = rem - min rem (alist_sum (qty_at rs px) todo) \<and>
    (\<forall>s p. alist_sum (qty_at s p) xs' = alist_sum (qty_at s p) xs - (if s = rs \<and> p = px then rem - rem' else 0))"
  using assms
proof (induction todo arbitrary: xs rem er)
  case Nil
  then show ?case by auto
next
  case (Cons e todo)
  obtain oid ro where e: "e = (oid, ro)" by force
  have pend: "pending todo xs" "map_of xs oid = Some ro" "oid \<notin> fst ` set todo" and
    q: "0 < ro_qty ro" "ro_qty ro \<le> i64_max" "ro_side ro \<noteq> SUnknown"
    using pending_Cons [of oid ro todo xs] Cons.prems(2) by (simp_all add: e entry_ok_def)
  have nn: "0 \<le> alist_sum (qty_at rs px) todo"
    using pend(1) by (intro alist_sum_nonneg) (auto simp: pending_def intro: qty_at_nonneg)
  consider (stop) "rem \<le> 0" | (skip) "0 < rem" "ro_side ro \<noteq> rs \<or> ro_price_paise ro \<noteq> px"
    | (eat) "0 < rem" "ro_side ro = rs" "ro_price_paise ro = px" by force
  then show ?case
  proof cases
    case stop
    have "0 \<le> qty_at rs px ro" using q by (simp add: qty_at_def)
    with stop Cons.prems nn show ?thesis by (auto simp: e)
  next
    case skip
    with Cons.prems(5) have "consume_loop rs px todo xs rem er = (xs', rem', er')" by (auto simp: e)
    from Cons.IH [OF Cons.prems(1) pend(1) Cons.prems(3,4) this] skip show ?thesis
      by (auto simp: e qty_at_def [of rs px ro])
  next
    case eat
    define t where "t = min rem (ro_qty ro)"
    have t: "0 < t" "t \<le> rem" "t \<le> ro_qty ro" using eat q by (auto simp: t_def)
    have w: "wrap64 (ro_qty ro - t) = ro_qty ro - t" "wrap64 (rem - t) = rem - t"
      using t q Cons.prems(4) by (auto intro!: wrap64_sub_pos)
    let ?ro = "ro\<lparr>ro_qty := ro_qty ro - t\<rparr>" and ?xs = "AList.update oid (ro\<lparr>ro_qty := ro_qty ro - t\<rparr>) xs"
    let ?er = "if ro_qty ro - t \<le> 0 then er @ [oid] else er"
    have loop: "consume_loop rs px todo ?xs (rem - t) ?er = (xs', rem', er')"
      using Cons.prems(5) eat w by (simp add: e Let_def t_def [symmetric] del: w)
    have "ro_qty ro = 0 \<longleftrightarrow> oid \<in> set er"
      using Cons.prems(1) pend(2) unfolding consuming_def by blast
    with q have "oid \<notin> set er" by simp
    then have cons: "consuming ?xs ?er"
      using consuming_update [OF Cons.prems(1) pend(2), of "ro_qty ro - t"] t by simp
    have shr: "shrinks xs ?xs" using pend(2) t by (auto simp: shrinks_def alist_simps)
    have sum: "alist_sum (qty_at s p) ?xs
        = alist_sum (qty_at s p) xs - (if s = rs \<and> p = px then t else 0)" for s p
      using eat by (simp add: alist_sum_update_old [OF pend(2)] qty_at_def [of s p])
    have hd: "qty_at rs px ro = ro_qty ro" using eat by (simp add: qty_at_def)
    have "0 \<le> rem - t" "rem - t \<le> i64_max" using t Cons.prems(4) by linarith+
    from Cons.IH [OF cons pending_update [OF pend(1,3)] this loop]
    have IH: "consuming xs' er'" "shrinks ?xs xs'" "0 \<le> rem'" "rem' \<le> rem - t"
      "rem' = rem - t - min (rem - t) (alist_sum (qty_at rs px) todo)"
      "\<forall>s p. alist_sum (qty_at s p) xs'
        = alist_sum (qty_at s p) ?xs - (if s = rs \<and> p = px then rem - t - rem' else 0)"
      by blast+
    have "rem' = rem - min rem (alist_sum (qty_at rs px) (e # todo))"
      using IH(5) t nn by (simp add: e hd t_def min_def split: if_splits)
    with IH t shr sum show ?thesis by (auto intro: shrinks_trans)
  qed
qed

lemma erase_spec:
  assumes "distinct (map fst xs)" and "\<forall>oid ro. oid \<in> set er \<longrightarrow> map_of xs oid = Some ro \<longrightarrow> f ro = 0"
  shows "distinct (map fst (fold AList.delete er xs)) \<and>
    (\<forall>oid. map_of (fold AList.delete er xs) oid = (if oid \<in> set er then None else map_of xs oid)) \<and>
    alist_sum f (fold AList.delete er xs) = alist_sum f xs"
  using assms
proof (induction er arbitrary: xs)
  case (Cons o1 er)
  have d: "distinct (map fst (AList.delete o1 xs))" using Cons.prems(1) by auto
  have z: "\<forall>oid ro. oid \<in> set er \<longrightarrow> map_of (AList.delete o1 xs) oid = Some ro \<longrightarrow> f ro = 0"
    using Cons.prems(2) by (auto simp: map_of_delete simp del: map_of_eq_Some_iff split: if_splits)
  have s: "alist_sum f (AList.delete o1 xs) = alist_sum f xs"
  proof (cases "map_of xs o1")
    case None
    then show ?thesis by (simp add: AList_delete_notin map_of_eq_None_iff)
  next
    case (Some ro)
    then have "f ro = 0" using Cons.prems(2) by (metis list.set_intros(1))
    with Some show ?thesis using Cons.prems(1) by (simp add: alist_sum_delete)
  qed
  from Cons.IH [OF d z] s show ?case by (simp add: map_of_delete)
qed simp

lemma consuming_erased:
  assumes "consuming xs er"
  shows "index_ok (fold AList.delete er xs)"
    and "shrinks xs (fold AList.delete er xs)"
    and "alist_sum (qty_at s p) (fold AList.delete er xs) = alist_sum (qty_at s p) xs"
proof -
  have d: "distinct (map fst xs)" using assms by (simp add: consuming_def)
  note e = consumingD [OF assms]
  have z: "\<forall>oid ro. oid \<in> set er \<longrightarrow> map_of xs oid = Some ro \<longrightarrow> qty_at s p ro = 0" for s p
    using e unfolding qty_at_def by presburger
  have er: "distinct (map fst (fold AList.delete er xs))"
    "\<And>oid. map_of (fold AList.delete er xs) oid = (if oid \<in> set er then None else map_of xs oid)"
    "alist_sum (qty_at s p) (fold AList.delete er xs) = alist_sum (qty_at s p) xs"
    using erase_spec [of xs er "qty_at s p", OF d z] by blast+
  have "entry_ok ro" if "map_of (fold AList.delete er xs) oid = Some ro" for oid ro
    using that e [of oid ro] by (simp add: er(2) entry_ok_def split: if_splits)
  with er(1) show "index_ok (fold AList.delete er xs)" by (simp add: index_ok_def)
  show "shrinks xs (fold AList.delete er xs)" by (simp add: shrinks_def er(2))
  show "alist_sum (qty_at s p) (fold AList.delete er xs) = alist_sum (qty_at s p) xs" by (rule er(3))
qed

lemma alist_sum_perm: "mset xs = mset ys \<Longrightarrow> alist_sum f xs = alist_sum f ys"
  unfolding alist_sum_def by (metis mset_map sum_mset_sum_list)

text \<open>Consuming what the orders of a price have: the whole effect.\<close>

lemma consume_spec:
  assumes inv: "levels_ok b" "index_ok (ob_orders b)" and h: "iteration_ok h"
    and q: "0 < q" "q \<le> orders_at rs px b" "q \<le> i64_max" and rs: "rs \<noteq> SUnknown"
  defines "b' \<equiv> consume_orders_at_price h rs px q b"
  shows "index_ok (ob_orders b')" and "shrinks (ob_orders b) (ob_orders b')"
    and "orders_at s p b' = orders_at s p b - (if s = rs \<and> p = px then q else 0)"
    and "depth_at s p b' = (if s = rs \<and> p = px then max 0 (depth_at s p b - q) else depth_at s p b)"
    and "levels_ok b'"
    and "ob_venue b' = ob_venue b \<and> ob_instrument_id b' = ob_instrument_id b \<and> ob_last_update_ns b' = ob_last_update_ns b"
proof -
  let ?xs = "ob_orders b"
  obtain xs' r er where loop: "consume_loop rs px (h ?xs) ?xs q [] = (xs', r, er)"
    by (rule prod_cases3)
  have perm: "mset (h ?xs) = mset ?xs" using h by (simp add: iteration_ok_def)
  have "distinct (map fst (h ?xs))"
    using inv(2) mset_eq_imp_distinct_iff [of "map fst (h ?xs)" "map fst ?xs"] perm
    by (simp add: index_ok_def)
  moreover have "set (h ?xs) = set ?xs" using perm by (metis set_mset_mset)
  ultimately have pend: "pending (h ?xs) ?xs"
    using inv(2) index_ok_set [OF inv(2)]
    by (auto simp: pending_def index_ok_def simp del: split_paired_All)
  have "consuming ?xs []" using inv(2) by (rule consuming_start)
  from consume_loop_spec [OF this pend _ q(3) loop] q(1)
  have sp: "consuming xs' er" "shrinks ?xs xs'"
    "r = q - min q (alist_sum (qty_at rs px) (h ?xs))"
    "\<And>s p. alist_sum (qty_at s p) xs' = alist_sum (qty_at s p) ?xs - (if s = rs \<and> p = px then q - r else 0)"
    by auto
  have r: "r = 0" using sp(3) q(2) alist_sum_perm [OF perm] by (simp add: orders_at_def)
  have w: "wrap64 q = q" using q by (intro wrap64_bounded) auto
  have b': "b' = (remove_from_level rs px q b)\<lparr>ob_orders := fold AList.delete er xs'\<rparr>"
    using loop r w by (simp add: b'_def consume_orders_at_price_def Let_def remove_from_level_def)
  note er = consuming_erased [OF sp(1)]
  show "index_ok (ob_orders b')" using er(1) by (simp add: b')
  show "shrinks (ob_orders b) (ob_orders b')" using shrinks_trans [OF sp(2) er(2)] by (simp add: b')
  show "orders_at s p b' = orders_at s p b - (if s = rs \<and> p = px then q else 0)"
    using sp(4) er(3) r by (simp add: b' orders_at_def)
  show "depth_at s p b' = (if s = rs \<and> p = px then max 0 (depth_at s p b - q) else depth_at s p b)"
    using inv(1) q rs by (simp add: b' depth_at_remove_from_level)
  show "levels_ok b'" using inv(1) q by (simp add: b' levels_ok_remove_from_level)
  show "ob_venue b' = ob_venue b \<and> ob_instrument_id b' = ob_instrument_id b \<and> ob_last_update_ns b' = ob_last_update_ns b"
    by (simp add: b' remove_from_level_def)
qed

section \<open>The matching loop\<close>

lemma lvl_ok_pos: "lvl_ok lt xs \<Longrightarrow> map_of xs px = Some q \<Longrightarrow> 0 < q \<and> q \<le> i64_max"
  by (simp add: lvl_ok_def)

lemma side_head:
  assumes "levels_ok b" and "aggressor = Buy \<or> aggressor = Sell"
    and "side_levels (opposite aggressor) b = lvl # rest"
  shows "depth_at (opposite aggressor) (fst lvl) b = snd lvl" and "0 < snd lvl" and "snd lvl \<le> i64_max"
    and "0 < depth_at (opposite aggressor) p b \<Longrightarrow> p = fst lvl \<or> better_for aggressor (fst lvl) p"
proof -
  obtain px l where lvl: "lvl = (px, l)" by force
  consider (B) "aggressor = Buy" "ob_asks b = (px, l) # rest" | (S) "aggressor = Sell" "ob_bids b = (px, l) # rest"
    using assms(2,3) lvl by (auto simp: side_levels_def)
  note cases = this
  have l: "0 < l \<and> l \<le> i64_max"
    using assms(1) lvl_ok_pos [of _ "(px, l) # rest" px l]
    by (cases rule: cases) (auto simp: levels_ok_def)
  show "depth_at (opposite aggressor) (fst lvl) b = snd lvl"
    by (cases rule: cases) (auto simp: depth_at_def lvl_qty_def lvl)
  show "0 < snd lvl" and "snd lvl \<le> i64_max" using l by (simp_all add: lvl)
  show "p = fst lvl \<or> better_for aggressor (fst lvl) p" if "0 < depth_at (opposite aggressor) p b"
    using assms(1) that
    by (cases rule: cases)
      (auto simp: depth_at_def lvl_qty_def lvl better_for_def levels_ok_def lvl_ok_def
        split: option.splits if_splits dest!: map_of_SomeD)
qed

lemma side_empty: "side_levels sd b = [] \<Longrightarrow> depth_at sd p b = 0"
  by (auto simp: side_levels_def depth_at_def lvl_qty_def split: if_splits)

lemma beyond_better:
  "beyond_limit a lim p \<Longrightarrow> p' = p \<or> better_for a p p' \<Longrightarrow> beyond_limit a lim p'"
  by (auto simp: beyond_limit_def better_for_def split: if_splits)

lemma ioc_specD:
  assumes "ioc_spec a lim qty b fs b'"
  shows "\<forall>f \<in> set fs. 0 < lf_qty f" and "\<forall>f \<in> set fs. \<not> beyond_limit a lim (lf_price_paise f)"
    and "sorted_wrt (better_for a) (map lf_price_paise fs)" and "fills_total fs \<le> qty"
    and "depth_at sd px b' = depth_at sd px b - (if sd = opposite a then fills_at px fs else 0)"
    and "orders_at sd px b' = orders_at sd px b - (if sd = opposite a then fills_at px fs else 0)"
    and "fills_total fs < qty \<Longrightarrow> 0 < depth_at (opposite a) px b' \<Longrightarrow> beyond_limit a lim px"
    and "ob_venue b' = ob_venue b \<and> ob_instrument_id b' = ob_instrument_id b \<and> ob_last_update_ns b' = ob_last_update_ns b"
    and "shrinks (ob_orders b) (ob_orders b')"
  using assms unfolding ioc_spec_def shrinks_def by blast+

lemma ioc_specI:
  assumes "\<And>f. f \<in> set fs \<Longrightarrow> 0 < lf_qty f \<and> \<not> beyond_limit a lim (lf_price_paise f)"
    and "sorted_wrt (better_for a) (map lf_price_paise fs)" and "fills_total fs \<le> qty"
    and "\<And>sd px. depth_at sd px b' = depth_at sd px b - (if sd = opposite a then fills_at px fs else 0)"
    and "\<And>sd px. orders_at sd px b' = orders_at sd px b - (if sd = opposite a then fills_at px fs else 0)"
    and "\<And>px. fills_total fs < qty \<Longrightarrow> 0 < depth_at (opposite a) px b' \<Longrightarrow> beyond_limit a lim px"
    and "ob_venue b' = ob_venue b \<and> ob_instrument_id b' = ob_instrument_id b \<and> ob_last_update_ns b' = ob_last_update_ns b"
    and "shrinks (ob_orders b) (ob_orders b')"
  shows "ioc_spec a lim qty b fs b'"
  using assms unfolding ioc_spec_def shrinks_def by blast

lemma ioc_spec_stop:
  assumes "qty = 0 \<or> (\<forall>px. 0 < depth_at (opposite a) px b \<longrightarrow> beyond_limit a lim px)" and "0 \<le> qty"
  shows "ioc_spec a lim qty b [] b"
  using assms by (intro ioc_specI) auto

lemma ioc_spec_step:
  assumes inv: "levels_ok b" and inv': "levels_ok b'" and a: "a = Buy \<or> a = Sell"
    and hd: "side_levels (opposite a) b = lvl # rest"
    and near: "\<not> beyond_limit a lim (fst lvl)" and qty: "0 < qty"
    and t: "t = min qty (snd lvl)"
    and dep: "\<And>sd px. depth_at sd px b1 = depth_at sd px b - (if sd = opposite a \<and> px = fst lvl then t else 0)"
    and ord: "\<And>sd px. orders_at sd px b1 = orders_at sd px b - (if sd = opposite a \<and> px = fst lvl then t else 0)"
    and keep: "ob_venue b1 = ob_venue b \<and> ob_instrument_id b1 = ob_instrument_id b \<and> ob_last_update_ns b1 = ob_last_update_ns b"
    and shr: "shrinks (ob_orders b) (ob_orders b1)"
    and tail: "ioc_spec a lim (qty - t) b1 fs b'"
  shows "ioc_spec a lim qty b (\<lparr>lf_price_paise = fst lvl, lf_qty = t\<rparr> # fs) b'"
proof (rule ioc_specI)
  note h = side_head [OF inv a hd] and T = ioc_specD [OF tail]
  have tpos: "0 < t" using qty h(2) t by simp
  show "0 < lf_qty f \<and> \<not> beyond_limit a lim (lf_price_paise f)"
    if "f \<in> set (\<lparr>lf_price_paise = fst lvl, lf_qty = t\<rparr> # fs)" for f
    using that tpos near T(1,2) by auto
  have "better_for a (fst lvl) (lf_price_paise f)" if f: "f \<in> set fs" for f
  proof -
    have "fs \<noteq> []" using f by auto
    then have "0 < fills_total fs" using fills_total_pos [OF T(1)] by simp
    then have full: "t = snd lvl" using T(4) t by simp
    have "0 < fills_at (lf_price_paise f) fs" using fills_at_pos [OF T(1)] f by blast
    then have "0 < depth_at (opposite a) (lf_price_paise f) b1"
      using T(5) [of "opposite a" "lf_price_paise f"] depth_at_nonneg [OF inv', of "opposite a" "lf_price_paise f"] by simp
    then have "lf_price_paise f \<noteq> fst lvl" "0 < depth_at (opposite a) (lf_price_paise f) b"
      using dep [of "opposite a" "lf_price_paise f"] h(1) full tpos by (auto split: if_splits)
    with h(4) show ?thesis by blast
  qed
  with T(3) show "sorted_wrt (better_for a) (map lf_price_paise (\<lparr>lf_price_paise = fst lvl, lf_qty = t\<rparr> # fs))"
    by simp
  show "fills_total (\<lparr>lf_price_paise = fst lvl, lf_qty = t\<rparr> # fs) \<le> qty" using T(4) by simp
  show "depth_at sd px b' = depth_at sd px b
      - (if sd = opposite a then fills_at px (\<lparr>lf_price_paise = fst lvl, lf_qty = t\<rparr> # fs) else 0)" for sd px
    using T(5) [of sd px] dep [of sd px] by auto
  show "orders_at sd px b' = orders_at sd px b
      - (if sd = opposite a then fills_at px (\<lparr>lf_price_paise = fst lvl, lf_qty = t\<rparr> # fs) else 0)" for sd px
    using T(6) [of sd px] ord [of sd px] by auto
  show "fills_total (\<lparr>lf_price_paise = fst lvl, lf_qty = t\<rparr> # fs) < qty \<Longrightarrow> 0 < depth_at (opposite a) px b' \<Longrightarrow> beyond_limit a lim px" for px
    using T(7) [of px] by simp
  show "ob_venue b' = ob_venue b \<and> ob_instrument_id b' = ob_instrument_id b \<and> ob_last_update_ns b' = ob_last_update_ns b"
    using T(8) keep by simp
  show "shrinks (ob_orders b) (ob_orders b')" using shrinks_trans [OF shr T(9)] .
qed

lemma opposite_known: "a = Buy \<or> a = Sell \<Longrightarrow> opposite a \<noteq> SUnknown"
  by auto

context level_index_agreement
begin

lemma agrees_consume:
  assumes inv: "book_agrees R b" and h: "iteration_ok h" and a: "a = Buy \<or> a = Sell"
    and t: "0 < t" "t \<le> depth_at (opposite a) px b"
  shows "book_agrees R (consume_orders_at_price h (opposite a) px t b)"
    and "depth_at s p (consume_orders_at_price h (opposite a) px t b)
      = depth_at s p b - (if s = opposite a \<and> p = px then t else 0)"
    and "orders_at s p (consume_orders_at_price h (opposite a) px t b)
      = orders_at s p b - (if s = opposite a \<and> p = px then t else 0)"
proof -
  note lv = agreesD [OF inv] and o = opposite_known [OF a]
  have tq: "t \<le> orders_at (opposite a) px b" using R_le [OF lv(3) [OF o, of px]] t(2) by linarith
  have tm: "t \<le> i64_max" using depth_at_max [OF lv(1), of "opposite a" px] t(2) by linarith
  note c = consume_spec [OF lv(1,2) h t(1) tq tm o]
  show d: "depth_at s p (consume_orders_at_price h (opposite a) px t b)
      = depth_at s p b - (if s = opposite a \<and> p = px then t else 0)" for s p
    using c(4) [of s p] t(2) by auto
  show q: "orders_at s p (consume_orders_at_price h (opposite a) px t b)
      = orders_at s p b - (if s = opposite a \<and> p = px then t else 0)" for s p
    by (rule c(3))
  have "R (depth_at s p b - (if s = opposite a \<and> p = px then t else 0))
          (orders_at s p b - (if s = opposite a \<and> p = px then t else 0))" if "s \<noteq> SUnknown" for s p
    using R_add [OF lv(3) [OF that, of p], of "- (if s = opposite a \<and> p = px then t else 0)"] by simp
  with c(1,5) d q show "book_agrees R (consume_orders_at_price h (opposite a) px t b)"
    by (simp add: book_agrees_def)
qed

theorem match_loop_spec:
  assumes "book_agrees R b" and h: "iteration_ok h" and a: "a = Buy \<or> a = Sell"
    and "0 \<le> qty" and "qty \<le> i64_max"
  shows "\<exists>fs b'. match_loop h a lim qty fills b = Some (fills @ fs, b') \<and>
    ioc_spec a lim qty b fs b' \<and> book_agrees R b'"
  using assms(1,4,5)
proof (induction "nat qty" arbitrary: qty fills b rule: less_induct)
  case less
  note lv = agreesD [OF less.prems(1)]
  consider (none) "side_levels (opposite a) b = []"
    | (zero) lvl rest where "side_levels (opposite a) b = lvl # rest" "qty = 0"
    | (far) lvl rest where "side_levels (opposite a) b = lvl # rest" "0 < qty" "beyond_limit a lim (fst lvl)"
    | (hit) lvl rest where "side_levels (opposite a) b = lvl # rest" "0 < qty" "\<not> beyond_limit a lim (fst lvl)"
    using less.prems(2) by (cases "side_levels (opposite a) b") force+
  then show ?case
  proof cases
    case none
    then show ?thesis using less.prems
      by (intro exI [of _ "[]"] exI [of _ b]) (simp add: match_loop.simps ioc_spec_stop side_empty)
  next
    case zero
    then show ?thesis using less.prems
      by (intro exI [of _ "[]"] exI [of _ b]) (simp add: match_loop.simps ioc_spec_stop)
  next
    case far
    have "beyond_limit a lim px" if "0 < depth_at (opposite a) px b" for px
      using side_head(4) [OF lv(1) a far(1) that] far(3) beyond_better by blast
    with far less.prems show ?thesis
      by (intro exI [of _ "[]"] exI [of _ b]) (simp add: match_loop.simps ioc_spec_stop)
  next
    case hit
    note hd = side_head [OF lv(1) a hit(1)]
    define t where "t = min qty (snd lvl)"
    let ?b1 = "consume_orders_at_price h (opposite a) (fst lvl) t b"
    let ?f = "\<lparr>lf_price_paise = fst lvl, lf_qty = t\<rparr>"
    have t: "0 < t" "t \<le> depth_at (opposite a) (fst lvl) b" "t \<le> qty"
      using hd hit by (simp_all add: t_def)
    have w: "wrap64 (qty - t) = qty - t" using t less.prems by (intro wrap64_sub_pos) auto
    note c = agrees_consume [OF less.prems(1) h a t(1,2)]
    have tq: "t \<le> orders_at (opposite a) (fst lvl) b"
      using R_le [OF lv(3) [OF opposite_known [OF a], of "fst lvl"]] t(2) by linarith
    have tm: "t \<le> i64_max" using t(3) less.prems(3) by linarith
    note cs = consume_spec [OF lv(1,2) h t(1) tq tm opposite_known [OF a]]
    have "nat (qty - t) < nat qty" "0 \<le> qty - t" "qty - t \<le> i64_max" using t less.prems by linarith+
    from less.hyps [OF this(1) c(1) this(2,3), of "fills @ [?f]"]
    obtain fs b' where IH: "match_loop h a lim (qty - t) (fills @ [?f]) ?b1 = Some ((fills @ [?f]) @ fs, b')"
      "ioc_spec a lim (qty - t) ?b1 fs b'" "book_agrees R b'" by blast
    have "match_loop h a lim qty fills b = Some (fills @ ?f # fs, b')"
      using hit IH(1) w by (simp add: match_loop.simps [of h a lim qty] t_def [symmetric])
    moreover have "ioc_spec a lim qty b (?f # fs) b'"
      by (rule ioc_spec_step [OF lv(1) agreesD(1) [OF IH(3)] a hit(1,3,2) t_def c(2,3) cs(6,2) IH(2)])
    ultimately show ?thesis using IH(3) by blast
  qed
qed

theorem match_ioc_spec:
  assumes "book_agrees R b" and "iteration_ok h" and "a = Buy \<or> a = Sell"
    and "0 < qty" and "qty \<le> i64_max" and "0 < lim"
  shows "\<exists>fs b'. match_ioc h a lim qty b = Some (fs, b') \<and> ioc_spec a lim qty b fs b' \<and> book_agrees R b'"
  using match_loop_spec [OF assms(1-3) _ assms(5), of lim "[]"] assms by (auto simp: match_ioc_def)

end

lemma iteration_ok_id [simp]: "iteration_ok (\<lambda>xs. xs)" "iteration_ok rev"
  by (simp_all add: iteration_ok_def)

lemma sample_book_ok: "book_ok (apply_events sample_stream (new_book NSE 1))"
  using apply_events_ok [OF new_book_ok, of sample_stream NSE 1]
  by (simp add: apply_events_def sample_stream_def sample_event_def volume_def adds_quantity_def)

section \<open>Properties\<close>

text \<open>
  C3: immediate-or-cancel matching is correct and ends. On a well-formed book, whatever the
  hash iteration order, \<open>match_ioc\<close> returns; its fills are positive, within the limit
  price, best price first, one per level, and never exceed the order's quantity; each level
  and the resting orders behind it lose exactly what is reported at that price and nothing
  else changes; if the order is not fully filled, nothing within its limit is left; and
  the book stays well formed.
\<close>

theorem match_ioc_correct:
  assumes "book_ok b" and "iteration_ok h" and "a = Buy \<or> a = Sell"
    and "0 < qty" and "qty \<le> i64_max" and "0 < lim"
  shows "\<exists>fs b'. match_ioc h a lim qty b = Some (fs, b') \<and> ioc_spec a lim qty b fs b' \<and> book_ok b'"
  using weak.match_ioc_spec [OF assms(1) [unfolded book_ok_def] assms(2-)] by (simp add: book_ok_def)

theorem match_ioc_correct_witness:
  "\<exists>fs b'. match_ioc rev Sell 100 18 (apply_events sample_stream (new_book NSE 1)) = Some (fs, b') \<and>
     ioc_spec Sell 100 18 (apply_events sample_stream (new_book NSE 1)) fs b' \<and> book_ok b'"
  by (rule match_ioc_correct [OF sample_book_ok]) simp_all

end
