(* ===== verification/Matching.thy ===== *)
theory Matching
  imports Oms Book_Manager Book_Matching
begin

text \<open>
  \<^verbatim>\<open>src/sim/scenario.cpp\<close> and \<^verbatim>\<open>src/sim/matching_engine.cpp\<close>: the simulated exchange. The engine
  holds the book manager by reference; here the engine's state contains it. The clock
  \<^verbatim>\<open>now_ns()\<close> is an argument, \<open>clock n\<close> being its \<open>n\<close>-th reading, and the state counts the readings.
  The engine is shown to honour the contract of a gateway, so every order submitted to it
  is settled when the submission returns.
\<close>

section \<open>Scenarios\<close>

record scenario_config =
  sn_name :: string
  sn_description :: string
  sn_send_sell_first :: bool
  sn_delayed_ack :: bool
  sn_disconnect_nse :: bool
  sn_disconnect_bse :: bool
  sn_manual_kill :: bool
  sn_reject_roles_once :: "order_role set"
  sn_max_fill_qty_by_role :: "(order_role \<times> i64) list"
  sn_extra_latency_us :: i64

definition scenario_default :: scenario_config where
  "scenario_default = \<lparr>sn_name = ''clean'', sn_description = [], sn_send_sell_first = False, sn_delayed_ack = False,
     sn_disconnect_nse = False, sn_disconnect_bse = False, sn_manual_kill = False, sn_reject_roles_once = {},
     sn_max_fill_qty_by_role = [], sn_extra_latency_us = 0\<rparr>"

definition scenario_from_name :: "string \<Rightarrow> scenario_config" where
  "scenario_from_name name =
     (let s = scenario_default\<lparr>sn_name := name, sn_description := name\<rparr> in
      if name = ''bse_buy_fills_nse_sell_reject''
      then s\<lparr>sn_reject_roles_once := insert AlphaSell (sn_reject_roles_once s)\<rparr>
      else if name = ''nse_sell_fills_bse_buy_reject''
      then s\<lparr>sn_reject_roles_once := insert AlphaBuy (sn_reject_roles_once s), sn_send_sell_first := True\<rparr>
      else if name = ''both_legs_partial''
      then s\<lparr>sn_max_fill_qty_by_role :=
               AList.update AlphaSell 20 (AList.update AlphaBuy 60 (sn_max_fill_qty_by_role s))\<rparr>
      else if name = ''buy_partial_sell_zero''
      then s\<lparr>sn_max_fill_qty_by_role := AList.update AlphaBuy 60 (sn_max_fill_qty_by_role s),
             sn_reject_roles_once := insert AlphaSell (sn_reject_roles_once s)\<rparr>
      else if name = ''gateway_disconnect_nse'' then s\<lparr>sn_disconnect_nse := True\<rparr>
      else if name = ''delayed_ack'' then s\<lparr>sn_delayed_ack := True\<rparr>
      else if name = ''manual_kill'' then s\<lparr>sn_manual_kill := True\<rparr>
      else s)"

definition should_reject :: "order_role \<Rightarrow> scenario_config \<Rightarrow> bool \<times> scenario_config" where
  "should_reject r s =
     (if r \<notin> sn_reject_roles_once s then (False, s)
      else (True, s\<lparr>sn_reject_roles_once := sn_reject_roles_once s - {r}\<rparr>))"

definition cap_fill_qty :: "order_role \<Rightarrow> i64 \<Rightarrow> scenario_config \<Rightarrow> i64" where
  "cap_fill_qty r requested s =
     (case map_of (sn_max_fill_qty_by_role s) r of None \<Rightarrow> requested | Some c \<Rightarrow> min requested c)"

definition disconnected :: "venue \<Rightarrow> scenario_config \<Rightarrow> bool" where
  "disconnected v s \<longleftrightarrow> (v = NSE \<and> sn_disconnect_nse s) \<or> (v = BSE \<and> sn_disconnect_bse s)"

section \<open>The matching engine\<close>

record matching_engine =
  me_books :: book_manager
  me_scenario :: scenario_config
  me_ticks :: nat

definition make_report :: "order \<Rightarrow> u64 \<Rightarrow> exec_type \<Rightarrow> i64 \<Rightarrow> i64 \<Rightarrow> string \<Rightarrow> execution_report" where
  "make_report o1 ts t px qty reason =
     \<lparr>er_type = t, er_client_order_id = or_client_order_id o1, er_parent_arb_id = oi_parent_arb_id (or_intent o1),
      er_instrument_id = oi_instrument_id (or_intent o1), er_venue = oi_venue (or_intent o1),
      er_side = oi_side (or_intent o1), er_price_paise = px, er_qty = qty, er_ts_ns = ts, er_reason = reason\<rparr>"

text \<open>The reports of an order that reached a book.\<close>

definition match_reports :: "order \<Rightarrow> u64 \<Rightarrow> bool \<Rightarrow> level_fill list \<Rightarrow> execution_report list" where
  "match_reports o1 ts delayed fs =
     (let px = oi_price_paise (or_intent o1); qty = oi_qty (or_intent o1);
          filled = foldl (\<lambda>a f. wrap64 (a + lf_qty f)) 0 fs
      in (if \<not> delayed then [make_report o1 ts ExAck px 0 []] else []) @
         map (\<lambda>f. make_report o1 ts ExFill (lf_price_paise f) (lf_qty f) []) fs @
         (if delayed then [make_report o1 ts ExAck px 0 ''DELAYED_ACK''] else []) @
         (if filled < qty then [make_report o1 ts ExExpire px (wrap64 (qty - filled)) ''IOC_REMAINDER_EXPIRED''] else []))"

definition matching_send ::
  "iteration_order \<Rightarrow> (nat \<Rightarrow> u64) \<Rightarrow> order \<Rightarrow> matching_engine \<Rightarrow> (execution_report list \<times> matching_engine) option" where
  "matching_send h clock o1 me0 =
     (let i = or_intent o1;
          ts = clock (me_ticks me0) + word_of_int (sn_extra_latency_us (me_scenario me0)) * 1000;
          me = me0\<lparr>me_ticks := Suc (me_ticks me0)\<rparr>
      in if disconnected (oi_venue i) (me_scenario me)
         then Some ([make_report o1 ts ExReject (oi_price_paise i) 0 ''GATEWAY_DISCONNECT''], me)
         else case should_reject (oi_role i) (me_scenario me) of (rej, sc) \<Rightarrow>
           let me1 = me\<lparr>me_scenario := sc\<rparr> in
           if rej then Some ([make_report o1 ts ExReject (oi_price_paise i) 0 ''SCENARIO_REJECT''], me1)
           else let capped = cap_fill_qty (oi_role i) (oi_qty i) sc in
             case bm_book (oi_venue i) (oi_instrument_id i) (me_books me1) of
               None \<Rightarrow> Some ([make_report o1 ts ExReject (oi_price_paise i) 0 ''NO_BOOK''], me1)
             | Some b \<Rightarrow>
                 (case match_ioc h (oi_side i) (oi_price_paise i) capped b of
                    None \<Rightarrow> None
                  | Some (fs, b') \<Rightarrow>
                      Some (match_reports o1 ts (sn_delayed_ack sc) fs,
                            me1\<lparr>me_books := bm_put_book (oi_venue i) (oi_instrument_id i) b' (me_books me1)\<rparr>)))"

section \<open>The engine honours the gateway contract\<close>

text \<open>Every book is well formed and no level exceeds \<open>V\<close>.\<close>

definition books_ok :: "int \<Rightarrow> book_manager \<Rightarrow> bool" where
  "books_ok V bm \<longleftrightarrow> 0 \<le> V \<and> (\<forall>k b. map_of (bm_books bm) k = Some b \<longrightarrow> book_ok b \<and> depth_bound V b)"

definition engine_ok :: "iteration_order \<Rightarrow> int \<Rightarrow> matching_engine \<Rightarrow> bool" where
  "engine_ok h V me \<longleftrightarrow> iteration_ok h \<and> books_ok V (me_books me)"

lemma books_ok_put: "books_ok V bm \<Longrightarrow> book_ok b \<Longrightarrow> depth_bound V b \<Longrightarrow> books_ok V (bm_put_book v i b bm)"
  by (auto simp: books_ok_def bm_put_book_def alist_simps simp del: map_of_eq_Some_iff split: if_splits)

lemma books_ok_book: "books_ok V bm \<Longrightarrow> bm_book v i bm = Some b \<Longrightarrow> book_ok b \<and> depth_bound V b"
  by (simp add: books_ok_def bm_book_def del: map_of_eq_Some_iff)

lemma cap_le: "cap_fill_qty r q s \<le> q"
  by (simp add: cap_fill_qty_def split: option.splits)

lemma foldl_filled:
  assumes "\<forall>f \<in> set fs. 0 < lf_qty f" and "0 \<le> a" and "a + fills_total fs \<le> i64_max"
  shows "foldl (\<lambda>a f. wrap64 (a + lf_qty f)) a fs = a + fills_total fs"
  using assms
proof (induction fs arbitrary: a)
  case (Cons f fs)
  have "0 \<le> fills_total fs" using fills_total_pos Cons.prems(1) by simp
  then have "wrap64 (a + lf_qty f) = a + lf_qty f" using Cons.prems by (intro wrap64_bounded) auto
  with Cons show ?case by simp
qed simp

lemma match_reports_protocol:
  assumes pos: "\<forall>f \<in> set fs. 0 < lf_qty f \<and> \<not> beyond_limit (oi_side (or_intent o1)) (oi_price_paise (or_intent o1)) (lf_price_paise f)"
    and le: "fills_total fs \<le> oi_qty (or_intent o1)" and q: "oi_qty (or_intent o1) \<le> i64_max"
  shows "report_protocol o1 (match_reports o1 ts d fs)"
proof -
  let ?r = "make_report o1 ts" and ?px = "oi_price_paise (or_intent o1)" and ?q = "oi_qty (or_intent o1)"
  let ?fills = "map (\<lambda>f. ?r ExFill (lf_price_paise f) (lf_qty f) []) fs"
  let ?ms = "(if \<not> d then [?r ExAck ?px 0 []] else []) @ ?fills @ (if d then [?r ExAck ?px 0 ''DELAYED_ACK''] else [])"
  have filled: "foldl (\<lambda>a f. wrap64 (a + lf_qty f)) 0 fs = fills_total fs"
    using foldl_filled [of fs 0] pos le q by simp
  have "fill_sum ?fills = fills_total fs"
    by (induction fs) (auto simp: make_report_def is_fill_def)
  then have sum: "fill_sum ?ms = fills_total fs" by (simp add: make_report_def is_fill_def)
  have ms: "list_all ack_or_fill ?ms" using pos by (auto simp: list_all_iff ack_or_fill_def make_report_def)
  define tl where "tl = (if fills_total fs < ?q
    then [?r ExExpire ?px (wrap64 (?q - fills_total fs)) ''IOC_REMAINDER_EXPIRED''] else [])"
  have rs: "match_reports o1 ts d fs = ?ms @ tl"
    unfolding match_reports_def Let_def filled tl_def by simp
  have "list_all (\<lambda>r. er_client_order_id r = or_client_order_id o1) (?ms @ tl)"
    by (auto simp: list_all_iff make_report_def tl_def)
  moreover have "list_all (\<lambda>r. is_fill r \<longrightarrow> \<not> beyond_limit (oi_side (or_intent o1)) ?px (er_price_paise r)) (?ms @ tl)"
    using pos by (auto simp: list_all_iff make_report_def tl_def is_fill_def)
  moreover have "if fill_sum ?ms < ?q then \<exists>r. tl = [r] \<and> er_type r = ExExpire else tl = []"
    unfolding sum tl_def by (simp add: make_report_def)
  moreover have "fill_sum ?ms \<le> ?q" using sum le by simp
  ultimately show ?thesis
    unfolding report_protocol_def rs by (intro conjI disjI2 exI [of _ ?ms] exI [of _ tl] refl ms)
qed

lemma reject_protocol: "report_protocol o1 [make_report o1 ts ExReject px 0 reason]"
  by (simp add: report_protocol_def make_report_def is_fill_def)

lemma ioc_depth_bound:
  assumes "ioc_spec a lim q b fs b'" and "depth_bound V b"
  shows "depth_bound V b'"
proof -
  have "depth_at sd px b' \<le> V" for sd px
    using ioc_specD(5) [OF assms(1), of sd px] fills_at_nonneg [OF ioc_specD(1) [OF assms(1)], of px]
      depth_boundD [OF assms(2), of sd px] by auto
  then show ?thesis by (simp add: depth_bound_def)
qed

lemma match_ioc_any:
  assumes "book_ok b \<and> depth_bound V b" and "iteration_ok h" and "sd \<noteq> SUnknown" and "0 < lim" and "q \<le> i64_max"
  shows "\<exists>fs b'. match_ioc h sd lim q b = Some (fs, b') \<and> book_ok b' \<and> depth_bound V b' \<and> fills_total fs \<le> max 0 q \<and>
    (\<forall>f \<in> set fs. 0 < lf_qty f \<and> \<not> beyond_limit sd lim (lf_price_paise f))"
proof (cases "0 < q")
  case True
  have "sd = Buy \<or> sd = Sell" using assms(3) by (cases sd) simp_all
  from weak.match_ioc_spec [OF assms(1) [THEN conjunct1, unfolded book_ok_def] assms(2) this True assms(5,4)]
  obtain fs b' where m: "match_ioc h sd lim q b = Some (fs, b')" "ioc_spec sd lim q b fs b'" "book_ok b'"
    by (auto simp: book_ok_def)
  with assms(1) have "depth_bound V b'" by (blast intro: ioc_depth_bound)
  with m ioc_specD(1,2,4) [OF m(2)] True show ?thesis by fastforce
next
  case False
  with assms(1) show ?thesis by (auto simp: match_ioc_def)
qed

interpretation matching: order_gateway "matching_send h clock" "engine_ok h V" for h clock V
proof
  fix g :: matching_engine and o1 :: order
  assume g: "engine_ok h V g" and o1: "sendable (or_intent o1)"
  let ?i = "or_intent o1"
  define ts where "ts = clock (me_ticks g) + word_of_int (sn_extra_latency_us (me_scenario g)) * 1000"
  obtain rej sc where rej: "should_reject (oi_role ?i) (me_scenario g) = (rej, sc)" by force
  have ok: "iteration_ok h" "books_ok V (me_books g)" using g by (simp_all add: engine_ok_def)
  show "\<exists>rs g'. matching_send h clock o1 g = Some (rs, g') \<and> engine_ok h V g' \<and> report_protocol o1 rs"
  proof (cases "\<not> disconnected (oi_venue ?i) (me_scenario g) \<and> \<not> rej")
    case False
    then show ?thesis
      using ok rej reject_protocol by (auto simp: matching_send_def Let_def engine_ok_def)
  next
    case True
    show ?thesis
    proof (cases "bm_book (oi_venue ?i) (oi_instrument_id ?i) (me_books g)")
      case None
      then show ?thesis using True ok rej reject_protocol by (auto simp: matching_send_def Let_def engine_ok_def)
    next
      case (Some b)
      let ?cap = "cap_fill_qty (oi_role ?i) (oi_qty ?i) sc"
      have cap: "?cap \<le> oi_qty ?i" by (rule cap_le)
      then have capm: "?cap \<le> i64_max" using o1 by (simp add: sendable_def)
      obtain fs b' where m: "match_ioc h (oi_side ?i) (oi_price_paise ?i) ?cap b = Some (fs, b')" "book_ok b'"
        "depth_bound V b'" "fills_total fs \<le> max 0 ?cap"
        "\<forall>f \<in> set fs. 0 < lf_qty f \<and> \<not> beyond_limit (oi_side ?i) (oi_price_paise ?i) (lf_price_paise f)"
        using match_ioc_any [OF books_ok_book [OF ok(2) Some] ok(1) _ _ capm, of "oi_side ?i" "oi_price_paise ?i"] o1
        unfolding sendable_def by blast
      have "report_protocol o1 (match_reports o1 ts (sn_delayed_ack sc) fs)"
        using m(4,5) cap o1 by (intro match_reports_protocol) (auto simp: sendable_def)
      with True Some rej m(1-3) ok show ?thesis
        by (auto simp: matching_send_def Let_def engine_ok_def books_ok_put ts_def)
    qed
  qed
qed

section \<open>Properties\<close>

definition sample_engine :: matching_engine where
  "sample_engine = \<lparr>me_books = bm_put_book NSE 1 (apply_events sample_stream (new_book NSE 1)) new_book_manager,
     me_scenario = scenario_default, me_ticks = 0\<rparr>"

lemma sample_engine_ok: "engine_ok rev i64_max sample_engine"
proof -
  have "depth_bound i64_max (apply_events sample_stream (new_book NSE 1))"
    using sample_book_ok depth_at_max unfolding book_ok_def depth_bound_def book_agrees_def by blast
  then have "books_ok i64_max (me_books sample_engine)"
    unfolding sample_engine_def using sample_book_ok
    by simp (rule books_ok_put, simp_all add: books_ok_def new_book_manager_def)
  then show ?thesis by (simp add: engine_ok_def)
qed

text \<open>
  C4: an order is settled when its submission returns. On well-formed books, for any
  scenario, clock and hash iteration order, submitting an order with positive quantity and
  price to the matching engine returns; the order is then filled, partially filled,
  rejected or expired - filled exactly when its whole quantity was filled, partial exactly
  when some of it was - and never overfilled; the fills recorded carry its side, venue and
  instrument, are positive and within its limit price, sum up to its filled quantity and
  are exactly what the positions changed by; all other orders and the books' invariants
  are kept.
\<close>

theorem order_settles:
  assumes "ids_ok om" and "ig_order_seq (om_ids om) \<noteq> - 1" and "engine_ok h V me" and "sendable i"
  shows "\<exists>o1 s' me'. om_submit (matching_send h clock) i now (om, pos) me = Some (o1, s', me') \<and>
    engine_ok h V me' \<and> submitted i (om, pos) o1 s'"
  using assms by (rule matching.submit_ok)

theorem order_settles_witness:
  "\<exists>o1 s' me'. om_submit (matching_send rev (\<lambda>n. of_nat n)) (sample_intent\<lparr>oi_price_paise := 105\<rparr>) 7
      (new_order_manager, []) sample_engine = Some (o1, s', me') \<and> engine_ok rev i64_max me' \<and>
    submitted (sample_intent\<lparr>oi_price_paise := 105\<rparr>) (new_order_manager, []) o1 s'"
proof (rule order_settles [OF _ _ sample_engine_ok])
  show "ids_ok new_order_manager" by (simp add: ids_ok_def new_order_manager_def)
  show "ig_order_seq (om_ids new_order_manager) \<noteq> - 1" by code_simp
  show "sendable (sample_intent\<lparr>oi_price_paise := 105\<rparr>)" by code_simp
qed

end
