(* ===== verification/Strategy.thy ===== *)
theory Strategy
  imports Order_Book Config
begin

text \<open>
  \<^verbatim>\<open>src/strategy/arbitrage_strategy.cpp\<close>: the decision to buy at one venue and sell at the
  other. The properties compare the decision with the trade it stands for, in unbounded
  integers, for money amounts that are far from the 64-bit limits.
\<close>

section \<open>Definitions\<close>

record strategy_config =
  st_min_net_edge_paise :: i64
  st_max_qty :: i64
  st_max_book_age_us :: u32
  st_min_visible_qty :: i64

definition default_strategy_config :: strategy_config where
  "default_strategy_config = \<lparr>st_min_net_edge_paise = 5, st_max_qty = 100, st_max_book_age_us = 250,
                              st_min_visible_qty = 1\<rparr>"

record arb_opportunity =
  ao_parent_arb_id :: string
  ao_ts_decision_ns :: u64
  ao_instrument_id :: u32
  ao_buy_venue :: venue
  ao_sell_venue :: venue
  ao_buy_price_paise :: i64
  ao_sell_price_paise :: i64
  ao_gross_spread_paise :: i64
  ao_net_edge_paise :: i64
  ao_qty :: i64
  ao_reason :: string

definition empty_opportunity :: arb_opportunity where
  "empty_opportunity =
     \<lparr>ao_parent_arb_id = [], ao_ts_decision_ns = 0, ao_instrument_id = 0, ao_buy_venue = VUnknown,
      ao_sell_venue = VUnknown, ao_buy_price_paise = 0, ao_sell_price_paise = 0, ao_gross_spread_paise = 0,
      ao_net_edge_paise = 0, ao_qty = 0, ao_reason = []\<rparr>"

record strategy_decision =
  sd_should_trade :: bool
  sd_opportunity :: arb_opportunity
  sd_reason :: string
  sd_best_gross_spread_paise :: i64
  sd_best_net_edge_paise :: i64

definition make_no_trade :: "string \<Rightarrow> i64 \<Rightarrow> i64 \<Rightarrow> strategy_decision" where
  "make_no_trade reason gross net =
     \<lparr>sd_should_trade = False, sd_opportunity = empty_opportunity, sd_reason = reason,
      sd_best_gross_spread_paise = gross, sd_best_net_edge_paise = net\<rparr>"

text \<open>The lambda \<open>try_direction\<close>, with what it captures as arguments.\<close>

definition try_direction ::
  "strategy_config \<Rightarrow> cost_model \<Rightarrow> u64 \<Rightarrow> u32 \<Rightarrow> venue \<Rightarrow> venue \<Rightarrow> i64 \<Rightarrow> i64 \<Rightarrow> i64 \<Rightarrow> i64 \<Rightarrow> arb_opportunity" where
  "try_direction cfg costs now_ns instr buy_venue sell_venue buy_px buy_qty sell_px sell_qty =
     (let gross = wrap64 (sell_px - buy_px) in
      \<lparr>ao_parent_arb_id = [], ao_ts_decision_ns = now_ns, ao_instrument_id = instr,
       ao_buy_venue = buy_venue, ao_sell_venue = sell_venue, ao_buy_price_paise = buy_px,
       ao_sell_price_paise = sell_px, ao_gross_spread_paise = gross,
       ao_net_edge_paise = wrap64 (gross - all_in_cost_paise costs),
       ao_qty = min buy_qty (min sell_qty (st_max_qty cfg)), ao_reason = ''NET_EDGE_POSITIVE''\<rparr>)"

definition evaluate :: "strategy_config \<Rightarrow> best_quote \<Rightarrow> best_quote \<Rightarrow> cost_model \<Rightarrow> u64 \<Rightarrow> strategy_decision" where
  "evaluate cfg nse bse costs now_ns =
     (if \<not> quote_valid nse \<or> \<not> quote_valid bse then make_no_trade ''INVALID_QUOTE'' 0 0
      else if q_instrument_id nse \<noteq> q_instrument_id bse then make_no_trade ''INSTRUMENT_MISMATCH'' 0 0
      else if q_book_age_us nse > st_max_book_age_us cfg \<or> q_book_age_us bse > st_max_book_age_us cfg
      then make_no_trade ''STALE_BOOK'' 0 0
      else
        let dir = try_direction cfg costs now_ns (q_instrument_id nse);
            a = dir BSE NSE (q_ask_px_paise bse) (q_ask_qty bse) (q_bid_px_paise nse) (q_bid_qty nse);
            b = dir NSE BSE (q_ask_px_paise nse) (q_ask_qty nse) (q_bid_px_paise bse) (q_bid_qty bse);
            best = (if ao_net_edge_paise a \<ge> ao_net_edge_paise b then a else b)
        in if ao_qty best < st_min_visible_qty cfg
           then make_no_trade ''INSUFFICIENT_DEPTH'' (ao_gross_spread_paise best) (ao_net_edge_paise best)
           else let threshold = max (st_min_net_edge_paise cfg) (cm_min_net_edge_paise costs)
                in if ao_net_edge_paise best < threshold
                   then make_no_trade ''EDGE_TOO_SMALL'' (ao_gross_spread_paise best) (ao_net_edge_paise best)
                   else \<lparr>sd_should_trade = True, sd_opportunity = best, sd_reason = ao_reason best,
                         sd_best_gross_spread_paise = ao_gross_spread_paise best,
                         sd_best_net_edge_paise = ao_net_edge_paise best\<rparr>)"

section \<open>Exact edges\<close>

definition edge_of :: "cost_model \<Rightarrow> best_quote \<Rightarrow> best_quote \<Rightarrow> int" where
  "edge_of costs buy_at sell_at = q_bid_px_paise sell_at - q_ask_px_paise buy_at - true_cost costs"

definition sane_quote :: "best_quote \<Rightarrow> bool" where
  "sane_quote q \<longleftrightarrow> sane_money (q_bid_px_paise q) \<and> sane_money (q_ask_px_paise q)"

lemma sane_edge:
  assumes "sane_money buy_px" and "sane_money sell_px" and "sane_costs c"
  shows "wrap64 (sell_px - buy_px) = sell_px - buy_px"
    and "wrap64 (sell_px - buy_px - all_in_cost_paise c) = sell_px - buy_px - true_cost c"
  using assms true_cost_bound [OF assms(3)] all_in_cost_exact [OF assms(3)]
  by (auto simp: sane_money_def intro!: wrap64_bounded)

lemma try_direction_edge:
  assumes "sane_quote buy_at" and "sane_quote sell_at" and "sane_costs c"
  shows "ao_net_edge_paise (try_direction cfg c now i bv sv (q_ask_px_paise buy_at) bq (q_bid_px_paise sell_at) sq)
    = edge_of c buy_at sell_at"
  using sane_edge [of "q_ask_px_paise buy_at" "q_bid_px_paise sell_at" c] assms
  by (simp add: try_direction_def Let_def edge_of_def sane_quote_def)

text \<open>
  The specification: among the two directions the one with the larger true edge, the first
  on a tie; traded when both quotes are valid, of one instrument and fresh, the common
  quantity is visible and the edge reaches both thresholds.
\<close>

type_synonym arb_trade = "venue \<times> venue \<times> int \<times> int \<times> int \<times> int"

definition spec_direction :: "strategy_config \<Rightarrow> cost_model \<Rightarrow> venue \<Rightarrow> venue \<Rightarrow> best_quote \<Rightarrow> best_quote \<Rightarrow> arb_trade" where
  "spec_direction cfg c bv sv buy_at sell_at =
     (bv, sv, q_ask_px_paise buy_at, q_bid_px_paise sell_at, edge_of c buy_at sell_at,
      min (q_ask_qty buy_at) (min (q_bid_qty sell_at) (st_max_qty cfg)))"

definition spec_trade :: "strategy_config \<Rightarrow> best_quote \<Rightarrow> best_quote \<Rightarrow> cost_model \<Rightarrow> arb_trade option" where
  "spec_trade cfg nse bse c =
     (let t = (if edge_of c bse nse \<ge> edge_of c nse bse then spec_direction cfg c BSE NSE bse nse
               else spec_direction cfg c NSE BSE nse bse)
      in case t of (_, _, _, _, edge, qty) \<Rightarrow>
         if quote_valid nse \<and> quote_valid bse \<and> q_instrument_id nse = q_instrument_id bse \<and>
            q_book_age_us nse \<le> st_max_book_age_us cfg \<and> q_book_age_us bse \<le> st_max_book_age_us cfg \<and>
            st_min_visible_qty cfg \<le> qty \<and> st_min_net_edge_paise cfg \<le> edge \<and> cm_min_net_edge_paise c \<le> edge
         then Some t else None)"

definition decided_trade :: "strategy_decision \<Rightarrow> arb_trade option" where
  "decided_trade d = (let o1 = sd_opportunity d in
     if sd_should_trade d
     then Some (ao_buy_venue o1, ao_sell_venue o1, ao_buy_price_paise o1, ao_sell_price_paise o1,
                ao_net_edge_paise o1, ao_qty o1)
     else None)"

lemma direction_refines:
  fixes cfg :: strategy_config and now :: u64 and i :: u32 and bv sv :: venue
  assumes "sane_quote buy_at" and "sane_quote sell_at" and "sane_costs c"
  defines "o1 \<equiv> try_direction cfg c now i bv sv (q_ask_px_paise buy_at) (q_ask_qty buy_at)
     (q_bid_px_paise sell_at) (q_bid_qty sell_at)"
  shows "(ao_buy_venue o1, ao_sell_venue o1, ao_buy_price_paise o1, ao_sell_price_paise o1,
          ao_net_edge_paise o1, ao_qty o1) = spec_direction cfg c bv sv buy_at sell_at"
    and "ao_net_edge_paise o1 = edge_of c buy_at sell_at"
  using try_direction_edge [OF assms(1-3)]
  by (simp_all add: o1_def spec_direction_def) (simp_all add: try_direction_def Let_def)

lemma evaluate_refines:
  assumes "sane_quote nse" and "sane_quote bse" and "sane_costs c"
  shows "decided_trade (evaluate cfg nse bse c now) = spec_trade cfg nse bse c"
proof -
  define A where "A = try_direction cfg c now (q_instrument_id nse) BSE NSE (q_ask_px_paise bse) (q_ask_qty bse)
    (q_bid_px_paise nse) (q_bid_qty nse)"
  define B where "B = try_direction cfg c now (q_instrument_id nse) NSE BSE (q_ask_px_paise nse) (q_ask_qty nse)
    (q_bid_px_paise bse) (q_bid_qty bse)"
  have A: "spec_direction cfg c BSE NSE bse nse = (ao_buy_venue A, ao_sell_venue A, ao_buy_price_paise A,
      ao_sell_price_paise A, ao_net_edge_paise A, ao_qty A)" "edge_of c bse nse = ao_net_edge_paise A"
    using direction_refines [OF assms(2,1,3)] unfolding A_def by metis+
  have B: "spec_direction cfg c NSE BSE nse bse = (ao_buy_venue B, ao_sell_venue B, ao_buy_price_paise B,
      ao_sell_price_paise B, ao_net_edge_paise B, ao_qty B)" "edge_of c nse bse = ao_net_edge_paise B"
    using direction_refines [OF assms(1,2,3)] unfolding B_def by metis+
  show ?thesis
    unfolding spec_trade_def A B evaluate_def Let_def A_def [symmetric] B_def [symmetric]
    by (cases "ao_net_edge_paise B \<le> ao_net_edge_paise A") (auto simp: decided_trade_def make_no_trade_def Let_def)
qed

section \<open>Properties\<close>

definition sample_quote :: "venue \<Rightarrow> i64 \<Rightarrow> i64 \<Rightarrow> best_quote" where
  "sample_quote v bid ask = \<lparr>q_venue = v, q_instrument_id = 1, q_bid_px_paise = bid, q_bid_qty = 40,
     q_ask_px_paise = ask, q_ask_qty = 60, q_book_age_us = 10\<rparr>"

definition sample_costs :: cost_model where
  "sample_costs = \<lparr>cm_fees_paise_per_share = 5, cm_taxes_paise_per_share = 5, cm_slippage_buffer_paise = 5,
     cm_latency_buffer_paise = 5, cm_hedge_risk_buffer_paise = 10, cm_min_net_edge_paise = 5\<rparr>"

text \<open>
  C23: the strategy decides exactly as specified. For quotes and costs far from the 64-bit
  limits, \<open>evaluate\<close> trades if and only if both quotes are valid, of the same instrument and
  fresh, and the better of the two directions - by the true edge after all costs - has the
  required depth and edge; the trade it returns is that direction with its prices, edge
  and the quantity available on both sides, capped by the configured maximum.
\<close>

theorem strategy_decides_as_specified:
  assumes "sane_quote nse" and "sane_quote bse" and "sane_costs c"
  shows "decided_trade (evaluate cfg nse bse c now) = spec_trade cfg nse bse c"
  using assms by (rule evaluate_refines)

theorem strategy_decides_as_specified_witness:
  "decided_trade (evaluate default_strategy_config (sample_quote NSE 10150 10160) (sample_quote BSE 10040 10050)
     sample_costs 7) = Some (BSE, NSE, 10050, 10150, 60, 40)"
  by (subst strategy_decides_as_specified)
    (simp_all add: sane_quote_def sane_money_def sane_costs_def sample_quote_def sample_costs_def spec_trade_def
      spec_direction_def edge_of_def true_cost_def quote_valid_def default_strategy_config_def word_le_nat_alt)

text \<open>
  C24: a trade the strategy proposes is profitable. It buys and sells the same quantity at
  two different venues, no more than either side shows and than the configured maximum,
  and the proceeds minus the outlay and all costs of that quantity reach the configured
  edge for every share; the opposite direction would not earn more.
\<close>

theorem proposed_trade_profitable:
  assumes "sane_quote nse" and "sane_quote bse" and "sane_costs c"
    and "sd_should_trade (evaluate cfg nse bse c now)" and "1 \<le> st_min_visible_qty cfg"
  defines "t \<equiv> sd_opportunity (evaluate cfg nse bse c now)"
  shows "ao_sell_venue t = other_venue (ao_buy_venue t) \<and> ao_buy_venue t \<noteq> VUnknown \<and>
    1 \<le> ao_qty t \<and> ao_qty t \<le> st_max_qty cfg \<and>
    ao_qty t \<le> (if ao_buy_venue t = NSE then q_ask_qty nse else q_ask_qty bse) \<and>
    ao_qty t \<le> (if ao_sell_venue t = NSE then q_bid_qty nse else q_bid_qty bse) \<and>
    ao_qty t * ao_sell_price_paise t - ao_qty t * ao_buy_price_paise t - ao_qty t * true_cost c
      \<ge> ao_qty t * st_min_net_edge_paise cfg \<and>
    ao_net_edge_paise t = max (edge_of c nse bse) (edge_of c bse nse)"
proof -
  have "\<exists>x. spec_trade cfg nse bse c = Some x \<and> x = (ao_buy_venue t, ao_sell_venue t, ao_buy_price_paise t,
      ao_sell_price_paise t, ao_net_edge_paise t, ao_qty t)"
    using evaluate_refines [OF assms(1-3), of cfg now] assms(4) by (simp add: decided_trade_def t_def Let_def)
  then have sp: "ao_sell_venue t = other_venue (ao_buy_venue t)" "ao_buy_venue t \<noteq> VUnknown"
    "st_min_visible_qty cfg \<le> ao_qty t" "ao_qty t \<le> st_max_qty cfg"
    "ao_qty t \<le> (if ao_buy_venue t = NSE then q_ask_qty nse else q_ask_qty bse)"
    "ao_qty t \<le> (if ao_sell_venue t = NSE then q_bid_qty nse else q_bid_qty bse)"
    "st_min_net_edge_paise cfg \<le> ao_sell_price_paise t - ao_buy_price_paise t - true_cost c"
    "ao_net_edge_paise t = max (edge_of c nse bse) (edge_of c bse nse)"
    by (auto simp: spec_trade_def spec_direction_def edge_of_def Let_def split: if_splits)
  then have "0 \<le> ao_qty t" using assms(5) by linarith
  with sp(7) have "ao_qty t * st_min_net_edge_paise cfg
      \<le> ao_qty t * (ao_sell_price_paise t - ao_buy_price_paise t - true_cost c)"
    by (rule mult_left_mono)
  with sp assms(5) show ?thesis by (simp add: right_diff_distrib)
qed

theorem proposed_trade_profitable_witness:
  defines "t \<equiv> sd_opportunity (evaluate default_strategy_config (sample_quote NSE 10150 10160)
     (sample_quote BSE 10040 10050) sample_costs 7)"
  shows "ao_sell_venue t = other_venue (ao_buy_venue t) \<and>
    ao_qty t * ao_sell_price_paise t - ao_qty t * ao_buy_price_paise t - ao_qty t * true_cost sample_costs \<ge> ao_qty t * 5"
proof -
  have s: "sane_quote (sample_quote NSE 10150 10160)" "sane_quote (sample_quote BSE 10040 10050)" "sane_costs sample_costs"
    by (simp_all add: sane_quote_def sane_money_def sane_costs_def sample_quote_def sample_costs_def)
  have "sd_should_trade (evaluate default_strategy_config (sample_quote NSE 10150 10160)
     (sample_quote BSE 10040 10050) sample_costs 7)" by code_simp
  from proposed_trade_profitable [OF s this] show ?thesis
    by (simp add: t_def default_strategy_config_def)
qed

end
