(* ===== verification/Pair_Hedge.thy ===== *)
theory Pair_Hedge
  imports Oms Strategy
begin

text \<open>
  \<^verbatim>\<open>src/hedge\<close>: the pair trade, which follows the two legs of an arbitrage and its hedges, and
  the hedge policy, which decides the next order that brings the residual towards zero.
  Signed division truncates, \<open>sdiv\<close>.
\<close>

section \<open>The pair trade\<close>

datatype pair_state = PsPlanned | PsSentLegA | PsSentLegB | PsPartialA | PsPartialB | PsHedging | PsFlat
  | PsErrorRecovery | PsKillSwitch

fun pair_state_to_string :: "pair_state \<Rightarrow> string" where
  "pair_state_to_string PsPlanned = ''PLANNED''"
| "pair_state_to_string PsSentLegA = ''SENT_LEG_A''"
| "pair_state_to_string PsSentLegB = ''SENT_LEG_B''"
| "pair_state_to_string PsPartialA = ''PARTIAL_A''"
| "pair_state_to_string PsPartialB = ''PARTIAL_B''"
| "pair_state_to_string PsHedging = ''HEDGING''"
| "pair_state_to_string PsFlat = ''FLAT''"
| "pair_state_to_string PsErrorRecovery = ''ERROR_RECOVERY''"
| "pair_state_to_string PsKillSwitch = ''KILL_SWITCH''"

record pair_trade =
  pt_parent_id :: string
  pt_instrument_id :: u32
  pt_intended_buy_venue :: venue
  pt_intended_sell_venue :: venue
  pt_intended_qty :: i64
  pt_bought_qty :: i64
  pt_sold_qty :: i64
  pt_bought_notional_paise :: i64
  pt_sold_notional_paise :: i64
  pt_hedge_attempts :: i32
  pt_ts_created_ns :: u64
  pt_ts_last_update_ns :: u64
  pt_state :: pair_state
  pt_last_error :: string

definition from_opportunity :: "arb_opportunity \<Rightarrow> pair_trade" where
  "from_opportunity o1 =
     \<lparr>pt_parent_id = ao_parent_arb_id o1, pt_instrument_id = ao_instrument_id o1,
      pt_intended_buy_venue = ao_buy_venue o1, pt_intended_sell_venue = ao_sell_venue o1,
      pt_intended_qty = ao_qty o1, pt_bought_qty = 0, pt_sold_qty = 0, pt_bought_notional_paise = 0,
      pt_sold_notional_paise = 0, pt_hedge_attempts = 0, pt_ts_created_ns = ao_ts_decision_ns o1,
      pt_ts_last_update_ns = ao_ts_decision_ns o1, pt_state = PsPlanned, pt_last_error = []\<rparr>"

definition residual :: "pair_trade \<Rightarrow> i64" where
  "residual p = wrap64 (pt_bought_qty p - pt_sold_qty p)"

definition pair_apply_fill :: "fill \<Rightarrow> pair_trade \<Rightarrow> pair_trade" where
  "pair_apply_fill f p0 =
     (let p = p0\<lparr>pt_ts_last_update_ns := fl_ts_fill_ns f\<rparr>;
          p1 = (if fl_side f = Buy
                then p\<lparr>pt_bought_qty := wrap64 (pt_bought_qty p + fl_fill_qty f),
                       pt_bought_notional_paise :=
                         wrap64 (pt_bought_notional_paise p + wrap64 (fl_fill_qty f * fl_fill_px_paise f))\<rparr>
                else if fl_side f = Sell
                then p\<lparr>pt_sold_qty := wrap64 (pt_sold_qty p + fl_fill_qty f),
                       pt_sold_notional_paise :=
                         wrap64 (pt_sold_notional_paise p + wrap64 (fl_fill_qty f * fl_fill_px_paise f))\<rparr>
                else p)
      in if residual p1 = 0 \<and> (pt_bought_qty p1 > 0 \<or> pt_sold_qty p1 > 0)
         then p1\<lparr>pt_state := PsFlat\<rparr> else p1\<lparr>pt_state := PsHedging\<rparr>)"

definition mark_leg_failed :: "string \<Rightarrow> u64 \<Rightarrow> pair_trade \<Rightarrow> pair_trade" where
  "mark_leg_failed reason ts p0 =
     (let p = p0\<lparr>pt_last_error := reason, pt_ts_last_update_ns := ts\<rparr>
      in if residual p = 0 then p\<lparr>pt_state := PsFlat\<rparr> else p\<lparr>pt_state := PsHedging\<rparr>)"

definition avg_buy_px :: "pair_trade \<Rightarrow> i64" where
  "avg_buy_px p = (if pt_bought_qty p = 0 then 0 else wrap64 (pt_bought_notional_paise p sdiv pt_bought_qty p))"

definition avg_sell_px :: "pair_trade \<Rightarrow> i64" where
  "avg_sell_px p = (if pt_sold_qty p = 0 then 0 else wrap64 (pt_sold_notional_paise p sdiv pt_sold_qty p))"

definition pair_flat :: "pair_trade \<Rightarrow> bool" where
  "pair_flat p \<longleftrightarrow> residual p = 0"

section \<open>The hedge policy\<close>

record hedge_decision =
  hd_should_send :: bool
  hd_kill :: bool
  hd_intent :: order_intent
  hd_reason :: string
  hd_estimated_loss_paise :: i64

definition no_hedge :: "bool \<Rightarrow> string \<Rightarrow> i64 \<Rightarrow> hedge_decision" where
  "no_hedge kill reason loss =
     \<lparr>hd_should_send = False, hd_kill = kill, hd_intent = empty_intent, hd_reason = reason,
      hd_estimated_loss_paise = loss\<rparr>"

definition candidate_for_venue :: "risk_config \<Rightarrow> pair_trade \<Rightarrow> venue \<Rightarrow> best_quote \<Rightarrow> hedge_decision" where
  "candidate_for_venue cfg p v q =
     (if \<not> quote_valid q then no_hedge False ''INVALID_HEDGE_QUOTE'' 0
      else if q_book_age_us q > rc_max_book_age_us cfg then no_hedge False ''STALE_HEDGE_QUOTE'' 0
      else
        let r = residual p;
            base = empty_intent\<lparr>oi_parent_arb_id := pt_parent_id p, oi_instrument_id := pt_instrument_id p,
                     oi_venue := v, oi_order_type := LimitOrder, oi_tif := IOC, oi_role := Hedge\<rparr>;
            (intent, loss) =
              (if r > 0
               then let i = base\<lparr>oi_side := Sell, oi_price_paise := q_bid_px_paise q,
                                 oi_qty := min r (min (q_bid_qty q) (rc_max_order_qty cfg))\<rparr>;
                        ref = avg_buy_px p
                    in (i, if ref > oi_price_paise i then wrap64 (wrap64 (ref - oi_price_paise i) * oi_qty i) else 0)
               else let need = wrap64 (- r);
                        i = base\<lparr>oi_side := Buy, oi_price_paise := q_ask_px_paise q,
                                 oi_qty := min need (min (q_ask_qty q) (rc_max_order_qty cfg))\<rparr>;
                        ref = avg_sell_px p
                    in (i, if ref > 0 \<and> oi_price_paise i > ref
                           then wrap64 (wrap64 (oi_price_paise i - ref) * oi_qty i) else 0))
        in if oi_qty intent \<le> 0 then no_hedge False ''NO_HEDGE_DEPTH'' 0
           else if loss > rc_max_hedge_loss_paise cfg \<and> \<not> rc_force_flatten_on_max_loss cfg
           then no_hedge True ''MAX_HEDGE_LOSS'' loss
           else \<lparr>hd_should_send = True, hd_kill = False, hd_intent = intent, hd_reason = ''HEDGE_ORDER'',
                 hd_estimated_loss_paise = loss\<rparr>)"

definition hedge_next_order :: "risk_config \<Rightarrow> pair_trade \<Rightarrow> best_quote \<Rightarrow> best_quote \<Rightarrow> hedge_decision" where
  "hedge_next_order cfg p nse bse =
     (if residual p = 0 then no_hedge False ''ALREADY_FLAT'' 0
      else if pt_hedge_attempts p \<ge> rc_max_hedge_attempts cfg then no_hedge True ''MAX_HEDGE_ATTEMPTS'' 0
      else
        let preferred = (if residual p > 0 then pt_intended_sell_venue p else pt_intended_buy_venue p);
            fallback = other_venue preferred;
            d1 = candidate_for_venue cfg p preferred (if preferred = NSE then nse else bse)
        in if hd_should_send d1 \<or> hd_kill d1 then d1
           else let d2 = candidate_for_venue cfg p fallback (if fallback = NSE then nse else bse)
                in if hd_should_send d2 \<or> hd_kill d2 then d2
                   else no_hedge True ''NO_SAFE_HEDGE_QUOTE'' 0)"

section \<open>What a hedge order is\<close>

definition quote_of :: "venue \<Rightarrow> best_quote \<Rightarrow> best_quote \<Rightarrow> best_quote" where
  "quote_of v nse bse = (if v = NSE then nse else bse)"

text \<open>The true loss of a hedge against the average price of the leg it closes.\<close>

definition true_loss :: "pair_trade \<Rightarrow> order_intent \<Rightarrow> int" where
  "true_loss p i =
     (if oi_side i = Sell then max 0 ((avg_buy_px p - oi_price_paise i) * oi_qty i)
      else if avg_sell_px p > 0 then max 0 ((oi_price_paise i - avg_sell_px p) * oi_qty i) else 0)"

definition hedges :: "risk_config \<Rightarrow> pair_trade \<Rightarrow> best_quote \<Rightarrow> venue \<Rightarrow> order_intent \<Rightarrow> bool" where
  "hedges cfg p q v i \<longleftrightarrow>
     quote_valid q \<and> q_book_age_us q \<le> rc_max_book_age_us cfg \<and>
     oi_parent_arb_id i = pt_parent_id p \<and> oi_instrument_id i = pt_instrument_id p \<and> oi_venue i = v \<and>
     oi_role i = Hedge \<and> oi_tif i = IOC \<and>
     oi_side i = (if residual p > 0 then Sell else Buy) \<and>
     oi_price_paise i = (if residual p > 0 then q_bid_px_paise q else q_ask_px_paise q) \<and>
     0 < oi_qty i \<and> oi_qty i \<le> \<bar>residual p\<bar> \<and> oi_qty i \<le> rc_max_order_qty cfg \<and>
     oi_qty i \<le> (if residual p > 0 then q_bid_qty q else q_ask_qty q) \<and>
     (rc_force_flatten_on_max_loss cfg \<or> true_loss p i \<le> rc_max_hedge_loss_paise cfg)"

text \<open>Prices and averages far from the 64-bit limits and a moderate order size.\<close>

definition hedge_sane :: "risk_config \<Rightarrow> pair_trade \<Rightarrow> best_quote \<Rightarrow> bool" where
  "hedge_sane cfg p q \<longleftrightarrow> sane_quote q \<and> sane_money (avg_buy_px p) \<and> sane_money (avg_sell_px p) \<and>
     rc_max_order_qty cfg \<le> 1000 \<and> 0 \<le> rc_max_hedge_loss_paise cfg \<and> residual p \<noteq> i64_min"

lemma wrapped_loss:
  assumes "sane_money a" and "sane_money b" and "0 < q" and "q \<le> 1000"
  shows "wrap64 (wrap64 (a - b) * q) = (a - b) * q"
proof -
  have ab: "\<bar>a - b\<bar> \<le> 2000000000000000" using assms(1,2) by (auto simp: sane_money_def)
  then have "wrap64 (a - b) = a - b" by (intro wrap64_bounded) auto
  moreover have "\<bar>(a - b) * q\<bar> \<le> 2000000000000000 * 1000"
    unfolding abs_mult using ab assms(3,4) by (intro mult_mono) auto
  then have "wrap64 ((a - b) * q) = (a - b) * q" by (intro wrap64_bounded) auto
  ultimately show ?thesis by simp
qed

lemma clipped_loss: "0 < q \<Longrightarrow> (if a > b then (a - b) * q else 0) = max 0 ((a - b) * (q :: int))"
  by (auto simp: max_def mult_le_0_iff zero_le_mult_iff)

lemma candidate_hedges:
  assumes sane: "hedge_sane cfg p q" and "residual p \<noteq> 0" and send: "hd_should_send (candidate_for_venue cfg p v q)"
  shows "hedges cfg p q v (hd_intent (candidate_for_venue cfg p v q))"
proof (cases "residual p > 0")
  case True
  define n where "n = min (residual p) (min (q_bid_qty q) (rc_max_order_qty cfg))"
  define L where "L = (if avg_buy_px p > q_bid_px_paise q
    then wrap64 (wrap64 (avg_buy_px p - q_bid_px_paise q) * n) else 0)"
  define I where "I = empty_intent\<lparr>oi_parent_arb_id := pt_parent_id p, oi_instrument_id := pt_instrument_id p,
    oi_venue := v, oi_order_type := LimitOrder, oi_tif := IOC, oi_role := Hedge, oi_side := Sell,
    oi_price_paise := q_bid_px_paise q, oi_qty := n\<rparr>"
  have d: "quote_valid q" "\<not> q_book_age_us q > rc_max_book_age_us cfg" "0 < n"
    "rc_force_flatten_on_max_loss cfg \<or> L \<le> rc_max_hedge_loss_paise cfg"
    "hd_intent (candidate_for_venue cfg p v q) = I"
    using send True unfolding candidate_for_venue_def Let_def n_def L_def I_def
    by (auto simp: no_hedge_def split: if_splits)
  have "n \<le> 1000" using sane by (auto simp: n_def hedge_sane_def)
  with sane d(3) have "wrap64 (wrap64 (avg_buy_px p - q_bid_px_paise q) * n) = (avg_buy_px p - q_bid_px_paise q) * n"
    by (intro wrapped_loss) (simp_all add: hedge_sane_def sane_quote_def)
  then have "L = max 0 ((avg_buy_px p - q_bid_px_paise q) * n)" by (simp only: L_def clipped_loss [OF d(3)])
  with d True show ?thesis unfolding d(5) by (auto simp: hedges_def true_loss_def I_def n_def)
next
  case False
  have "in_i64 (residual p)" by (simp add: residual_def)
  then have need: "wrap64 (- residual p) = - residual p"
    using sane by (intro wrap64_bounded) (auto simp: hedge_sane_def in_i64_def)
  define n where "n = min (- residual p) (min (q_ask_qty q) (rc_max_order_qty cfg))"
  define L where "L = (if avg_sell_px p > 0 \<and> q_ask_px_paise q > avg_sell_px p
    then wrap64 (wrap64 (q_ask_px_paise q - avg_sell_px p) * n) else 0)"
  define I where "I = empty_intent\<lparr>oi_parent_arb_id := pt_parent_id p, oi_instrument_id := pt_instrument_id p,
    oi_venue := v, oi_order_type := LimitOrder, oi_tif := IOC, oi_role := Hedge, oi_side := Buy,
    oi_price_paise := q_ask_px_paise q, oi_qty := n\<rparr>"
  have d: "quote_valid q" "\<not> q_book_age_us q > rc_max_book_age_us cfg" "0 < n"
    "rc_force_flatten_on_max_loss cfg \<or> L \<le> rc_max_hedge_loss_paise cfg"
    "hd_intent (candidate_for_venue cfg p v q) = I"
    using send False unfolding candidate_for_venue_def Let_def n_def L_def I_def need
    by (auto simp: no_hedge_def split: if_splits)
  have "n \<le> 1000" using sane by (auto simp: n_def hedge_sane_def)
  with sane d(3) have "wrap64 (wrap64 (q_ask_px_paise q - avg_sell_px p) * n) = (q_ask_px_paise q - avg_sell_px p) * n"
    by (intro wrapped_loss) (simp_all add: hedge_sane_def sane_quote_def)
  then have "L = (if avg_sell_px p > 0 then max 0 ((q_ask_px_paise q - avg_sell_px p) * n) else 0)"
    using clipped_loss [OF d(3), of "avg_sell_px p" "q_ask_px_paise q"] by (simp add: L_def split: if_splits)
  with d False show ?thesis unfolding d(5) by (auto simp: hedges_def true_loss_def I_def n_def)
qed

lemma candidate_not_both: "\<not> (hd_should_send (candidate_for_venue cfg p v q) \<and> hd_kill (candidate_for_venue cfg p v q))"
  by (auto simp: candidate_for_venue_def no_hedge_def Let_def split: if_splits)

lemma next_order_decides:
  assumes "residual p \<noteq> 0"
  shows "hd_should_send (hedge_next_order cfg p nse bse) \<noteq> hd_kill (hedge_next_order cfg p nse bse)"
  using assms candidate_not_both [of cfg p]
  by (auto simp: hedge_next_order_def no_hedge_def Let_def)

lemma next_order_hedges:
  assumes "hedge_sane cfg p nse" and "hedge_sane cfg p bse" and "hd_should_send (hedge_next_order cfg p nse bse)"
  shows "\<exists>v. hedges cfg p (quote_of v nse bse) v (hd_intent (hedge_next_order cfg p nse bse)) \<and>
    residual p \<noteq> 0 \<and> pt_hedge_attempts p < rc_max_hedge_attempts cfg"
proof -
  obtain v where v: "hedge_next_order cfg p nse bse = candidate_for_venue cfg p v (quote_of v nse bse)"
    and r: "residual p \<noteq> 0" "pt_hedge_attempts p < rc_max_hedge_attempts cfg"
  proof -
    define v1 where "v1 = (if residual p > 0 then pt_intended_sell_venue p else pt_intended_buy_venue p)"
    let ?c = "\<lambda>v. candidate_for_venue cfg p v (quote_of v nse bse)"
    have r: "residual p \<noteq> 0" "pt_hedge_attempts p < rc_max_hedge_attempts cfg"
      using assms(3) by (auto simp: hedge_next_order_def no_hedge_def split: if_splits)
    then have "hedge_next_order cfg p nse bse = (if hd_should_send (?c v1) \<or> hd_kill (?c v1) then ?c v1
        else if hd_should_send (?c (other_venue v1)) \<or> hd_kill (?c (other_venue v1)) then ?c (other_venue v1)
        else no_hedge True ''NO_SAFE_HEDGE_QUOTE'' 0)"
      by (simp add: hedge_next_order_def Let_def v1_def quote_of_def)
    with assms(3) that r show ?thesis by (auto simp: no_hedge_def split: if_splits)
  qed
  moreover have "hedge_sane cfg p (quote_of v nse bse)" using assms(1,2) by (simp add: quote_of_def)
  ultimately show ?thesis using candidate_hedges [of cfg p "quote_of v nse bse" v] assms(3) by auto
qed

section \<open>The residual follows the fills\<close>

definition pair_fits :: "pair_trade \<Rightarrow> bool" where
  "pair_fits p \<longleftrightarrow> 0 \<le> pt_bought_qty p \<and> pt_bought_qty p \<le> 1000000000000 \<and>
     0 \<le> pt_sold_qty p \<and> pt_sold_qty p \<le> 1000000000000"

lemma residual_exact: "pair_fits p \<Longrightarrow> residual p = pt_bought_qty p - pt_sold_qty p"
  unfolding residual_def pair_fits_def by (intro wrap64_bounded) auto

lemma pair_apply_fill_fields [simp]:
  "pt_parent_id (pair_apply_fill f p) = pt_parent_id p"
  "pt_instrument_id (pair_apply_fill f p) = pt_instrument_id p"
  "pt_hedge_attempts (pair_apply_fill f p) = pt_hedge_attempts p"
  "pt_bought_qty (pair_apply_fill f p) =
     (if fl_side f = Buy then wrap64 (pt_bought_qty p + fl_fill_qty f) else pt_bought_qty p)"
  "pt_sold_qty (pair_apply_fill f p) =
     (if fl_side f = Sell then wrap64 (pt_sold_qty p + fl_fill_qty f) else pt_sold_qty p)"
  by (simp_all add: pair_apply_fill_def Let_def)

lemma residual_apply_fill: "residual (pair_apply_fill f p) = wrap64 (residual p + signed_qty (fl_side f) (fl_fill_qty f))"
proof -
  have "residual (pair_apply_fill f p) = wrap64 (pt_bought_qty (pair_apply_fill f p) - pt_sold_qty (pair_apply_fill f p))"
    by (simp add: residual_def)
  also have "\<dots> = wrap64 (residual p + signed_qty (fl_side f) (fl_fill_qty f))"
    by (cases "fl_side f") (simp_all add: residual_def signed_qty_def wrap_simps algebra_simps)
  finally show ?thesis .
qed

lemma residual_apply_fills:
  "residual (fold pair_apply_fill fs p) = wrap64 (residual p + (\<Sum>f\<leftarrow>fs. signed_qty (fl_side f) (fl_fill_qty f)))"
proof (induction fs arbitrary: p)
  case Nil
  then show ?case by (simp add: residual_def)
next
  case (Cons f fs)
  then show ?case by (simp add: residual_apply_fill wrap_simps algebra_simps)
qed

section \<open>Properties\<close>

definition sample_pair :: pair_trade where
  "sample_pair = (from_opportunity empty_opportunity)\<lparr>pt_parent_id := ''P'', pt_instrument_id := 1,
     pt_intended_buy_venue := BSE, pt_intended_sell_venue := NSE, pt_intended_qty := 40, pt_bought_qty := 40,
     pt_bought_notional_paise := 402000\<rparr>"

text \<open>
  C12: every hedge order is a safe step towards flat. With sane prices and sizes, an order
  the hedge policy sends sells when the pair is long and buys when it is short; its
  quantity is positive and exceeds neither the residual, nor what the quote shows, nor the
  order limit; it is priced at the current bid or ask of a valid and fresh quote of its
  own venue; and, unless forced flattening is configured, its true loss against the average
  price of the filled leg is within the loss limit. No order is sent for a flat pair or
  after the last attempt.
\<close>

theorem hedge_order_safe:
  assumes "hedge_sane cfg p nse" and "hedge_sane cfg p bse" and "hd_should_send (hedge_next_order cfg p nse bse)"
  shows "\<exists>v. hedges cfg p (quote_of v nse bse) v (hd_intent (hedge_next_order cfg p nse bse)) \<and>
    residual p \<noteq> 0 \<and> pt_hedge_attempts p < rc_max_hedge_attempts cfg"
  using assms by (rule next_order_hedges)

theorem hedge_order_safe_witness:
  "\<exists>v. hedges default_risk_config sample_pair (quote_of v (sample_quote NSE 10040 10060) (sample_quote BSE 10030 10050)) v
     (hd_intent (hedge_next_order default_risk_config sample_pair (sample_quote NSE 10040 10060) (sample_quote BSE 10030 10050)))"
proof -
  have "hedge_sane default_risk_config sample_pair (sample_quote NSE 10040 10060)" by code_simp
  moreover have "hedge_sane default_risk_config sample_pair (sample_quote BSE 10030 10050)" by code_simp
  moreover have "hd_should_send (hedge_next_order default_risk_config sample_pair
      (sample_quote NSE 10040 10060) (sample_quote BSE 10030 10050))" by code_simp
  ultimately show ?thesis using hedge_order_safe by blast
qed

text \<open>
  C31: an open position is never left without a decision. As long as the pair is not flat
  the policy either sends an order or orders the kill switch, never both and never
  neither, whatever the quotes.
\<close>

theorem hedge_always_decides:
  assumes "residual p \<noteq> 0"
  shows "hd_should_send (hedge_next_order cfg p nse bse) \<noteq> hd_kill (hedge_next_order cfg p nse bse)"
  using assms by (rule next_order_decides)

theorem hedge_always_decides_witness:
  "hd_should_send (hedge_next_order default_risk_config sample_pair empty_quote empty_quote)
     \<noteq> hd_kill (hedge_next_order default_risk_config sample_pair empty_quote empty_quote)"
  by (rule hedge_always_decides) code_simp

text \<open>
  The residual of a pair is the signed sum of its fills. Starting from a new
  opportunity, after any fills on any sides, the residual is bought minus sold quantity in
  64-bit arithmetic, and the pair is marked flat or hedging accordingly.
\<close>

lemma residual_sums_fills:
  "residual (fold pair_apply_fill fs (from_opportunity o1)) = wrap64 (\<Sum>f\<leftarrow>fs. signed_qty (fl_side f) (fl_fill_qty f))"
proof -
  have "residual (from_opportunity o1) = 0" by (simp add: residual_def from_opportunity_def wrap64_def)
  then show ?thesis by (simp add: residual_apply_fills)
qed

end
