(* ===== verification/Market_Data.thy ===== *)
theory Market_Data
  imports Order_Book Keyed_Store
begin

text \<open>
  \<^verbatim>\<open>src/md\<close>: the replay reader, the CSV parser, the sequence tracker, the feed health table
  and the handler that composes them. The replay file is the list of its lines. Clock
  readings are the time stamps the packets carry.
\<close>

section \<open>Packets and the replay reader\<close>

record raw_packet =
  rp_ts_ingest_ns :: u64
  rp_venue :: venue
  rp_channel_id :: u32
  rp_sequence_no :: u64
  rp_msg_type :: string
  rp_src_ip :: string
  rp_payload_bytes :: string

record replay_reader =
  rr_lines :: "string list"
  rr_header_skipped :: bool

text \<open>The constructor throws when the file does not open.\<close>

definition reader_open :: "(string \<Rightarrow> string option) \<Rightarrow> string \<Rightarrow> string + replay_reader" where
  "reader_open fs path =
     (case fs path of
        None \<Rightarrow> Inl (''cannot open replay file: '' @ path)
      | Some text \<Rightarrow> Inr \<lparr>rr_lines = getlines text, rr_header_skipped = False\<rparr>)"

text \<open>\<^verbatim>\<open>line.find(pat) != npos\<close>.\<close>

fun find_sub :: "string \<Rightarrow> string \<Rightarrow> bool" where
  "find_sub pat [] = (pat = [])"
| "find_sub pat (c # cs) = (take (length pat) (c # cs) = pat \<or> find_sub pat cs)"

definition packet_of_cols :: "string \<Rightarrow> string list \<Rightarrow> raw_packet" where
  "packet_of_cols line cols =
     \<lparr>rp_ts_ingest_ns = parse_u64 (cols ! 1) 0, rp_venue = venue_from_string (cols ! 2),
      rp_channel_id = ucast (parse_u64 (cols ! 3) 0), rp_sequence_no = parse_u64 (cols ! 4) 0,
      rp_msg_type = cols ! 5, rp_src_ip = [], rp_payload_bytes = line\<rparr>"

fun next_packet_loop :: "string list \<Rightarrow> bool \<Rightarrow> raw_packet option \<times> replay_reader" where
  "next_packet_loop [] skipped = (None, \<lparr>rr_lines = [], rr_header_skipped = skipped\<rparr>)"
| "next_packet_loop (raw # rest) skipped =
     (let line = trim raw in
      if line = [] then next_packet_loop rest skipped
      else if \<not> skipped \<and> find_sub ''ts_exchange_ns'' line then next_packet_loop rest True
      else let cols = split_csv line in
           if length cols < 6 then next_packet_loop rest True
           else (Some (packet_of_cols line cols), \<lparr>rr_lines = rest, rr_header_skipped = True\<rparr>))"

definition next_packet :: "replay_reader \<Rightarrow> raw_packet option \<times> replay_reader" where
  "next_packet r = next_packet_loop (rr_lines r) (rr_header_skipped r)"

section \<open>The CSV parser\<close>

definition csv_parse :: "raw_packet \<Rightarrow> book_event option" where
  "csv_parse pkt =
     (let c = split_csv (rp_payload_bytes pkt) in
      if length c < 13 then None
      else Some \<lparr>be_ts_exchange_ns = parse_u64 (c ! 0) 0, be_ts_ingest_ns = parse_u64 (c ! 1) 0,
                 be_venue = venue_from_string (c ! 2), be_instrument_id = ucast (parse_u64 (c ! 6) 0),
                 be_native_token = ucast (parse_u64 (c ! 7) 0),
                 be_event_type = event_type_from_string (c ! 8), be_order_id = parse_u64 (c ! 9) 0,
                 be_side = side_from_string (c ! 10), be_price_paise = parse_i64 (c ! 11) 0,
                 be_qty = parse_i64 (c ! 12) 0, be_native_payload = rp_payload_bytes pkt\<rparr>)"

section \<open>The sequence tracker\<close>

datatype sequence_status = SeqOk | SeqGap | SeqDuplicate | SeqReset

type_synonym last_seq = "(u64 \<times> u64) list"

text \<open>\<^verbatim>\<open>auto& last = last_seq_[key]\<close> creates the entry with 0.\<close>

definition last_of :: "last_seq \<Rightarrow> u64 \<Rightarrow> u64" where
  "last_of m k = (case map_of m k of None \<Rightarrow> 0 | Some l \<Rightarrow> l)"

definition seq_on_packet :: "venue \<Rightarrow> u32 \<Rightarrow> u64 \<Rightarrow> last_seq \<Rightarrow> sequence_status \<times> last_seq" where
  "seq_on_packet v channel seq m =
     (let k = packed_key v channel; last = last_of m k; m0 = AList.update k last m in
      if seq = 0 then (SeqReset, m0)
      else if last = 0 \<or> seq = last + 1 then (SeqOk, AList.update k seq m0)
      else if seq \<le> last then (SeqDuplicate, m0)
      else (SeqGap, AList.update k seq m0))"

definition seq_reset :: "last_seq \<Rightarrow> last_seq" where
  "seq_reset m = []"

fun sequence_status_to_cstr :: "sequence_status \<Rightarrow> string" where
  "sequence_status_to_cstr SeqOk = ''OK''"
| "sequence_status_to_cstr SeqGap = ''GAP''"
| "sequence_status_to_cstr SeqDuplicate = ''DUPLICATE''"
| "sequence_status_to_cstr SeqReset = ''RESET''"

section \<open>Feed health\<close>

record feed_state =
  fs_last_event_ns :: u64
  fs_healthy :: bool
  fs_reason :: string

definition new_feed_state :: feed_state where
  "new_feed_state = \<lparr>fs_last_event_ns = 0, fs_healthy = True, fs_reason = []\<rparr>"

type_synonym feed_health = "(u64 \<times> feed_state) list"

definition fh_state :: "feed_health \<Rightarrow> u64 \<Rightarrow> feed_state" where
  "fh_state m k = (case map_of m k of None \<Rightarrow> new_feed_state | Some s \<Rightarrow> s)"

definition fh_on_event :: "venue \<Rightarrow> u32 \<Rightarrow> u64 \<Rightarrow> feed_health \<Rightarrow> feed_health" where
  "fh_on_event v i ts m =
     (let k = packed_key v i; s = (fh_state m k)\<lparr>fs_last_event_ns := ts\<rparr>
      in AList.update k (if fs_reason s = [] then s\<lparr>fs_healthy := True\<rparr> else s) m)"

definition fh_mark_unhealthy :: "venue \<Rightarrow> u32 \<Rightarrow> string \<Rightarrow> feed_health \<Rightarrow> feed_health" where
  "fh_mark_unhealthy v i reason m =
     (let k = packed_key v i
      in AList.update k ((fh_state m k)\<lparr>fs_healthy := False, fs_reason := reason\<rparr>) m)"

definition fh_is_healthy :: "venue \<Rightarrow> u32 \<Rightarrow> feed_health \<Rightarrow> bool" where
  "fh_is_healthy v i m = (case map_of m (packed_key v i) of None \<Rightarrow> False | Some s \<Rightarrow> fs_healthy s)"

definition fh_book_age_us :: "venue \<Rightarrow> u32 \<Rightarrow> u64 \<Rightarrow> feed_health \<Rightarrow> u32" where
  "fh_book_age_us v i now m =
     (case map_of m (packed_key v i) of
        None \<Rightarrow> - 1
      | Some s \<Rightarrow> if fs_last_event_ns s = 0 then - 1
                 else if now < fs_last_event_ns s then 0
                 else ucast ((now - fs_last_event_ns s) div 1000))"

definition fh_reason :: "venue \<Rightarrow> u32 \<Rightarrow> feed_health \<Rightarrow> string" where
  "fh_reason v i m = (case map_of m (packed_key v i) of None \<Rightarrow> ''NO_STATE'' | Some s \<Rightarrow> fs_reason s)"

section \<open>The handler\<close>

record md_result =
  mr_event :: "book_event option"
  mr_sequence_status :: sequence_status
  mr_warning :: string

record md_handler =
  mh_reader :: replay_reader
  mh_seq :: last_seq
  mh_health :: feed_health

definition handler_open :: "(string \<Rightarrow> string option) \<Rightarrow> string \<Rightarrow> string + md_handler" where
  "handler_open fs path =
     (case reader_open fs path of
        Inl e \<Rightarrow> Inl e
      | Inr r \<Rightarrow> Inr \<lparr>mh_reader = r, mh_seq = [], mh_health = []\<rparr>)"

definition md_handle :: "raw_packet \<Rightarrow> md_handler \<Rightarrow> md_result \<times> md_handler" where
  "md_handle pkt h =
     (case seq_on_packet (rp_venue pkt) (rp_channel_id pkt) (rp_sequence_no pkt) (mh_seq h) of
        (st, sq) \<Rightarrow>
          let h1 = h\<lparr>mh_seq := sq\<rparr> in
          if st = SeqDuplicate
          then (\<lparr>mr_event = None, mr_sequence_status = st, mr_warning = ''duplicate packet ignored''\<rparr>, h1)
          else case csv_parse pkt of
            None \<Rightarrow> (\<lparr>mr_event = None, mr_sequence_status = st, mr_warning = ''parse failure''\<rparr>, h1)
          | Some ev \<Rightarrow>
              if st = SeqGap
              then (\<lparr>mr_event = Some ev, mr_sequence_status = st, mr_warning = ''sequence gap''\<rparr>,
                    h1\<lparr>mh_health := fh_mark_unhealthy (be_venue ev) (be_instrument_id ev) ''SEQUENCE_GAP'' (mh_health h1)\<rparr>)
              else (\<lparr>mr_event = Some ev, mr_sequence_status = st, mr_warning = []\<rparr>,
                    h1\<lparr>mh_health := fh_on_event (be_venue ev) (be_instrument_id ev) (be_ts_ingest_ns ev) (mh_health h1)\<rparr>))"

definition md_next :: "md_handler \<Rightarrow> md_result option \<times> md_handler" where
  "md_next h =
     (case next_packet (mh_reader h) of
        (None, r) \<Rightarrow> (None, h\<lparr>mh_reader := r\<rparr>)
      | (Some pkt, r) \<Rightarrow> (case md_handle pkt (h\<lparr>mh_reader := r\<rparr>) of (res, h') \<Rightarrow> (Some res, h')))"

section \<open>Reading ends\<close>

lemma next_packet_loop_shorter:
  "fst (next_packet_loop ls sk) \<noteq> None \<Longrightarrow> length (rr_lines (snd (next_packet_loop ls sk))) < length ls"
  by (induction ls arbitrary: sk) (auto simp: Let_def less_SucI split: if_splits)

lemma md_handle_reader [simp]: "mh_reader (snd (md_handle pkt h)) = mh_reader h"
  by (simp add: md_handle_def Let_def split: prod.splits option.splits)

lemma md_next_shorter:
  assumes "md_next h = (Some r, h')"
  shows "length (rr_lines (mh_reader h')) < length (rr_lines (mh_reader h))"
proof -
  obtain o1 rd where np: "next_packet (mh_reader h) = (o1, rd)" by force
  with assms obtain pkt where o1: "o1 = Some pkt" and h': "h' = snd (md_handle pkt (h\<lparr>mh_reader := rd\<rparr>))"
    by (cases o1) (auto simp: md_next_def split: prod.splits)
  have "mh_reader h' = rd" unfolding h' by simp
  then show ?thesis
    using next_packet_loop_shorter [of "rr_lines (mh_reader h)" "rr_header_skipped (mh_reader h)"] np o1
    by (simp add: next_packet_def)
qed

text \<open>The loop \<^verbatim>\<open>while (auto md = handler.next())\<close> with nothing done in its body.\<close>

function md_drain :: "md_handler \<Rightarrow> md_result list \<times> md_handler" where
  "md_drain h = (case md_next h of
     (None, h') \<Rightarrow> ([], h')
   | (Some r, h') \<Rightarrow> (case md_drain h' of (rs, h'') \<Rightarrow> (r # rs, h'')))"
  by pat_completeness auto
termination
  by (relation "measure (\<lambda>h. length (rr_lines (mh_reader h)))") (auto dest: md_next_shorter [OF sym])

declare md_drain.simps [simp del]

section \<open>Sequence numbers\<close>

text \<open>What the tracker should know of a channel: the highest number seen on it.\<close>

type_synonym seq_packet = "venue \<times> u32 \<times> u64"

definition top_seq :: "venue \<Rightarrow> u32 \<Rightarrow> seq_packet list \<Rightarrow> u64" where
  "top_seq v c ps = fold max (map (snd \<circ> snd) (filter (\<lambda>p. fst p = v \<and> fst (snd p) = c) ps)) 0"

definition spec_status :: "u64 \<Rightarrow> u64 \<Rightarrow> sequence_status" where
  "spec_status hi seq =
     (if seq = 0 then SeqReset
      else if hi = 0 then SeqOk
      else if seq \<le> hi then SeqDuplicate
      else if unat seq = unat hi + 1 then SeqOk else SeqGap)"

definition seq_run :: "seq_packet list \<Rightarrow> last_seq" where
  "seq_run ps = fold (\<lambda>(v, c, s) m. snd (seq_on_packet v c s m)) ps []"

lemma seq_on_packet_last:
  "map_of (snd (seq_on_packet v c s m)) k =
    (if k = packed_key v c then Some (max s (case map_of m k of None \<Rightarrow> 0 | Some l \<Rightarrow> l)) else map_of m k)"
proof -
  let ?l = "last_of m (packed_key v c)"
  have "s \<noteq> 0 \<Longrightarrow> s = ?l + 1 \<Longrightarrow> max s ?l = s"
    using succ_word [of s ?l] by (simp add: max_def word_le_nat_alt)
  then show ?thesis
    by (auto simp: seq_on_packet_def Let_def alist_simps last_of_def [symmetric] max_def)
qed

lemma seq_on_packet_status:
  "fst (seq_on_packet v c s m) = spec_status (last_of m (packed_key v c)) s"
  using succ_word [of s "last_of m (packed_key v c)"]
  by (auto simp: seq_on_packet_def spec_status_def Let_def word_le_nat_alt)

lemma seq_run_last: "last_of (seq_run ps) (packed_key v c) = top_seq v c ps"
proof -
  let ?mine = "filter (\<lambda>p. fst p = v \<and> fst (snd p) = c) ps"
  have "map_of (seq_run ps) (packed_key v c) =
      (if ?mine = [] then None else Some (fold (\<lambda>p. max (snd (snd p))) ?mine 0))"
    using packed.fold_route [of "\<lambda>(v, c, s) m. snd (seq_on_packet v c s m)" fst "fst \<circ> snd"
        "\<lambda>p. max (snd (snd p))" "\<lambda>_ _. 0" ps "[]" v c]
    by (simp add: seq_run_def seq_on_packet_last case_prod_beta comp_def Let_def)
  then show ?thesis by (auto simp: last_of_def top_seq_def fold_map comp_def)
qed

section \<open>Feed health\<close>

definition health_inv :: "feed_health \<Rightarrow> bool" where
  "health_inv m \<longleftrightarrow> (\<forall>k s. map_of m k = Some s \<longrightarrow> (fs_healthy s \<longleftrightarrow> fs_reason s = []))"

lemma fh_state_inv: "health_inv m \<Longrightarrow> fs_healthy (fh_state m k) \<longleftrightarrow> fs_reason (fh_state m k) = []"
  by (auto simp: health_inv_def fh_state_def new_feed_state_def split: option.splits)

lemma health_inv_on_event: "health_inv m \<Longrightarrow> health_inv (fh_on_event v i ts m)"
  using fh_state_inv [of m] unfolding health_inv_def
  by (auto simp: fh_on_event_def Let_def alist_simps simp del: map_of_eq_Some_iff split: if_splits)

lemma health_inv_mark: "health_inv m \<Longrightarrow> r \<noteq> [] \<Longrightarrow> health_inv (fh_mark_unhealthy v i r m)"
  unfolding health_inv_def
  by (auto simp: fh_mark_unhealthy_def Let_def alist_simps simp del: map_of_eq_Some_iff split: if_splits)

text \<open>How one packet changes the health of one feed, and the exact account of a whole run.\<close>

definition about :: "venue \<Rightarrow> u32 \<Rightarrow> md_result \<Rightarrow> bool" where
  "about v i r \<longleftrightarrow> (case mr_event r of None \<Rightarrow> False
     | Some ev \<Rightarrow> be_venue ev = v \<and> be_instrument_id ev = i)"

definition account :: "venue \<Rightarrow> u32 \<Rightarrow> feed_health \<Rightarrow> bool \<times> bool" where
  "account v i m = (map_of m (packed_key v i) \<noteq> None, \<not> fs_healthy (fh_state m (packed_key v i)))"

lemma account_on_event:
  "health_inv m \<Longrightarrow> account v i (fh_on_event v' i' ts m) =
     (if v' = v \<and> i' = i then (True, snd (account v i m)) else account v i m)"
  using fh_state_inv [of m "packed_key v i"]
  by (auto simp: account_def fh_on_event_def Let_def alist_simps packed.key_inj fh_state_def)

lemma account_mark:
  "account v i (fh_mark_unhealthy v' i' r m) = (if v' = v \<and> i' = i then (True, True) else account v i m)"
  by (auto simp: account_def fh_mark_unhealthy_def Let_def alist_simps packed.key_inj fh_state_def)

lemma md_handle_account:
  assumes "health_inv (mh_health h)" and "md_handle pkt h = (r, h')"
  shows "health_inv (mh_health h')" and
    "account v i (mh_health h') =
      (fst (account v i (mh_health h)) \<or> about v i r,
       snd (account v i (mh_health h)) \<or> about v i r \<and> mr_sequence_status r = SeqGap)"
proof -
  consider (none) "mh_health h' = mh_health h" "mr_event r = None"
    | (gap) ev where "mr_event r = Some ev" "mr_sequence_status r = SeqGap"
        "mh_health h' = fh_mark_unhealthy (be_venue ev) (be_instrument_id ev) ''SEQUENCE_GAP'' (mh_health h)"
    | (ok) ev where "mr_event r = Some ev" "mr_sequence_status r \<noteq> SeqGap"
        "mh_health h' = fh_on_event (be_venue ev) (be_instrument_id ev) (be_ts_ingest_ns ev) (mh_health h)"
    using assms(2) by (fastforce simp: md_handle_def Let_def split: prod.splits option.splits if_splits)
  note cases = this
  show "health_inv (mh_health h')"
    using assms(1) by (cases rule: cases) (simp_all add: health_inv_mark health_inv_on_event)
  show "account v i (mh_health h') =
      (fst (account v i (mh_health h)) \<or> about v i r,
       snd (account v i (mh_health h)) \<or> about v i r \<and> mr_sequence_status r = SeqGap)"
    using assms(1) by (cases rule: cases) (auto simp: about_def account_mark account_on_event)
qed

lemma md_drain_account:
  assumes "health_inv (mh_health h)" and "md_drain h = (rs, h')"
  shows "account v i (mh_health h') =
      (fst (account v i (mh_health h)) \<or> (\<exists>r \<in> set rs. about v i r),
       snd (account v i (mh_health h)) \<or> (\<exists>r \<in> set rs. about v i r \<and> mr_sequence_status r = SeqGap))
    \<and> health_inv (mh_health h')"
  using assms
proof (induction h arbitrary: rs rule: md_drain.induct)
  case (1 h)
  obtain o1 h1 where nx: "md_next h = (o1, h1)" by force
  show ?case
  proof (cases o1)
    case None
    then have "mh_health h1 = mh_health h" "rs = []" "h' = h1"
      using nx "1.prems"(2) by (auto simp: md_drain.simps [of h] md_next_def split: prod.splits option.splits)
    with "1.prems" show ?thesis by simp
  next
    case (Some r)
    obtain rd pkt where hd: "md_handle pkt (h\<lparr>mh_reader := rd\<rparr>) = (r, h1)"
      using nx Some by (auto simp: md_next_def split: prod.splits option.splits)
    have "health_inv (mh_health (h\<lparr>mh_reader := rd\<rparr>))" using "1.prems"(1) by simp
    note one = md_handle_account [OF this hd]
    obtain rs' where rs': "md_drain h1 = (rs', h')" "rs = r # rs'"
      using nx Some "1.prems"(2) by (auto simp: md_drain.simps [of h] split: prod.splits)
    from "1.IH" [OF nx [symmetric] Some one(1) rs'(1)] one(2) [of v i] rs'(2) show ?thesis by auto
  qed
qed

section \<open>A printed row is read back\<close>

definition event_row :: "book_event \<Rightarrow> u32 \<Rightarrow> u64 \<Rightarrow> string \<Rightarrow> string" where
  "event_row ev ch seq mt = csv_row (map esc
     [show_nat (unat (be_ts_exchange_ns ev)), show_nat (unat (be_ts_ingest_ns ev)),
      venue_to_string (be_venue ev), show_nat (unat ch), show_nat (unat seq), mt,
      show_nat (unat (be_instrument_id ev)), show_nat (unat (be_native_token ev)),
      event_type_to_string (be_event_type ev), show_nat (unat (be_order_id ev)),
      side_to_string (be_side ev), show_int (be_price_paise ev), show_int (be_qty ev)])"

lemma parse_u64_show_u32 [simp]: "(ucast (parse_u64 (show_nat (unat (w :: u32))) d) :: u32) = w"
proof -
  have "unat w < 2 ^ LENGTH(32)" by (rule unsigned_less)
  then have "unat w < 2 ^ 64" by simp
  then have "unat w = unat (ucast w :: u64)" by (simp add: unsigned_ucast_eq take_bit_nat_eq_self)
  then have "parse_u64 (show_nat (unat w)) d = ucast w" by (simp only: parse_u64_show)
  then show ?thesis by (simp, transfer, simp)
qed

lemma csv_row_append: "fs \<noteq> [] \<Longrightarrow> csv_row (fs @ [f]) = csv_row fs @ CHR '','' # f"
  by (induction fs rule: csv_row.induct) auto

lemma csv_row_trim:
  assumes "f \<noteq> []" "\<not> isspace (hd f)" "g \<noteq> []" "\<not> isspace (last g)"
  shows "trim (csv_row (f # fs @ [g])) = csv_row (f # fs @ [g])"
proof (rule trim_id)
  have "hd (csv_row (f # fs @ [g])) = hd f" using assms(1) by (cases fs) simp_all
  moreover have "last (csv_row (f # fs @ [g])) = last g"
    using csv_row_append [of "f # fs" g] assms(3) by simp
  ultimately show "csv_row (f # fs @ [g]) = [] \<or>
    \<not> isspace (hd (csv_row (f # fs @ [g]))) \<and> \<not> isspace (last (csv_row (f # fs @ [g])))"
    using assms by simp
qed

lemma esc_show_nat [simp]: "esc (show_nat n) = show_nat n"
  by (simp add: esc_eq needs_quotes_def not_digit_notin_show_nat is_digit_def)

lemma esc_show_int [simp]: "esc (show_int x) = show_int x"
  by (simp add: esc_eq needs_quotes_def not_digit_notin_show_nat is_digit_def show_int_def)

lemma show_ends: "show_nat n \<noteq> []" "\<not> isspace (hd (show_nat n))" "\<not> isspace (last (show_nat n))"
  "show_int x \<noteq> []" "\<not> isspace (last (show_int x))"
proof -
  show h: "show_nat n \<noteq> []" "\<not> isspace (hd (show_nat n))" "\<not> isspace (last (show_nat n))" for n
    using show_nat_digits is_digit_not_space by (metis hd_in_set last_in_set show_nat_nonempty)+
  show "show_int x \<noteq> []" "\<not> isspace (last (show_int x))" using h by (simp_all add: show_int_def)
qed

lemma event_row_trim: "trim (event_row ev ch seq mt) = event_row ev ch seq mt"
proof -
  define mid where "mid = map esc [show_nat (unat (be_ts_ingest_ns ev)),
      venue_to_string (be_venue ev), show_nat (unat ch), show_nat (unat seq), mt,
      show_nat (unat (be_instrument_id ev)), show_nat (unat (be_native_token ev)),
      event_type_to_string (be_event_type ev), show_nat (unat (be_order_id ev)),
      side_to_string (be_side ev), show_int (be_price_paise ev)]"
  have "event_row ev ch seq mt
      = csv_row (show_nat (unat (be_ts_exchange_ns ev)) # mid @ [show_int (be_qty ev)])"
    by (simp add: event_row_def mid_def)
  then show ?thesis using csv_row_trim [OF show_ends(1,2,4,5), of _ mid] by simp
qed

lemma trim_names [simp]: "trim (venue_to_string v) = venue_to_string v"
  "trim (event_type_to_string e) = event_type_to_string e" "trim (side_to_string s) = side_to_string s"
  by (cases v; cases e; cases s; simp add: trim_eval isspace_def)+

lemma split_event_row:
  "split_csv (event_row ev ch seq mt) =
     [show_nat (unat (be_ts_exchange_ns ev)), show_nat (unat (be_ts_ingest_ns ev)),
      venue_to_string (be_venue ev), show_nat (unat ch), show_nat (unat seq), trim mt,
      show_nat (unat (be_instrument_id ev)), show_nat (unat (be_native_token ev)),
      event_type_to_string (be_event_type ev), show_nat (unat (be_order_id ev)),
      side_to_string (be_side ev), show_int (be_price_paise ev), show_int (be_qty ev)]"
  unfolding event_row_def
  by (subst esc_writer.row_roundtrip) (simp_all add: trim_show_nat trim_show_int)

lemma event_row_nonempty: "event_row ev ch seq mt \<noteq> []"
  using split_event_row [of ev ch seq mt] by (auto simp: split_csv_def)

lemma row_packet:
  defines "pkt ev ch seq mt \<equiv> packet_of_cols (event_row ev ch seq mt) (split_csv (event_row ev ch seq mt))"
  shows "rp_venue (pkt ev ch seq mt) = be_venue ev" "rp_channel_id (pkt ev ch seq mt) = ch"
    "rp_sequence_no (pkt ev ch seq mt) = seq"
    "in_i64 (be_price_paise ev) \<Longrightarrow> in_i64 (be_qty ev) \<Longrightarrow>
     csv_parse (pkt ev ch seq mt) = Some (ev\<lparr>be_native_payload := event_row ev ch seq mt\<rparr>)"
  by (simp_all add: pkt_def packet_of_cols_def split_event_row csv_parse_def)

lemma next_packet_row:
  "next_packet \<lparr>rr_lines = event_row ev ch seq mt # rest, rr_header_skipped = True\<rparr> =
    (Some (packet_of_cols (event_row ev ch seq mt) (split_csv (event_row ev ch seq mt))),
     \<lparr>rr_lines = rest, rr_header_skipped = True\<rparr>)"
  by (simp add: next_packet_def event_row_trim event_row_nonempty split_event_row Let_def)

section \<open>Properties\<close>

text \<open>A sample file: a header and two rows of one channel, the second after a gap.\<close>

definition sample_row_event :: book_event where
  "sample_row_event = \<lparr>be_ts_exchange_ns = 10, be_ts_ingest_ns = 20, be_venue = NSE, be_instrument_id = 1,
      be_native_token = 7, be_event_type = EvAdd, be_order_id = 5, be_side = Buy, be_price_paise = 100,
      be_qty = 3, be_native_payload = []\<rparr>"

definition sample_file :: string where
  "sample_file = ''ts_exchange_ns,ts_ingest_ns'' @ [CHR 0x0A] @ event_row sample_row_event 1 1 ''A'' @ [CHR 0x0A]
     @ event_row sample_row_event 1 3 ''A'' @ [CHR 0x0A]"

definition sample_handler :: md_handler where
  "sample_handler = \<lparr>mh_reader = \<lparr>rr_lines = getlines sample_file, rr_header_skipped = False\<rparr>,
     mh_seq = [], mh_health = []\<rparr>"

text \<open>
  C27: the feed health flag tells exactly what happened. After the handler has drained a
  replay file, an instrument's feed is healthy if and only if at least one of its events
  was delivered and none of them arrived with a sequence gap; a gap is never forgotten,
  whatever arrives later.
\<close>

theorem feed_health_exact:
  assumes "handler_open fs path = Inr h" and "md_drain h = (rs, h')"
  shows "fh_is_healthy v i (mh_health h') \<longleftrightarrow>
    (\<exists>r \<in> set rs. about v i r) \<and> \<not> (\<exists>r \<in> set rs. about v i r \<and> mr_sequence_status r = SeqGap)"
proof -
  have h: "mh_health h = []" using assms(1) by (auto simp: handler_open_def split: sum.splits)
  then have "account v i (mh_health h') =
      ((\<exists>r \<in> set rs. about v i r), \<exists>r \<in> set rs. about v i r \<and> mr_sequence_status r = SeqGap)"
    using md_drain_account [OF _ assms(2), of v i]
    by (simp add: health_inv_def account_def fh_state_def new_feed_state_def)
  then show ?thesis
    by (auto simp: account_def fh_is_healthy_def fh_state_def split: option.splits)
qed

lemma sample_open: "handler_open (\<lambda>_. Some sample_file) [] = Inr sample_handler"
  by (simp add: handler_open_def reader_open_def sample_handler_def)

lemma sample_rows: "CHR 0x0A \<notin> set (event_row sample_row_event ch seq ''A'')"
  by (simp add: event_row_def sample_row_event_def esc_eq needs_quotes_def not_digit_notin_show_nat
      is_digit_def show_int_def)

lemma sample_handler_eq:
  "sample_handler = \<lparr>mh_reader = \<lparr>rr_lines = [''ts_exchange_ns,ts_ingest_ns'',
     event_row sample_row_event 1 1 ''A'', event_row sample_row_event 1 3 ''A''], rr_header_skipped = False\<rparr>,
     mh_seq = [], mh_health = []\<rparr>"
  using getlines_line [of "''ts_exchange_ns,ts_ingest_ns''"] getlines_line [OF sample_rows, of 1 1]
    getlines_line [OF sample_rows, of 1 3 "[]"]
  by (simp add: sample_handler_def sample_file_def)

lemma sample_drain:
  "map mr_sequence_status (fst (md_drain sample_handler)) = [SeqOk, SeqGap] \<and>
   list_all (about NSE 1) (fst (md_drain sample_handler)) \<and>
   list_all (\<lambda>r. \<exists>t. mr_event r = Some (sample_row_event\<lparr>be_native_payload := t\<rparr>)) (fst (md_drain sample_handler))"
proof -
  have hd: "trim ''ts_exchange_ns,ts_ingest_ns'' = ''ts_exchange_ns,ts_ingest_ns''"
    by (simp add: trim_eval isspace_def)
  let ?e = "\<lambda>seq. event_row sample_row_event 1 seq ''A''"
  let ?p = "\<lambda>seq. packet_of_cols (?e seq) (split_csv (?e seq))"
  let ?r = "\<lambda>ls. \<lparr>rr_lines = ls, rr_header_skipped = True\<rparr>"
  have np: "next_packet (mh_reader sample_handler) = (Some (?p 1), ?r [?e 3])"
    "next_packet (?r [?e 3]) = (Some (?p 3), ?r [])" "next_packet (?r []) = (None, ?r [])"
    by (simp_all add: next_packet_def sample_handler_eq hd Let_def event_row_trim event_row_nonempty split_event_row)
  have pkt: "rp_venue (?p s) = NSE" "rp_channel_id (?p s) = 1" "rp_sequence_no (?p s) = s"
    "csv_parse (?p s) = Some (sample_row_event\<lparr>be_native_payload := ?e s\<rparr>)" for s
    by (simp_all add: row_packet) (simp_all add: sample_row_event_def in_i64_def row_packet)
  have ev: "be_venue sample_row_event = NSE" "be_instrument_id sample_row_event = 1"
    "mh_seq sample_handler = []" "mh_health sample_handler = []"
    by (simp_all add: sample_row_event_def sample_handler_def)
  show ?thesis
    by (simp add: md_drain.simps md_next_def np md_handle_def pkt ev seq_on_packet_def last_of_def alist_simps
        about_def Let_def word_le_nat_alt) blast
qed

theorem feed_health_exact_witness:
  "\<not> fh_is_healthy NSE 1 (mh_health (snd (md_drain sample_handler)))"
proof -
  obtain a b where "fst (md_drain sample_handler) = [a, b]" "mr_sequence_status b = SeqGap" "about NSE 1 b"
    using sample_drain by (auto simp: map_eq_Cons_conv)
  with feed_health_exact [OF sample_open prod.collapse [symmetric], of NSE 1] show ?thesis by auto
qed

text \<open>
  C28: sequence checking is exact, per channel. Whatever packets of all venues and channels
  came before, the verdict on the next one depends only on the highest number seen on its
  own channel: nothing seen or the successor is OK, at most the highest is a duplicate, a
  skipped number is a gap; number 0 is answered RESET and leaves the highest number as it
  was.
\<close>

theorem sequence_status_exact:
  "fst (seq_on_packet v c s (seq_run ps)) = spec_status (top_seq v c ps) s \<and>
   last_of (snd (seq_on_packet v c s (seq_run ps))) (packed_key v c) = max s (top_seq v c ps)"
  using seq_run_last [of ps v c]
  by (simp add: seq_on_packet_status last_of_def seq_on_packet_last)

text \<open>
  C38: a market data row is read back. A row printed field by field - any message type, even
  with commas or quotes - is returned by the reader as one packet with its venue, channel
  and sequence number, and the parser recovers every field of the event.
\<close>

theorem event_row_roundtrip:
  assumes "in_i64 (be_price_paise ev)" and "in_i64 (be_qty ev)" and "be_native_payload ev = event_row ev ch seq mt"
  shows "\<exists>pkt. next_packet \<lparr>rr_lines = event_row ev ch seq mt # rest, rr_header_skipped = True\<rparr>
       = (Some pkt, \<lparr>rr_lines = rest, rr_header_skipped = True\<rparr>) \<and>
     rp_venue pkt = be_venue ev \<and> rp_channel_id pkt = ch \<and> rp_sequence_no pkt = seq \<and> csv_parse pkt = Some ev"
proof -
  have "ev\<lparr>be_native_payload := event_row ev ch seq mt\<rparr> = ev" by (subst assms(3) [symmetric]) simp
  then show ?thesis using row_packet [of ev ch seq mt] assms(1,2) by (simp add: next_packet_row)
qed

theorem event_row_roundtrip_witness:
  "\<exists>pkt. next_packet \<lparr>rr_lines = [event_row sample_row_event 1 3 ''A,B''], rr_header_skipped = True\<rparr>
       = (Some pkt, \<lparr>rr_lines = [], rr_header_skipped = True\<rparr>) \<and> rp_venue pkt = NSE \<and>
     csv_parse pkt = Some (sample_row_event\<lparr>be_native_payload := event_row sample_row_event 1 3 ''A,B''\<rparr>)"
proof -
  let ?ev = "sample_row_event\<lparr>be_native_payload := event_row sample_row_event 1 3 ''A,B''\<rparr>"
  have "event_row ?ev 1 3 ''A,B'' = event_row sample_row_event 1 3 ''A,B''" by (simp add: event_row_def)
  with event_row_roundtrip [of ?ev 1 3 "''A,B''" "[]"] show ?thesis
    by (auto simp: sample_row_event_def in_i64_def)
qed

end
