(* ===== verification/Doubles.thy ===== *)
theory Doubles
  imports Complex_Main
begin

text \<open>
  Double precision arithmetic. A finite double is modelled by its value, a rational number, and
  every operation by the exact operation followed by \<open>dbl\<close>, which rounds to 53 significant
  bits (fewer below \<open>2 ^ -1022\<close>), to nearest, ties to even. \<open>round53\<close> is the same rounding on
  natural numbers. The lemmas show that \<open>dbl\<close> is the closest double (\<open>dbl_nearest\<close>), from which
  monotonicity and the bounds the programs rely on follow. Infinities, NaNs and the sign of
  zero are not modelled: no quotient in the program has a zero divisor, and no value comes
  near \<open>2 ^ 1024\<close>.
\<close>

section \<open>Rounding natural numbers\<close>

fun bit_len :: "nat \<Rightarrow> nat" where
  "bit_len n = (if n = 0 then 0 else Suc (bit_len (n div 2)))"

definition round53 :: "nat \<Rightarrow> nat" where
  "round53 x =
     (let k = bit_len x - 53; q = x div 2 ^ k; r = x mod 2 ^ k
      in if 2 ^ k < 2 * r \<or> (2 * r = 2 ^ k \<and> odd q) then (q + 1) * 2 ^ k else q * 2 ^ k)"

declare bit_len.simps [simp del]

lemma bit_len_0 [simp]: "bit_len 0 = 0" "bit_len n = 0 \<longleftrightarrow> n = 0"
  by (simp_all add: bit_len.simps [of 0] bit_len.simps [of n])

lemma bit_len_pos [simp]: "0 < bit_len n \<longleftrightarrow> 0 < n"
  using bit_len_0(2) [of n] by linarith

lemma bit_len_bounds: "n \<noteq> 0 \<Longrightarrow> 2 ^ (bit_len n - 1) \<le> n \<and> n < 2 ^ bit_len n"
proof (induction n rule: bit_len.induct)
  case (1 n)
  show ?case
  proof (cases "n div 2 = 0")
    case True
    then have "n = 1" using 1(2) by auto
    then show ?thesis by (simp add: bit_len.simps [of "Suc 0"])
  next
    case False
    then have ih: "2 ^ (bit_len (n div 2) - 1) \<le> n div 2" "n div 2 < 2 ^ bit_len (n div 2)" and p: "0 < bit_len (n div 2)"
      using 1 by auto
    have "2 * 2 ^ (bit_len (n div 2) - 1) = (2::nat) ^ bit_len (n div 2)" using p by (cases "bit_len (n div 2)") simp_all
    moreover have "n = 2 * (n div 2) + n mod 2" "n mod 2 < 2" by simp_all
    moreover have "bit_len n = Suc (bit_len (n div 2))" using 1(2) by (simp add: bit_len.simps [of n])
    ultimately show ?thesis using ih unfolding diff_Suc_1 \<open>bit_len n = _\<close> power_Suc by linarith
  qed
qed

lemma bit_len_mono: "m \<le> n \<Longrightarrow> bit_len m \<le> bit_len n"
proof (rule ccontr)
  assume le: "m \<le> n" and "\<not> bit_len m \<le> bit_len n"
  then have lt: "bit_len n < bit_len m" by simp
  then have "m \<noteq> 0" by (cases "m = 0") simp_all
  then have "2 ^ (bit_len m - 1) \<le> m" "n < 2 ^ bit_len n" using bit_len_bounds le by auto
  moreover have "(2::nat) ^ bit_len n \<le> 2 ^ (bit_len m - 1)" using lt by (intro power_increasing) auto
  ultimately show False using le by linarith
qed

text \<open>Rounding goes to a neighbouring multiple of \<open>2 ^ k\<close>, and numbers of 53 bits are kept.\<close>

lemma round53_small: "x < 2 ^ 53 \<Longrightarrow> round53 x = x"
proof -
  assume x: "x < 2 ^ 53"
  have "bit_len x \<le> 53"
  proof (rule ccontr)
    assume "\<not> bit_len x \<le> 53"
    then have "x \<noteq> 0" "53 \<le> bit_len x - 1" by (cases "x = 0"; simp)+
    moreover have "(2::nat) ^ 53 \<le> 2 ^ (bit_len x - 1)" by (rule power_increasing) (use calculation(2) in simp_all)
    ultimately show False using bit_len_bounds [of x] x by linarith
  qed
  then show ?thesis by (simp add: round53_def)
qed

lemma round53_mult:
  assumes "x = q * 2 ^ k" and "k = bit_len x - 53"
  shows "round53 x = x"
proof -
  have "x div 2 ^ k = q" "x mod 2 ^ k = 0" by (simp_all add: assms(1))
  then show ?thesis unfolding round53_def Let_def assms(2) [symmetric] using assms(1) by simp
qed

lemma power_split: "c \<le> b \<Longrightarrow> (2::nat) ^ b = 2 ^ c * 2 ^ (b - c)"
  by (metis le_add_diff_inverse power_add)

lemma round53_bounds:
  assumes "k = bit_len x - 53"
  shows "x div 2 ^ k * 2 ^ k \<le> round53 x" and "round53 x \<le> (x div 2 ^ k + 1) * 2 ^ k"
  using assms by (simp_all add: round53_def Let_def)

lemma round53_between:
  assumes "x \<le> m * 2 ^ k" and "k = bit_len x - 53"
  shows "round53 x \<le> m * 2 ^ k"
proof (cases "x mod 2 ^ k = 0")
  case True
  then have "x = x div 2 ^ k * 2 ^ k" by auto
  from round53_mult [OF this assms(2)] show ?thesis using assms(1) by simp
next
  case False
  have "x div 2 ^ k < m"
  proof (rule ccontr)
    assume "\<not> x div 2 ^ k < m"
    then have "m * 2 ^ k \<le> x div 2 ^ k * 2 ^ k" by simp
    with div_mult_mod_eq [of x "2 ^ k"] False assms(1) show False by linarith
  qed
  then have "(x div 2 ^ k + 1) * 2 ^ k \<le> m * 2 ^ k" by (intro mult_right_mono) simp_all
  with round53_bounds(2) [OF assms(2)] show ?thesis by simp
qed

lemma round53_le_representable:
  assumes "x \<le> q * 2 ^ s" and "q \<le> 2 ^ 53"
  shows "round53 x \<le> q * 2 ^ s"
proof (cases "bit_len x - 53 \<le> s")
  case True
  then have "q * 2 ^ s = q * 2 ^ (s - (bit_len x - 53)) * 2 ^ (bit_len x - 53)"
    by (subst power_split [OF True]) (simp only: mult_ac)
  then show ?thesis using round53_between [of x "q * 2 ^ (s - (bit_len x - 53))" "bit_len x - 53"] assms(1) by (simp only:)
next
  case False
  let ?b = "bit_len x"
  have x0: "x \<noteq> 0" and b: "53 < ?b" "s < ?b - 53" using False by (cases "x = 0"; simp)+
  have "q * 2 ^ s \<le> 2 ^ 53 * 2 ^ (?b - 54)" using assms(2) b by (intro mult_mono power_increasing) auto
  also have "\<dots> = (2::nat) ^ (?b - 1)" using power_split [of 53 "?b - 1"] b by simp
  also have "\<dots> \<le> x" using bit_len_bounds [OF x0] by simp
  finally have "x = q * 2 ^ s" "q * 2 ^ s = 2 ^ (?b - 1)"
    using assms(1) \<open>q * 2 ^ s \<le> 2 ^ 53 * 2 ^ (?b - 54)\<close> \<open>2 ^ 53 * 2 ^ (?b - 54) = 2 ^ (?b - 1)\<close> \<open>2 ^ (?b - 1) \<le> x\<close> by simp_all
  moreover have "(2::nat) ^ (?b - 1) = 2 ^ 52 * 2 ^ (?b - 53)" using power_split [of 52 "?b - 1"] b by simp
  ultimately show ?thesis using round53_mult [of x "2 ^ 52" "?b - 53"] by simp
qed

lemma round53_mono:
  assumes "x \<le> y"
  shows "round53 x \<le> round53 y"
proof (cases "bit_len x - 53 = bit_len y - 53")
  case True
  define k where "k = bit_len y - 53"
  have kx: "k = bit_len x - 53" using True by (simp add: k_def)
  have dm: "x div 2 ^ k \<le> y div 2 ^ k" using assms by (rule div_le_mono)
  show ?thesis
  proof (cases "x div 2 ^ k = y div 2 ^ k")
    case True
    then have "x mod 2 ^ k \<le> y mod 2 ^ k"
      using div_mult_mod_eq [of x "2 ^ k"] div_mult_mod_eq [of y "2 ^ k"] assms by simp
    with True show ?thesis by (simp add: round53_def Let_def kx [symmetric] k_def [symmetric])
  next
    case False
    then have "(x div 2 ^ k + 1) * 2 ^ k \<le> y div 2 ^ k * 2 ^ k" using dm by (intro mult_right_mono) simp_all
    with round53_bounds(2) [OF kx] round53_bounds(1) [OF k_def] show ?thesis by linarith
  qed
next
  case False
  then have lt: "bit_len x < bit_len y" "53 < bit_len y" using bit_len_mono [OF assms] by simp_all
  define b where "b = bit_len y - 1"
  have pw: "(2::nat) ^ b = 2 ^ 52 * 2 ^ (b - 52)" using power_split [of 52 b] lt by (simp add: b_def)
  have "x \<le> 2 ^ 52 * 2 ^ (b - 52)"
  proof (cases "x = 0")
    case False
    then have "x < 2 ^ bit_len x" using bit_len_bounds by simp
    also have "\<dots> \<le> 2 ^ b" using lt by (intro power_increasing) (simp_all add: b_def)
    finally show ?thesis by (simp add: pw)
  qed simp
  then have "round53 x \<le> 2 ^ 52 * 2 ^ (b - 52)" by (rule round53_le_representable) simp
  also have "\<dots> \<le> y div 2 ^ (b - 52) * 2 ^ (b - 52)"
  proof -
    have "y \<noteq> 0" using lt by (cases "y = 0") simp_all
    then have "2 ^ 52 * 2 ^ (b - 52) \<le> y" using bit_len_bounds [of y] unfolding b_def [symmetric] pw by blast
    then have "2 ^ 52 * 2 ^ (b - 52) div 2 ^ (b - 52) \<le> y div 2 ^ (b - 52)" by (rule div_le_mono)
    then show ?thesis by (intro mult_right_mono) simp_all
  qed
  also have "\<dots> \<le> round53 y" using round53_bounds(1) [of "b - 52" y] by (simp add: b_def)
  finally show ?thesis .
qed

section \<open>Rounding rational numbers\<close>

definition log2_floor :: "rat \<Rightarrow> int" where
  "log2_floor x =
     (case quotient_of x of (a, b) \<Rightarrow>
        let e = int (bit_len (nat a)) - int (bit_len (nat b)) in if 2 powi e \<le> x then e else e - 1)"

definition round_even :: "rat \<Rightarrow> int" where
  "round_even x = (let f = \<lfloor>x\<rfloor>; r = x - of_int f in if 1 / 2 < r \<or> r = 1 / 2 \<and> odd f then f + 1 else f)"

definition ulp_exp :: "rat \<Rightarrow> int" where
  "ulp_exp x = max (- 1074) (log2_floor \<bar>x\<bar> - 52)"

definition dbl :: "rat \<Rightarrow> rat" where
  "dbl x = (if x = 0 then 0 else of_int (round_even (x / 2 powi ulp_exp x)) * 2 powi ulp_exp x)"

text \<open>\<^verbatim>\<open>std::llround\<close>: to nearest, halves away from zero.\<close>

definition llround :: "rat \<Rightarrow> int" where
  "llround x = (if 0 \<le> x then \<lfloor>x + 1 / 2\<rfloor> else - \<lfloor>- x + 1 / 2\<rfloor>)"

lemma powi_split: "(2::rat) powi (i + j) = 2 powi i * 2 powi j"
  by (simp add: power_int_add)

lemma log2_floor_bounds:
  assumes "0 < x"
  shows "2 powi log2_floor x \<le> x" and "x < 2 powi (log2_floor x + 1)"
proof -
  obtain a b where q: "quotient_of x = (a, b)" by force
  have b: "0 < b" using quotient_of_denom_pos [OF q] .
  have x: "x = of_int a / of_int b" using quotient_of_div [OF q] .
  with assms b have a: "0 < a" by (simp add: zero_less_divide_iff)
  define m n where "m = bit_len (nat a)" and "n = bit_len (nat b)"
  have mn: "0 < m" "0 < n" using a b by (simp_all add: m_def n_def)
  have A: "2 ^ (m - 1) \<le> a" "a < 2 ^ m"
    using bit_len_bounds [of "nat a"] a by (simp_all add: m_def nat_less_iff le_nat_iff)
  have B: "2 ^ (n - 1) \<le> b" "b < 2 ^ n"
    using bit_len_bounds [of "nat b"] b by (simp_all add: n_def nat_less_iff le_nat_iff)
  have pw: "(2::rat) powi (int k) = of_int (2 ^ k)" for k by simp
  have up: "x < 2 powi (int m - int n + 1)"
  proof -
    have "of_int a < (2::rat) powi (int m)" using A(2) unfolding pw of_int_less_iff .
    also have "\<dots> = 2 powi (int m - int n + 1) * 2 powi (int (n - 1))"
      by (subst powi_split [symmetric]) (use mn in \<open>simp add: of_nat_diff\<close>)
    also have "\<dots> \<le> 2 powi (int m - int n + 1) * of_int b"
      using B(1) unfolding pw by (intro mult_left_mono) (simp_all only: of_int_le_iff, simp)
    finally show ?thesis using b by (simp add: x divide_less_eq)
  qed
  have low: "2 powi (int m - int n - 1) \<le> x"
  proof -
    have "2 powi (int m - int n - 1) * of_int b \<le> (2::rat) powi (int m - int n - 1) * 2 powi (int n)"
      using B(2) unfolding pw by (intro mult_left_mono) (simp_all only: of_int_le_iff, simp_all)
    also have "\<dots> = 2 powi (int (m - 1))"
      by (subst powi_split [symmetric]) (use mn in \<open>simp add: of_nat_diff\<close>)
    also have "\<dots> \<le> of_int a" using A(1) unfolding pw of_int_le_iff .
    finally show ?thesis using b by (simp add: x le_divide_eq)
  qed
  have l: "log2_floor x = (if 2 powi (int m - int n) \<le> x then int m - int n else int m - int n - 1)"
    by (simp add: log2_floor_def q m_def n_def Let_def)
  show "2 powi log2_floor x \<le> x" "x < 2 powi (log2_floor x + 1)" using up low by (simp_all add: l)
qed

lemma round_even_nearest: "\<bar>of_int (round_even x) - x\<bar> \<le> \<bar>of_int k - x\<bar>"
proof -
  define f r where "f = \<lfloor>x\<rfloor>" and "r = x - of_int \<lfloor>x\<rfloor>"
  have x: "of_int f = x - r" and r: "0 \<le> r" "r < 1" unfolding f_def r_def by linarith+
  have e: "round_even x = (if 1 / 2 < r \<or> r = 1 / 2 \<and> odd f then f + 1 else f)"
    by (simp add: round_even_def Let_def f_def r_def)
  have "\<bar>of_int (round_even x) - x\<bar> = min r (1 - r)" unfolding e using x r by (auto simp: min_def)
  moreover have "k \<le> f \<or> f + 1 \<le> k" by linarith
  then have "of_int k \<le> (of_int f :: rat) \<or> of_int f + 1 \<le> (of_int k :: rat)"
    by (metis of_int_1 of_int_add of_int_le_iff)
  then have "min r (1 - r) \<le> \<bar>of_int k - x\<bar>" using x r by (auto simp: min_def)
  ultimately show ?thesis by linarith
qed

lemma round_even_le: "x \<le> of_int k \<Longrightarrow> round_even x \<le> k"
proof (rule ccontr)
  assume x: "x \<le> of_int k" and "\<not> round_even x \<le> k"
  then have "(of_int k :: rat) < of_int (round_even x)" by simp
  with x round_even_nearest [of x k] show False by linarith
qed

lemma round_even_ge: "of_int k \<le> x \<Longrightarrow> k \<le> round_even x"
proof (rule ccontr)
  assume x: "of_int k \<le> x" and "\<not> k \<le> round_even x"
  then have "(of_int (round_even x) :: rat) < of_int k" by simp
  with x round_even_nearest [of x k] show False by linarith
qed

section \<open>The closest double\<close>

definition representable :: "rat \<Rightarrow> bool" where
  "representable y \<longleftrightarrow> (\<exists>m e. \<bar>m\<bar> \<le> 2 ^ 53 \<and> - 1074 \<le> e \<and> y = of_int m * 2 powi e)"

lemma representable_int: "\<bar>m\<bar> \<le> 2 ^ 53 \<Longrightarrow> representable (of_int m)"
  unfolding representable_def by (intro exI [of _ m] exI [of _ 0]) simp

lemma dbl_representable: "representable (dbl x)"
proof (cases "x = 0")
  case True
  then show ?thesis using representable_int [of 0] by (simp add: dbl_def)
next
  case False
  let ?u = "2 powi ulp_exp x :: rat"
  have u: "0 < ?u" by simp
  have "\<bar>x\<bar> \<le> 2 powi (log2_floor \<bar>x\<bar> + 1)" using log2_floor_bounds(2) [of "\<bar>x\<bar>"] False by simp
  also have "\<dots> \<le> 2 powi (53 + ulp_exp x)" by (intro power_int_increasing) (simp_all add: ulp_exp_def)
  also have "\<dots> = 2 ^ 53 * ?u" by (simp add: powi_split)
  finally have "\<bar>x\<bar> / ?u \<le> 2 ^ 53" using u by (simp add: divide_le_eq)
  then have "x / ?u \<le> of_int (2 ^ 53)" "of_int (- (2 ^ 53)) \<le> x / ?u"
    using u by (auto simp: divide_le_eq le_divide_eq abs_le_iff)
  then have "round_even (x / ?u) \<le> 2 ^ 53" "- (2 ^ 53) \<le> round_even (x / ?u)"
    using round_even_le [of "x / ?u" "2 ^ 53"] round_even_ge [of "- (2 ^ 53)" "x / ?u"] by (simp_all only:)
  then have "\<bar>round_even (x / ?u)\<bar> \<le> 2 ^ 53" by linarith
  moreover have "- 1074 \<le> ulp_exp x" by (simp add: ulp_exp_def)
  ultimately show ?thesis using False unfolding representable_def dbl_def by auto
qed

lemma dbl_nearest_multiple: "x \<noteq> 0 \<Longrightarrow> \<bar>dbl x - x\<bar> \<le> \<bar>of_int k * 2 powi ulp_exp x - x\<bar>"
proof -
  assume x: "x \<noteq> 0"
  let ?u = "2 powi ulp_exp x :: rat"
  have u: "0 < ?u" by simp
  have s: "\<bar>of_int j * ?u - x\<bar> = \<bar>of_int j - x / ?u\<bar> * ?u" for j
  proof -
    have "of_int j * ?u - x = (of_int j - x / ?u) * ?u" using u by (simp add: left_diff_distrib)
    then show ?thesis using u by (simp add: abs_mult)
  qed
  show ?thesis using round_even_nearest [of "x / ?u" k] u x by (simp add: dbl_def s)
qed

theorem dbl_nearest:
  assumes "representable y"
  shows "\<bar>dbl x - x\<bar> \<le> \<bar>y - x\<bar>"
proof (cases "x = 0")
  case False
  obtain m e where y: "\<bar>m\<bar> \<le> 2 ^ 53" "- 1074 \<le> e" "y = of_int m * 2 powi e"
    using assms by (auto simp: representable_def)
  show ?thesis
  proof (cases "ulp_exp x \<le> e")
    case True
    then obtain k where k: "e = int k + ulp_exp x" using zle_iff_zadd by (metis add.commute)
    have "y = of_int (m * 2 ^ k) * 2 powi ulp_exp x"
      unfolding y(3) k by (subst powi_split) simp
    then show ?thesis by (simp only:) (rule dbl_nearest_multiple [OF False])
  next
    case False
    then have ue: "ulp_exp x = log2_floor \<bar>x\<bar> - 52" using y(2) by (simp add: ulp_exp_def max_def split: if_splits)
    let ?w = "2 powi log2_floor \<bar>x\<bar> :: rat"
    have "\<bar>y\<bar> = of_int \<bar>m\<bar> * 2 powi e" by (simp add: y(3) abs_mult)
    also have "\<dots> \<le> of_int (2 ^ 53) * 2 powi (ulp_exp x - 1)"
      using y(1) False by (intro mult_mono power_int_increasing) (simp_all only: of_int_le_iff, simp_all)
    also have "\<dots> = 2 powi 53 * 2 powi (ulp_exp x - 1)" by simp
    also have "\<dots> = 2 powi (53 + (ulp_exp x - 1))" by (rule powi_split [symmetric])
    finally have "\<bar>y\<bar> \<le> ?w" by (simp add: ue)
    moreover have w: "?w \<le> \<bar>x\<bar>" using log2_floor_bounds(1) [of "\<bar>x\<bar>"] \<open>x \<noteq> 0\<close> by simp
    moreover have "\<bar>sgn x * ?w - x\<bar> = \<bar>x\<bar> - ?w" using \<open>x \<noteq> 0\<close> w by (cases "0 < x") auto
    moreover have sw: "sgn x * ?w = of_int ((if 0 < x then 1 else - 1) * 2 ^ 52) * 2 powi ulp_exp x"
      using \<open>x \<noteq> 0\<close> powi_split [of 52 "ulp_exp x"] by (simp add: ue)
    moreover have "\<bar>dbl x - x\<bar> \<le> \<bar>sgn x * ?w - x\<bar>" unfolding sw by (rule dbl_nearest_multiple [OF \<open>x \<noteq> 0\<close>])
    ultimately show ?thesis by linarith
  qed
qed (simp add: dbl_def)

lemma dbl_id: "representable x \<Longrightarrow> dbl x = x"
  using dbl_nearest [of x x] by simp

lemma dbl_le: "x \<le> y \<Longrightarrow> representable y \<Longrightarrow> dbl x \<le> y"
  using dbl_nearest [of y x] by linarith

lemma dbl_ge: "y \<le> x \<Longrightarrow> representable y \<Longrightarrow> y \<le> dbl x"
  using dbl_nearest [of y x] by linarith

lemma dbl_mono: "x \<le> y \<Longrightarrow> dbl x \<le> dbl y"
  using dbl_nearest [OF dbl_representable [of y], of x] dbl_nearest [OF dbl_representable [of x], of y]
  by (cases "x = y") (simp, linarith)

lemma dbl_nat: "n \<le> 2 ^ 53 \<Longrightarrow> dbl (of_nat n) = of_nat n"
proof -
  assume "n \<le> 2 ^ 53"
  then have "int n \<le> int (2 ^ 53)" by (simp only: of_nat_le_iff)
  then have "\<bar>int n\<bar> \<le> 2 ^ 53" by simp
  from dbl_id [OF representable_int [OF this]] show ?thesis by simp
qed

text \<open>On natural numbers the two roundings agree.\<close>

lemma log2_floor_nat: "0 < n \<Longrightarrow> log2_floor (of_nat n) = int (bit_len n) - 1"
proof -
  assume n: "0 < n"
  have "quotient_of (of_nat n) = (int n, 1)" using quotient_of_int [of "int n"] by simp
  moreover have "bit_len 1 = 1" by (simp add: bit_len.simps [of "Suc 0"])
  moreover have "(2::rat) powi (int (bit_len n) - 1) \<le> of_nat n"
  proof -
    have "2 ^ (bit_len n - 1) \<le> n" "0 < bit_len n" using bit_len_bounds n by simp_all
    then have "(of_nat (2 ^ (bit_len n - 1)) :: rat) \<le> of_nat n" by (simp only: of_nat_le_iff)
    moreover have "int (bit_len n) - 1 = int (bit_len n - 1)" using \<open>0 < bit_len n\<close> by linarith
    then have "(2::rat) powi (int (bit_len n) - 1) = of_nat (2 ^ (bit_len n - 1))" by (simp only: power_int_of_nat) simp
    ultimately show ?thesis by simp
  qed
  ultimately show ?thesis by (simp add: log2_floor_def)
qed

lemma round_even_div:
  "round_even (of_nat x / of_nat (2 ^ k)) =
     (let q = x div 2 ^ k; r = x mod 2 ^ k in if 2 ^ k < 2 * r \<or> 2 * r = 2 ^ k \<and> odd q then int (q + 1) else int q)"
proof -
  define d where "d = (2::nat) ^ k"
  define q r where "q = x div d" and "r = x mod d"
  have d: "0 < d" "r < d" and x: "x = q * d + r" unfolding q_def r_def d_def by (simp_all only: div_mult_mod_eq) simp_all
  have e: "of_nat x / of_nat d = (of_nat q + of_nat r / of_nat d :: rat)" using d by (simp add: x add_divide_distrib)
  have f: "\<lfloor>of_nat x / of_nat d :: rat\<rfloor> = int q"
    unfolding e using d by (intro floor_unique) (simp_all add: divide_less_eq)
  have fr: "of_nat x / of_nat d - of_int (int q) = (of_nat r / of_nat d :: rat)" unfolding e by simp
  have "(1 / 2 < (of_nat r / of_nat d :: rat)) = (of_nat d < (of_nat (2 * r) :: rat))"
    "(of_nat r / of_nat d = (1 / 2 :: rat)) = (of_nat (2 * r) = (of_nat d :: rat))"
    using d by (auto simp: less_divide_eq divide_eq_eq)
  then have "(1 / 2 < (of_nat r / of_nat d :: rat)) = (d < 2 * r)" "(of_nat r / of_nat d = (1 / 2 :: rat)) = (2 * r = d)"
    by (simp_all only: of_nat_less_iff of_nat_eq_iff)
  then show ?thesis unfolding d_def [symmetric] q_def [symmetric] r_def [symmetric] Let_def round_even_def f fr
    by (simp add: add.commute)
qed

lemma dbl_of_nat: "dbl (of_nat n) = of_nat (round53 n)"
proof (cases "n < 2 ^ 53")
  case True
  then show ?thesis by (simp add: dbl_nat round53_small)
next
  case False
  then have n: "0 < n" "53 \<le> bit_len n - 1 + 1"
    using bit_len_bounds [of n] power_increasing [of "bit_len n" 53 "2::nat"] by (auto simp: not_less) (meson leD le_trans linorder_le_cases)
  define k where "k = bit_len n - 53"
  have "ulp_exp (of_nat n) = int k" using n by (simp add: ulp_exp_def log2_floor_nat k_def)
  then have "dbl (of_nat n) = of_int (round_even (of_nat n / of_nat (2 ^ k))) * of_nat (2 ^ k)"
    using n by (simp add: dbl_def)
  then show ?thesis unfolding round_even_div by (simp add: round53_def Let_def k_def distrib_right)
qed

lemma dbl_nonneg: "0 \<le> x \<Longrightarrow> 0 \<le> dbl x"
  using dbl_ge [of 0 x] representable_int [of 0] by simp

lemma llround_le: "x \<le> of_int k \<Longrightarrow> llround x \<le> k"
proof -
  assume x: "x \<le> of_int k"
  show ?thesis
  proof (cases "0 \<le> x")
    case True
    have "x + 1 / 2 < of_int (k + 1)" using x by simp
    then have "\<lfloor>x + 1 / 2\<rfloor> < k + 1" by (simp only: floor_less_iff)
    with True show ?thesis by (simp add: llround_def)
  next
    case False
    have "of_int (- k) \<le> - x + 1 / 2" using x by simp
    then have "- k \<le> \<lfloor>- x + 1 / 2\<rfloor>" by (simp only: le_floor_iff)
    with False show ?thesis by (simp add: llround_def)
  qed
qed

lemma llround_nonneg: "0 \<le> x \<Longrightarrow> 0 \<le> llround x"
  by (simp add: llround_def)

lemma llround_mono: "0 \<le> x \<Longrightarrow> x \<le> y \<Longrightarrow> llround x \<le> llround y"
  by (simp add: llround_def floor_mono)

end
