(* ===== verification/Latency.thy ===== *)
theory Latency
  imports Csv_Text Doubles
begin

text \<open>
  \<^verbatim>\<open>src/metrics/latency_recorder.cpp\<close>: latency samples per stage and the percentiles of the
  summary. A percentile index is computed in double precision: the factor times the number
  of samples minus one, truncated. All numbers involved are multiples of \<open>2 ^ -53\<close>, so a double
  is modelled by its numerator, rounded by \<open>round53\<close>.
\<close>

section \<open>The recorder\<close>

type_synonym latency_data = "(string \<times> u64 list) list"

definition lr_record :: "string \<Rightarrow> u64 \<Rightarrow> latency_data \<Rightarrow> latency_data" where
  "lr_record stage ns d =
     AList.update stage ((case map_of d stage of None \<Rightarrow> [] | Some xs \<Rightarrow> xs) @ [ns]) d"

definition lr_clear :: "latency_data \<Rightarrow> latency_data" where
  "lr_clear d = []"

text \<open>A row of a log: the columns with commas between them, and a newline.\<close>

definition log_row :: "string list \<Rightarrow> string" where
  "log_row cols = csv_row cols @ [CHR 0x0A]"

text \<open>The doubles 0.50, 0.99 and 0.999, as multiples of \<open>2 ^ -53\<close>.\<close>

definition p50 :: nat where "p50 = 0x10000000000000"
definition p99 :: nat where "p99 = 0x1fae147ae147ae"
definition p999 :: nat where "p999 = 0x1ff7ced916872b"

definition pct_raw :: "nat \<Rightarrow> nat \<Rightarrow> nat" where
  "pct_raw p n = round53 (p * round53 (n - 1)) div 2 ^ 53"

definition pct :: "nat \<Rightarrow> u64 list \<Rightarrow> u64" where
  "pct p vals =
     (let idx0 = pct_raw p (length vals);
          idx = (if idx0 \<ge> length vals then length vals - 1 else idx0)
      in vals ! idx)"

definition summary_row :: "string \<times> u64 list \<Rightarrow> string" where
  "summary_row e =
     (case e of (stage, vals0) \<Rightarrow>
        if vals0 = [] then []
        else let vals = sort vals0; num = (\<lambda>w. show_nat (unat w))
             in log_row [stage, show_nat (length vals), num (pct p50 vals), num (pct p99 vals), num (pct p999 vals),
                  num (last vals)])"

text \<open>The summary; \<open>ho\<close> is the iteration order of the hash map of stages.\<close>

definition summary_csv :: "(latency_data \<Rightarrow> latency_data) \<Rightarrow> latency_data \<Rightarrow> string" where
  "summary_csv ho d =
     log_row [''stage'', ''count'', ''p50_ns'', ''p99_ns'', ''p999_ns'', ''max_ns''] @ concat (map summary_row (ho d))"

section \<open>Percentiles\<close>

lemma pct_raw_bounds:
  assumes "p \<le> 2 ^ 53" and "n - 1 < 2 ^ 53"
  shows "pct_raw p n \<le> n - 1"
proof -
  have N: "round53 (n - 1) = n - 1" using assms(2) by (rule round53_small)
  have "p * (n - 1) \<le> (n - 1) * 2 ^ 53" using assms(1) by (subst mult.commute) (rule mult_left_mono, simp_all)
  then have "round53 (p * (n - 1)) \<le> (n - 1) * 2 ^ 53" using assms(2) by (intro round53_le_representable) simp_all
  then have "round53 (p * (n - 1)) div 2 ^ 53 \<le> (n - 1) * 2 ^ 53 div 2 ^ 53" by (rule div_le_mono)
  then show ?thesis unfolding pct_raw_def N by simp
qed

lemma pct_raw_mono: "p \<le> q \<Longrightarrow> pct_raw p n \<le> pct_raw q n"
  unfolding pct_raw_def by (intro div_le_mono round53_mono mult_right_mono) simp_all

lemma pct_raw_median:
  assumes "n - 1 < 2 ^ 53"
  shows "pct_raw p50 n = (n - 1) div 2"
proof -
  have e: "p50 * (n - 1) = (n - 1) * 2 ^ 52" by (simp add: p50_def)
  have "round53 (p50 * (n - 1)) = p50 * (n - 1)"
  proof (rule antisym)
    show "round53 (p50 * (n - 1)) \<le> p50 * (n - 1)"
      unfolding e using assms by (intro round53_le_representable) simp_all
  next
    let ?x = "p50 * (n - 1)"
    show "?x \<le> round53 ?x"
    proof (cases "n - 1 = 0")
      case False
      have "bit_len ?x - 53 \<le> 52"
      proof (rule ccontr)
        assume "\<not> bit_len ?x - 53 \<le> 52"
        then have "(2::nat) ^ 105 \<le> 2 ^ (bit_len ?x - 1)" by (intro power_increasing) simp_all
        moreover have "?x \<noteq> 0" using False by (simp add: p50_def)
        ultimately have "2 ^ 105 \<le> ?x" using bit_len_bounds by (meson order_trans)
        moreover have "?x < 2 ^ 53 * 2 ^ 52" unfolding e using assms by (intro mult_strict_right_mono) simp_all
        ultimately show False by simp
      qed
      then have "?x = (n - 1) * 2 ^ (52 - (bit_len ?x - 53)) * 2 ^ (bit_len ?x - 53)"
        unfolding e by (simp add: mult.assoc flip: power_add)
      from round53_mult [OF this] show ?thesis by simp
    qed simp
  qed
  then show ?thesis unfolding pct_raw_def round53_small [OF assms] by (simp add: p50_def)
qed

section \<open>Properties\<close>

text \<open>
  C20: the percentiles of the latency summary are sound. For any non-empty list of fewer than
  \<open>2 ^ 53\<close> samples the index computed in double precision is never past the end, so the
  guard in \<open>pct\<close> never fires; the median is the middle sample; and the reported p50, p99,
  p99.9 and maximum are samples and ordered.
\<close>

theorem latency_percentiles_sound:
  assumes "vals \<noteq> []" and "length vals < 2 ^ 53"
  shows "(\<forall>p \<in> {p50, p99, p999}. pct_raw p (length vals) < length vals \<and> pct p (sort vals) \<in> set vals) \<and>
    pct p50 (sort vals) = sort vals ! ((length vals - 1) div 2) \<and>
    pct p50 (sort vals) \<le> pct p99 (sort vals) \<and> pct p99 (sort vals) \<le> pct p999 (sort vals) \<and>
    pct p999 (sort vals) \<le> last (sort vals)"
proof -
  let ?n = "length vals" and ?s = "sort vals"
  have n: "0 < ?n" "?n - 1 < 2 ^ 53" using assms by simp_all
  have idx: "pct_raw p ?n < ?n" if "p \<le> 2 ^ 53" for p using pct_raw_bounds [OF that n(2)] n(1) by linarith
  have ps: "p50 \<le> 2 ^ 53" "p99 \<le> 2 ^ 53" "p999 \<le> 2 ^ 53" "p50 \<le> p99" "p99 \<le> p999"
    by (simp_all add: p50_def p99_def p999_def)
  have at: "pct p ?s = ?s ! pct_raw p ?n" if "p \<le> 2 ^ 53" for p using idx [OF that] by (simp add: pct_def Let_def)
  have mem: "pct p ?s \<in> set vals" if "p \<le> 2 ^ 53" for p
    using at [OF that] idx [OF that] nth_mem [of "pct_raw p ?n" ?s] by simp
  have mono: "?s ! i \<le> ?s ! j" if "i \<le> j" "j < ?n" for i j
    using that by (intro sorted_nth_mono) simp_all
  have "?s \<noteq> []" using n(1) by (metis length_sort list.size(3) less_numeral_extra(3))
  then have lst: "last ?s = ?s ! (?n - 1)" using last_conv_nth [of ?s] by simp
  have "\<forall>p \<in> {p50, p99, p999}. pct_raw p ?n < ?n \<and> pct p ?s \<in> set vals"
    using idx [OF ps(1)] idx [OF ps(2)] idx [OF ps(3)] mem [OF ps(1)] mem [OF ps(2)] mem [OF ps(3)] by blast
  moreover have "pct p50 ?s = ?s ! ((?n - 1) div 2)" unfolding at [OF ps(1)] pct_raw_median [OF n(2)] ..
  moreover have "pct p50 ?s \<le> pct p99 ?s"
    unfolding at [OF ps(1)] at [OF ps(2)] by (rule mono [OF pct_raw_mono [OF ps(4)] idx [OF ps(2)]])
  moreover have "pct p99 ?s \<le> pct p999 ?s"
    unfolding at [OF ps(2)] at [OF ps(3)] by (rule mono [OF pct_raw_mono [OF ps(5)] idx [OF ps(3)]])
  moreover have "pct p999 ?s \<le> last ?s"
    unfolding at [OF ps(3)] lst by (rule mono [OF pct_raw_bounds [OF ps(3) n(2)]]) (use n(1) in simp)
  ultimately show ?thesis by blast
qed

theorem latency_percentiles_sound_witness:
  "pct p50 (sort [5, 1, 9 :: u64]) = sort [5, 1, 9] ! 1 \<and> pct p999 (sort [5, 1, 9]) \<le> last (sort [5, 1, 9 :: u64])"
  using latency_percentiles_sound [of "[5, 1, 9]"] by simp

end
