(* ===== verification/Simulator.thy ===== *)
theory Simulator
  imports Matching Pair_Hedge Market_Data Latency
begin

text \<open>
  \<^verbatim>\<open>src/sim/simulator.cpp\<close> with the stage timers of \<^verbatim>\<open>src/metrics/latency_recorder.cpp\<close>: the
  replay loop that reads market data, maintains the books, asks the strategy, checks the
  risk, submits both legs and hedges what is left. The five log files are the text written
  to them. The world record holds everything the loop shares by reference: the engine with
  the books, the risk engine, the order manager and the positions, the ids, the counters,
  the logs and the latency samples. Every read of the clock, by the stage timers and by
  the matching engine, takes the next reading of \<open>clock\<close>. The latency summary
  written at the end is \<open>latency_file\<close>.
\<close>

section \<open>State\<close>

record sim_result =
  sr_opportunities :: i32
  sr_trades :: i32
  sr_hedges :: i32
  sr_risk_blocks :: i32
  sr_final_state :: string

definition empty_result :: sim_result where
  "empty_result = \<lparr>sr_opportunities = 0, sr_trades = 0, sr_hedges = 0, sr_risk_blocks = 0, sr_final_state = []\<rparr>"

record sim_logs =
  lg_opportunities :: string
  lg_orders :: string
  lg_fills :: string
  lg_risks :: string
  lg_pairs :: string

record simulator =
  si_costs :: cost_model
  si_risk_cfg :: risk_config
  si_strategy_cfg :: strategy_config
  si_scenario :: scenario_config

record sim_world =
  w_engine :: matching_engine
  w_risk :: risk_engine
  w_oms :: order_manager
  w_positions :: position_book
  w_ids :: id_generator
  w_result :: sim_result
  w_logs :: sim_logs
  w_latency :: latency_data

abbreviation w_books :: "sim_world \<Rightarrow> book_manager" where
  "w_books w \<equiv> me_books (w_engine w)"

definition inc_result :: "i32 \<Rightarrow> i32" where
  "inc_result n = wrap32 (n + 1)"

section \<open>Stage timers\<close>

definition tick :: "sim_world \<Rightarrow> sim_world" where
  "tick w = w\<lparr>w_engine := (w_engine w)\<lparr>me_ticks := Suc (me_ticks (w_engine w))\<rparr>\<rparr>"

definition timer_start :: "(nat \<Rightarrow> u64) \<Rightarrow> sim_world \<Rightarrow> u64 \<times> sim_world" where
  "timer_start clock w = (clock (me_ticks (w_engine w)), tick w)"

definition timer_stop :: "(nat \<Rightarrow> u64) \<Rightarrow> string \<Rightarrow> u64 \<Rightarrow> sim_world \<Rightarrow> sim_world" where
  "timer_stop clock stage start w =
     (tick w)\<lparr>w_latency := lr_record stage (clock (me_ticks (w_engine w)) - start) (w_latency w)\<rparr>"

section \<open>Logs\<close>

definition open_logs :: sim_logs where
  "open_logs =
     \<lparr>lg_opportunities = log_row [''parent_arb_id'', ''ts_decision_ns'', ''instrument_id'', ''buy_venue'', ''sell_venue'',
        ''buy_price_paise'', ''sell_price_paise'', ''gross_spread_paise'', ''net_edge_paise'', ''qty'', ''decision_reason''],
      lg_orders = log_row [''parent_arb_id'', ''client_order_id'', ''instrument_id'', ''venue'', ''side'', ''role'',
        ''price_paise'', ''qty'', ''filled_qty'', ''state'', ''ts_sent_ns'', ''ts_ack_ns'', ''ts_done_ns'', ''err_code''],
      lg_fills = log_row [''parent_arb_id'', ''client_order_id'', ''instrument_id'', ''venue'', ''side'',
        ''fill_px_paise'', ''fill_qty'', ''ts_fill_ns''],
      lg_risks = log_row [''ts_ns'', ''severity'', ''rule_name'', ''instrument_id'', ''details''],
      lg_pairs = log_row [''parent_arb_id'', ''instrument_id'', ''state'', ''bought_qty'', ''sold_qty'', ''residual'',
        ''hedge_attempts'', ''last_error'']\<rparr>"

definition log_opportunity :: "strategy_decision \<Rightarrow> string \<Rightarrow> sim_logs \<Rightarrow> sim_logs" where
  "log_opportunity d parent_id lg =
     lg\<lparr>lg_opportunities := lg_opportunities lg @
       (if sd_should_trade d
        then let o1 = sd_opportunity d in
             log_row [ao_parent_arb_id o1, show_nat (unat (ao_ts_decision_ns o1)), show_nat (unat (ao_instrument_id o1)),
               venue_to_string (ao_buy_venue o1), venue_to_string (ao_sell_venue o1), show_int (ao_buy_price_paise o1),
               show_int (ao_sell_price_paise o1), show_int (ao_gross_spread_paise o1), show_int (ao_net_edge_paise o1),
               show_int (ao_qty o1), ao_reason o1]
        else log_row [parent_id, ''0'', ''0'', ''UNKNOWN'', ''UNKNOWN'', ''0'', ''0'',
               show_int (sd_best_gross_spread_paise d), show_int (sd_best_net_edge_paise d), ''0'', sd_reason d])\<rparr>"

definition log_order :: "order \<Rightarrow> sim_logs \<Rightarrow> sim_logs" where
  "log_order o1 lg =
     (let i = or_intent o1 in
      lg\<lparr>lg_orders := lg_orders lg @
        log_row [oi_parent_arb_id i, or_client_order_id o1, show_nat (unat (oi_instrument_id i)),
          venue_to_string (oi_venue i), side_to_string (oi_side i), role_to_string (oi_role i),
          show_int (oi_price_paise i), show_int (oi_qty i), show_int (or_filled_qty o1),
          order_state_to_string (or_state o1), show_nat (unat (or_ts_sent_ns o1)), show_nat (unat (or_ts_ack_ns o1)),
          show_nat (unat (or_ts_done_ns o1)), or_err_code o1]\<rparr>)"

definition log_fill :: "fill \<Rightarrow> sim_logs \<Rightarrow> sim_logs" where
  "log_fill f lg =
     lg\<lparr>lg_fills := lg_fills lg @
       log_row [fl_parent_arb_id f, fl_client_order_id f, show_nat (unat (fl_instrument_id f)),
         venue_to_string (fl_venue f), side_to_string (fl_side f), show_int (fl_fill_px_paise f),
         show_int (fl_fill_qty f), show_nat (unat (fl_ts_fill_ns f))]\<rparr>"

definition log_risk :: "u64 \<Rightarrow> string \<Rightarrow> string \<Rightarrow> u32 \<Rightarrow> string \<Rightarrow> sim_logs \<Rightarrow> sim_logs" where
  "log_risk ts severity rule i details lg =
     lg\<lparr>lg_risks := lg_risks lg @ log_row [show_nat (unat ts), severity, rule, show_nat (unat i), details]\<rparr>"

definition log_pair :: "pair_trade \<Rightarrow> sim_logs \<Rightarrow> sim_logs" where
  "log_pair p lg =
     lg\<lparr>lg_pairs := lg_pairs lg @
       log_row [pt_parent_id p, show_nat (unat (pt_instrument_id p)), pair_state_to_string (pt_state p),
         show_int (pt_bought_qty p), show_int (pt_sold_qty p), show_int (residual p), show_int (pt_hedge_attempts p),
         pt_last_error p]\<rparr>"

text \<open>
  \<open>log_all_orders_and_new_fills\<close>, which nothing calls: every order not logged before, in the
  iteration order \<open>ho\<close> of the hash map of orders, then the fills not taken before.
\<close>

definition log_new_order :: "string \<times> order \<Rightarrow> string set \<times> sim_logs \<Rightarrow> string set \<times> sim_logs" where
  "log_new_order e s =
     (case e of (cid, o1) \<Rightarrow> case s of (logged, lg) \<Rightarrow>
        if cid \<in> logged then (logged, lg) else (insert cid logged, log_order o1 lg))"

definition log_all_orders_and_new_fills ::
  "((string \<times> order) list \<Rightarrow> (string \<times> order) list) \<Rightarrow> order_manager \<Rightarrow> string set \<times> sim_logs \<Rightarrow>
   order_manager \<times> string set \<times> sim_logs" where
  "log_all_orders_and_new_fills ho om s =
     (case fold log_new_order (ho (om_orders om)) s of (logged, lg) \<Rightarrow>
      case om_take_new_fills om of (new_fills, om') \<Rightarrow> (om', logged, fold log_fill new_fills lg))"

text \<open>\<^verbatim>\<open>log_risk(...); result.risk_blocks++\<close>, which the loop always does together.\<close>

definition risk_blocked :: "u64 \<Rightarrow> string \<Rightarrow> string \<Rightarrow> u32 \<Rightarrow> string \<Rightarrow> sim_world \<Rightarrow> sim_world" where
  "risk_blocked ts severity rule i details w =
     w\<lparr>w_logs := log_risk ts severity rule i details (w_logs w),
       w_result := (w_result w)\<lparr>sr_risk_blocks := inc_result (sr_risk_blocks (w_result w))\<rparr>\<rparr>"

section \<open>Submitting and collecting fills\<close>

definition submit_world ::
  "iteration_order \<Rightarrow> (nat \<Rightarrow> u64) \<Rightarrow> order_intent \<Rightarrow> u64 \<Rightarrow> sim_world \<Rightarrow> (order \<times> sim_world) option" where
  "submit_world h clock intent now w =
     (case om_submit (matching_send h clock) intent now (w_oms w, w_positions w) (w_engine w) of
        None \<Rightarrow> None
      | Some (o1, s, e) \<Rightarrow> Some (o1, w\<lparr>w_oms := fst s, w_positions := snd s, w_engine := e\<rparr>))"

text \<open>
  \<^verbatim>\<open>log_order(o)\<close>, then the new fills are taken, logged and, if they belong to the pair,
  applied to it: the common part of \<open>send_one\<close> and \<open>hedge_until_flat\<close>.
\<close>

definition collect_fills :: "order \<Rightarrow> pair_trade \<Rightarrow> sim_world \<Rightarrow> pair_trade \<times> sim_world" where
  "collect_fills o1 p w =
     (case om_take_new_fills (w_oms w) of (new_fills, om) \<Rightarrow>
        (fold (\<lambda>f p. if fl_parent_arb_id f = pt_parent_id p then pair_apply_fill f p else p) new_fills p,
         w\<lparr>w_oms := om, w_logs := fold log_fill new_fills (log_order o1 (w_logs w))\<rparr>))"

definition send_one ::
  "iteration_order \<Rightarrow> (nat \<Rightarrow> u64) \<Rightarrow> best_quote \<Rightarrow> u64 \<Rightarrow> order_intent \<Rightarrow> pair_trade \<times> sim_world \<Rightarrow>
   (pair_trade \<times> sim_world) option" where
  "send_one h clock q now intent s =
     (case s of (p, w0) \<Rightarrow>
        case timer_start clock w0 of (t0, w1) \<Rightarrow>
        case check_order intent q now (w_positions w1) (w_risk w1) of (rd, risk) \<Rightarrow>
          let w2 = timer_stop clock ''risk'' t0 (w1\<lparr>w_risk := risk\<rparr>)
          in if \<not> rd_approved rd
             then Some (mark_leg_failed (rd_rule rd) now p,
                        risk_blocked now ''HIGH'' (rd_rule rd) (oi_instrument_id intent) (rd_details rd) w2)
             else case timer_start clock w2 of (t1, w3) \<Rightarrow>
                  case submit_world h clock intent now w3 of
                    None \<Rightarrow> None
                  | Some (o1, w4) \<Rightarrow>
                      (case collect_fills o1 p w4 of (p1, w5) \<Rightarrow>
                         Some (if or_state o1 = OsRejected \<or> or_state o1 = OsExpired
                               then mark_leg_failed (or_err_code o1) (or_ts_done_ns o1) p1 else p1,
                               timer_stop clock ''oms_gateway'' t1 w5)))"

section \<open>Hedging\<close>

definition value_or :: "best_quote option \<Rightarrow> best_quote" where
  "value_or q = (case q of None \<Rightarrow> empty_quote | Some q \<Rightarrow> q)"

text \<open>One iteration of the loop; the flag says whether the loop goes on.\<close>

definition hedge_step ::
  "iteration_order \<Rightarrow> (nat \<Rightarrow> u64) \<Rightarrow> risk_config \<Rightarrow> u64 \<Rightarrow> pair_trade \<Rightarrow> sim_world \<Rightarrow> (bool \<times> pair_trade \<times> sim_world) option" where
  "hedge_step h clock cfg now p w =
     (let nse_q = value_or (bm_quote NSE (pt_instrument_id p) now (w_books w));
          bse_q = value_or (bm_quote BSE (pt_instrument_id p) now (w_books w));
          d = hedge_next_order cfg p nse_q bse_q
      in if hd_kill d
         then Some (False, p\<lparr>pt_state := PsKillSwitch, pt_last_error := hd_reason d\<rparr>,
                    risk_blocked now ''CRITICAL'' (hd_reason d) (pt_instrument_id p) ''hedge policy kill''
                      (w\<lparr>w_risk := (w_risk w)\<lparr>rk_kill := ks_disable (hd_reason d) (rk_kill (w_risk w))\<rparr>\<rparr>))
         else if \<not> hd_should_send d
         then Some (False, p\<lparr>pt_state := PsErrorRecovery, pt_last_error := hd_reason d\<rparr>,
                    risk_blocked now ''HIGH'' (hd_reason d) (pt_instrument_id p) ''no hedge order produced'' w)
         else
           let p1 = p\<lparr>pt_hedge_attempts := wrap32 (pt_hedge_attempts p + 1)\<rparr>;
               intent = hd_intent d
           in case check_order intent (if oi_venue intent = NSE then nse_q else bse_q) now (w_positions w) (w_risk w) of
                (rd, risk) \<Rightarrow>
                  let w1 = w\<lparr>w_risk := risk\<rparr>
                  in if \<not> rd_approved rd
                     then Some (False, p1\<lparr>pt_state := PsErrorRecovery, pt_last_error := rd_rule rd\<rparr>,
                                risk_blocked now ''HIGH'' (rd_rule rd) (pt_instrument_id p1) (rd_details rd) w1)
                     else case submit_world h clock intent now w1 of
                            None \<Rightarrow> None
                          | Some (o1, w2) \<Rightarrow>
                              (case collect_fills o1 p1 w2 of (p2, w3) \<Rightarrow>
                                 Some (True, p2, w3\<lparr>w_result := (w_result w3)
                                   \<lparr>sr_hedges := inc_result (sr_hedges (w_result w3))\<rparr>\<rparr>)))"

partial_function (option) hedge_loop ::
  "iteration_order \<Rightarrow> (nat \<Rightarrow> u64) \<Rightarrow> risk_config \<Rightarrow> u64 \<Rightarrow> pair_trade \<Rightarrow> sim_world \<Rightarrow> (pair_trade \<times> sim_world) option" where
  "hedge_loop h clock cfg now p w =
     (if residual p \<noteq> 0 \<and> pt_hedge_attempts p < rc_max_hedge_attempts cfg
      then case hedge_step h clock cfg now p w of
             None \<Rightarrow> None
           | Some r \<Rightarrow> if fst r then hedge_loop h clock cfg now (fst (snd r)) (snd (snd r)) else Some (snd r)
      else Some (p, w))"

definition hedge_until_flat ::
  "iteration_order \<Rightarrow> (nat \<Rightarrow> u64) \<Rightarrow> risk_config \<Rightarrow> u64 \<Rightarrow> pair_trade \<Rightarrow> sim_world \<Rightarrow> (pair_trade \<times> sim_world) option" where
  "hedge_until_flat h clock cfg now p0 w0 =
     (case hedge_loop h clock cfg now p0 w0 of
        None \<Rightarrow> None
      | Some (p, w) \<Rightarrow>
          Some (if residual p = 0 then p\<lparr>pt_state := PsFlat\<rparr>
                else if pt_state p = PsHedging then p\<lparr>pt_state := PsErrorRecovery\<rparr> else p, w))"

section \<open>One opportunity\<close>

definition buy_intent :: "arb_opportunity \<Rightarrow> order_intent" where
  "buy_intent opp = empty_intent\<lparr>oi_parent_arb_id := ao_parent_arb_id opp, oi_instrument_id := ao_instrument_id opp,
     oi_venue := ao_buy_venue opp, oi_side := Buy, oi_order_type := LimitOrder, oi_tif := IOC, oi_role := AlphaBuy,
     oi_price_paise := ao_buy_price_paise opp, oi_qty := ao_qty opp\<rparr>"

definition sell_intent :: "arb_opportunity \<Rightarrow> order_intent" where
  "sell_intent opp = (buy_intent opp)\<lparr>oi_venue := ao_sell_venue opp, oi_side := Sell, oi_role := AlphaSell,
     oi_price_paise := ao_sell_price_paise opp\<rparr>"

definition execute_opportunity ::
  "iteration_order \<Rightarrow> (nat \<Rightarrow> u64) \<Rightarrow> simulator \<Rightarrow> arb_opportunity \<Rightarrow> u64 \<Rightarrow> sim_world \<Rightarrow> (pair_trade \<times> sim_world) option" where
  "execute_opportunity h clock sim opp now w0 =
     (let pair = from_opportunity opp;
          nse_q = value_or (bm_quote NSE (ao_instrument_id opp) now (w_books w0));
          bse_q = value_or (bm_quote BSE (ao_instrument_id opp) now (w_books w0));
          buy = buy_intent opp; sell = sell_intent opp;
          quote_for = (\<lambda>i. if oi_venue i = NSE then nse_q else bse_q);
          send = (\<lambda>i. send_one h clock (quote_for i) now i);
          (first, second) = (if sn_send_sell_first (si_scenario sim) then (sell, buy) else (buy, sell))
      in case send first (pair, w0) of
           None \<Rightarrow> None
         | Some s1 \<Rightarrow>
           (case send second s1 of
              None \<Rightarrow> None
            | Some (p2, w2) \<Rightarrow>
              (case (if residual p2 \<noteq> 0
                     then hedge_until_flat h clock (si_risk_cfg sim) now (p2\<lparr>pt_state := PsHedging\<rparr>) w2
                     else Some (p2, w2)) of
                 None \<Rightarrow> None
               | Some (p3, w3) \<Rightarrow>
                   let p4 = (if residual p3 = 0 then p3\<lparr>pt_state := PsFlat\<rparr> else p3)
                   in Some (p4, w3\<lparr>w_logs := log_pair p4 (w_logs w3),
                                   w_result := (w_result w3)\<lparr>sr_final_state := pair_state_to_string (pt_state p4)\<rparr>\<rparr>))))"

section \<open>The replay loop\<close>

definition replay_event ::
  "iteration_order \<Rightarrow> (nat \<Rightarrow> u64) \<Rightarrow> simulator \<Rightarrow> i32 \<Rightarrow> feed_health \<Rightarrow> md_result \<Rightarrow> book_event \<Rightarrow> sim_world \<Rightarrow> sim_world option" where
  "replay_event h clock sim max_trades health item ev w0 =
     (let now = be_ts_ingest_ns ev; i = be_instrument_id ev in
      case timer_start clock w0 of (t0, w1) \<Rightarrow>
      let w2 = w1\<lparr>w_engine := (w_engine w1)\<lparr>me_books := snd (bm_on_event ev (w_books w1))\<rparr>\<rparr>;
          w3 = (if mr_sequence_status item = SeqGap
                then risk_blocked now ''HIGH'' ''SEQUENCE_GAP'' i (mr_warning item) w2 else w2);
          w4 = timer_stop clock ''md_to_book'' t0 w3
      in case (bm_quote NSE i now (w_books w4), bm_quote BSE i now (w_books w4)) of
           (Some nse_q, Some bse_q) \<Rightarrow>
             if \<not> fh_is_healthy NSE i health \<or> \<not> fh_is_healthy BSE i health
             then Some (risk_blocked now ''HIGH'' ''UNHEALTHY_FEED'' i ''feed marked unsafe'' w4)
             else
               (case timer_start clock w4 of (t1, w5) \<Rightarrow>
                let d = evaluate (si_strategy_cfg sim) nse_q bse_q (si_costs sim) now;
                    w6 = timer_stop clock ''strategy'' t1 w5
                in if \<not> sd_should_trade d
                   then Some (if sd_reason d \<noteq> ''INVALID_QUOTE'' then w6\<lparr>w_logs := log_opportunity d [] (w_logs w6)\<rparr> else w6)
                   else
                     (case next_parent (ao_instrument_id (sd_opportunity d)) (w_ids w6) of (pid, ids) \<Rightarrow>
                      let d1 = d\<lparr>sd_opportunity := (sd_opportunity d)\<lparr>ao_parent_arb_id := pid\<rparr>\<rparr>;
                          w7 = w6\<lparr>w_ids := ids, w_logs := log_opportunity d1 [] (w_logs w6),
                                  w_result := (w_result w6)\<lparr>sr_opportunities := inc_result (sr_opportunities (w_result w6))\<rparr>\<rparr>
                      in if sr_trades (w_result w7) \<ge> max_trades then Some w7
                         else (case execute_opportunity h clock sim (sd_opportunity d1) now w7 of
                                 None \<Rightarrow> None
                               | Some (p, w8) \<Rightarrow>
                                   Some (w8\<lparr>w_result := (w_result w8)\<lparr>sr_trades := inc_result (sr_trades (w_result w8))\<rparr>\<rparr>))))
         | _ \<Rightarrow> Some w4)"

text \<open>An item without an event only passes through the timer of the first stage.\<close>

definition replay_item ::
  "iteration_order \<Rightarrow> (nat \<Rightarrow> u64) \<Rightarrow> simulator \<Rightarrow> i32 \<Rightarrow> feed_health \<Rightarrow> md_result \<Rightarrow> sim_world \<Rightarrow> sim_world option" where
  "replay_item h clock sim max_trades health item w =
     (case mr_event item of
        None \<Rightarrow> (case timer_start clock w of (t0, w1) \<Rightarrow> Some (timer_stop clock ''md_to_book'' t0 w1))
      | Some ev \<Rightarrow> replay_event h clock sim max_trades health item ev w)"

function replay_loop ::
  "iteration_order \<Rightarrow> (nat \<Rightarrow> u64) \<Rightarrow> simulator \<Rightarrow> i32 \<Rightarrow> md_handler \<Rightarrow> sim_world \<Rightarrow> (md_handler \<times> sim_world) option" where
  "replay_loop h clock sim max_trades md w =
     (case md_next md of
        (None, md') \<Rightarrow> Some (md', w)
      | (Some item, md') \<Rightarrow>
          (case replay_item h clock sim max_trades (mh_health md') item w of
             None \<Rightarrow> None
           | Some w' \<Rightarrow> replay_loop h clock sim max_trades md' w'))"
  by pat_completeness auto
termination
  by (relation "measure (\<lambda>(h, clock, sim, n, md, w). length (rr_lines (mh_reader md)))")
    (auto dest: md_next_shorter [OF sym])

declare replay_loop.simps [simp del]

text \<open>
  \<open>run_replay\<close> on a simulator whose books are \<open>books\<close>; \<open>ticks\<close> readings of the clock have been
  made. The constructor of the market data handler throws after the logs were opened.
\<close>

definition initial_world :: "simulator \<Rightarrow> book_manager \<Rightarrow> nat \<Rightarrow> sim_world" where
  "initial_world sim books ticks =
     (let re = new_risk_engine (si_risk_cfg sim) in
      \<lparr>w_engine = \<lparr>me_books = books, me_scenario = si_scenario sim, me_ticks = ticks\<rparr>,
       w_risk = (if sn_manual_kill (si_scenario sim)
                 then re\<lparr>rk_kill := ks_disable ''MANUAL_KILL_SCENARIO'' (rk_kill re)\<rparr> else re),
       w_oms = new_order_manager, w_positions = [], w_ids = new_id_generator ''SIM'',
       w_result = empty_result, w_logs = open_logs, w_latency = lr_clear []\<rparr>)"

definition run_replay ::
  "iteration_order \<Rightarrow> (nat \<Rightarrow> u64) \<Rightarrow> (string \<Rightarrow> string option) \<Rightarrow> simulator \<Rightarrow> book_manager \<Rightarrow> nat \<Rightarrow> string \<Rightarrow> i32 \<Rightarrow>
   (string + sim_world) option" where
  "run_replay h clock fs sim books ticks path max_trades =
     (case handler_open fs path of
        Inl e \<Rightarrow> Some (Inl e)
      | Inr md \<Rightarrow> (case replay_loop h clock sim max_trades md (initial_world sim books ticks) of
                    None \<Rightarrow> None
                  | Some (md', w) \<Rightarrow> Some (Inr w)))"

text \<open>The text of \<^verbatim>\<open>latency.csv\<close>, written after the replay; \<open>ho\<close> is the iteration order of the stages.\<close>

definition latency_file :: "(latency_data \<Rightarrow> latency_data) \<Rightarrow> sim_world \<Rightarrow> string" where
  "latency_file ho w = summary_csv ho (w_latency w)"

end
