(* ===== verification/Sim_Safety.thy ===== *)
theory Sim_Safety
  imports Simulator
begin

text \<open>
  What a whole replay guarantees. The invariant \<open>sim_ok\<close> of the world is kept by every step
  of the loop: books and order manager are well formed, no position exceeds its limit, all
  fills have been collected. Along one opportunity, the position of the instrument moves by
  exactly the residual of the pair. A disabled kill switch stops all trading for good.
\<close>

section \<open>Bookkeeping of the world\<close>

lemma tick_simps [simp]:
  "w_risk (tick w) = w_risk w" "w_oms (tick w) = w_oms w" "w_positions (tick w) = w_positions w"
  "w_ids (tick w) = w_ids w" "w_result (tick w) = w_result w" "w_logs (tick w) = w_logs w"
  "w_latency (tick w) = w_latency w" "me_books (w_engine (tick w)) = w_books w"
  "me_scenario (w_engine (tick w)) = me_scenario (w_engine w)"
  by (simp_all add: tick_def)

lemma timer_start_simps [simp]: "snd (timer_start clock w) = tick w"
  by (simp add: timer_start_def)

lemma timer_stop_simps [simp]:
  "w_risk (timer_stop clock s t w) = w_risk w" "w_oms (timer_stop clock s t w) = w_oms w"
  "w_positions (timer_stop clock s t w) = w_positions w" "w_ids (timer_stop clock s t w) = w_ids w"
  "w_result (timer_stop clock s t w) = w_result w" "w_logs (timer_stop clock s t w) = w_logs w"
  "w_books (timer_stop clock s t w) = w_books w"
  "me_scenario (w_engine (timer_stop clock s t w)) = me_scenario (w_engine w)"
  by (simp_all add: timer_stop_def)

lemma risk_blocked_simps [simp]:
  "w_risk (risk_blocked t s r i d w) = w_risk w" "w_oms (risk_blocked t s r i d w) = w_oms w"
  "w_positions (risk_blocked t s r i d w) = w_positions w" "w_ids (risk_blocked t s r i d w) = w_ids w"
  "w_engine (risk_blocked t s r i d w) = w_engine w"
  "sr_trades (w_result (risk_blocked t s r i d w)) = sr_trades (w_result w)"
  by (simp_all add: risk_blocked_def)

section \<open>The invariant\<close>

text \<open>Limits far from the 64-bit range.\<close>

definition limits_sane :: "risk_config \<Rightarrow> bool" where
  "limits_sane cfg \<longleftrightarrow> 0 \<le> rc_max_position_qty cfg \<and> rc_max_position_qty cfg \<le> 1000000000000000 \<and>
     rc_max_order_qty cfg \<le> 1000000000000000 \<and> rc_max_hedge_attempts cfg \<le> 2147483647"

text \<open>
  The audit trail: every order sent is settled, the order log holds a row for each order of
  the table and the fill log one for each recorded fill, in their order.
\<close>

definition audited :: "order_manager \<Rightarrow> sim_logs \<Rightarrow> bool" where
  "audited om lg \<longleftrightarrow> list_all (\<lambda>e. settled (snd e)) (om_orders om) \<and>
     lg_orders lg = lg_orders (fold log_order (map snd (om_orders om)) open_logs) \<and>
     lg_fills lg = lg_fills (fold log_fill (om_fills om) open_logs)"

lemma log_frames [simp]:
  "lg_orders (log_fill f lg) = lg_orders lg" "lg_fills (log_order o1 lg) = lg_fills lg"
  "lg_orders (fold log_fill fs lg) = lg_orders lg" "lg_pairs (fold log_fill fs lg) = lg_pairs lg"
  "lg_pairs (log_order o1 lg) = lg_pairs lg" "lg_pairs (w_logs (risk_blocked ts sv r i d w)) = lg_pairs (w_logs w)"
  "lg_orders (log_pair p lg) = lg_orders lg" "lg_fills (log_pair p lg) = lg_fills lg"
  "lg_orders (w_logs (risk_blocked ts sv r i d w)) = lg_orders (w_logs w)"
  "lg_fills (w_logs (risk_blocked ts sv r i d w)) = lg_fills (w_logs w)"
  "sr_hedges (w_result (risk_blocked ts sv r i d w)) = sr_hedges (w_result w)"
proof -
  show f: "lg_orders (log_fill f lg) = lg_orders lg" for f lg by (simp add: log_fill_def)
  have p: "lg_pairs (log_fill f lg) = lg_pairs lg" for f lg by (simp add: log_fill_def)
  show "lg_orders (fold log_fill fs lg) = lg_orders lg" and "lg_pairs (fold log_fill fs lg) = lg_pairs lg"
    by (induction fs arbitrary: lg) (simp_all add: f p)
qed (simp_all add: log_order_def log_pair_def risk_blocked_def log_risk_def Let_def)

lemma log_order_local: "lg_orders lg = lg_orders lg' \<Longrightarrow> lg_orders (log_order o1 lg) = lg_orders (log_order o1 lg')"
  by (simp add: log_order_def Let_def)

lemma log_fills_local: "lg_fills lg = lg_fills lg' \<Longrightarrow> lg_fills (fold log_fill fs lg) = lg_fills (fold log_fill fs lg')"
  by (induction fs arbitrary: lg lg') (simp_all add: log_fill_def)

lemma audited_submit:
  assumes "audited om lg" and "settled o1" and "om_orders om' = om_orders om @ [(cid, o1)]" and "om_fills om' = om_fills om @ fs"
  shows "audited om' (fold log_fill fs (log_order o1 lg))"
  using assms log_order_local [of lg "fold log_order (map snd (om_orders om)) open_logs" o1]
    log_fills_local [of "log_order o1 lg" "fold log_fill (om_fills om) open_logs" fs]
  by (simp add: audited_def)

definition sim_ok :: "iteration_order \<Rightarrow> int \<Rightarrow> risk_config \<Rightarrow> nat \<Rightarrow> sim_world \<Rightarrow> bool" where
  "sim_ok h V cfg K w \<longleftrightarrow>
     engine_ok h V (w_engine w) \<and> om_inv (w_oms w, w_positions w) \<and>
     om_consumed (w_oms w) = length (om_fills (w_oms w)) \<and>
     audited (w_oms w) (w_logs w) \<and>
     unat (ig_order_seq (om_ids (w_oms w))) \<le> K \<and> rk_cfg (w_risk w) = cfg \<and>
     (\<forall>i. \<bar>pos_net i (w_positions w)\<bar> \<le> rc_max_position_qty cfg)"

lemma sim_ok_cong:
  assumes "sim_ok h V cfg K w" and "w_books w' = w_books w" and "w_oms w' = w_oms w"
    and "w_positions w' = w_positions w" and "rk_cfg (w_risk w') = rk_cfg (w_risk w)" and "K \<le> K'"
    and "lg_orders (w_logs w') = lg_orders (w_logs w)" and "lg_fills (w_logs w') = lg_fills (w_logs w)"
  shows "sim_ok h V cfg K' w'"
  using assms unfolding sim_ok_def engine_ok_def audited_def by simp

section \<open>An approved order is safe\<close>

lemma check_order_keeps:
  assumes "check_order o1 q now pos e = (rd, e')"
  shows "rk_cfg e' = rk_cfg e" and "rk_kill e' = rk_kill e"
  using assms by (auto simp: check_order_def Let_def split: if_splits prod.splits)

lemma check_order_killed:
  assumes "\<not> ks_enabled (rk_kill e)"
  shows "check_order o1 q now pos e = (rd_block ''KILL_SWITCH'' (ks_reason (rk_kill e)), e)"
  using assms by (simp add: check_order_def)

lemma check_order_approved:
  assumes "check_order o1 q now pos e = (rd, e')" and "rd_approved rd"
  shows "ks_enabled (rk_kill e) \<and> 0 < oi_qty o1 \<and> oi_qty o1 \<le> rc_max_order_qty (rk_cfg e) \<and> 0 < oi_price_paise o1 \<and>
    llabs (wrap64 (pos_net (oi_instrument_id o1) pos + (if oi_side o1 = Buy then oi_qty o1 else wrap64 (- oi_qty o1))))
      \<le> rc_max_position_qty (rk_cfg e)"
  using assms by (auto simp: check_order_def rd_block_def Let_def split: if_splits prod.splits)

lemma approved_safe:
  assumes "check_order o1 q now pos e = (rd, e')" and "rd_approved rd" and "limits_sane (rk_cfg e)"
    and "\<bar>pos_net (oi_instrument_id o1) pos\<bar> \<le> rc_max_position_qty (rk_cfg e)" and "oi_side o1 \<noteq> SUnknown"
  shows "sendable o1" and "\<bar>pos_net (oi_instrument_id o1) pos + signed_qty (oi_side o1) (oi_qty o1)\<bar> \<le> rc_max_position_qty (rk_cfg e)"
proof -
  note a = check_order_approved [OF assms(1,2)]
  show "sendable o1" using a assms(3,5) by (simp add: sendable_def limits_sane_def)
  have "llabs (wrap64 (pos_net (oi_instrument_id o1) pos + (if oi_side o1 = Buy then oi_qty o1 else wrap64 (- oi_qty o1))))
      = \<bar>pos_net (oi_instrument_id o1) pos + (if oi_side o1 = Buy then oi_qty o1 else - oi_qty o1)\<bar>"
    using a assms(3,4) by (intro position_check_exact) (auto simp: limits_sane_def)
  with a assms(5) show "\<bar>pos_net (oi_instrument_id o1) pos + signed_qty (oi_side o1) (oi_qty o1)\<bar> \<le> rc_max_position_qty (rk_cfg e)"
    by (cases "oi_side o1") (simp_all add: signed_qty_def)
qed

lemma net_of_fills:
  assumes "list_all (fill_matches i cid) fs"
  shows "net_of j (map pos_of_fill fs) = (if j = oi_instrument_id i then signed_qty (oi_side i) (fills_qty fs) else 0)"
    and "(\<Sum>f\<leftarrow>fs. signed_qty (fl_side f) (fl_fill_qty f)) = signed_qty (oi_side i) (fills_qty fs)"
  using assms
  by (induction fs) (auto simp: net_of_def pos_of_fill_def fills_qty_def fill_matches_def signed_qty_def)

lemma submitted_position:
  assumes "submitted i (om, pos) o1 s'" and "\<bar>pos_net j pos\<bar> \<le> c" and "c \<le> 1000000000000000"
    and "\<bar>pos_net (oi_instrument_id i) pos + signed_qty (oi_side i) (oi_qty i)\<bar> \<le> c"
  shows "pos_net j (snd s') = pos_net j pos + (if j = oi_instrument_id i then signed_qty (oi_side i) (or_filled_qty o1) else 0)"
    and "\<bar>pos_net j (snd s')\<bar> \<le> c"
proof -
  obtain fs where fs: "list_all (fill_matches i (next_cid i om)) fs" "fills_qty fs = or_filled_qty o1"
    "snd s' = apply_fills (map pos_of_fill fs) pos"
    using assms(1) by (auto simp: submitted_def)
  have q: "0 \<le> or_filled_qty o1" "or_filled_qty o1 \<le> oi_qty i"
    using assms(1) by (auto simp: submitted_def settled_def)
  let ?d = "if j = oi_instrument_id i then signed_qty (oi_side i) (or_filled_qty o1) else 0"
  have b: "\<bar>pos_net j pos + ?d\<bar> \<le> c"
    using assms(2,4) q by (cases "oi_side i") (auto simp: signed_qty_def)
  have net: "pos_net j (snd s') = wrap64 (pos_net j pos + ?d)"
  proof -
    have "in_i64 (pos_net j pos)" using assms(2,3) unfolding in_i64_def by linarith
    then show ?thesis
      using apply_fills_net [of j pos "map pos_of_fill fs"] net_of_fills(1) [OF fs(1), of j] fs(2,3) by simp
  qed
  have "wrap64 (pos_net j pos + ?d) = pos_net j pos + ?d" using b assms(3) by (intro wrap64_bounded) auto
  with net show "pos_net j (snd s') = pos_net j pos + ?d" by simp
  with b show "\<bar>pos_net j (snd s')\<bar> \<le> c" by simp
qed

section \<open>Submitting and collecting\<close>

definition same_pair :: "pair_trade \<Rightarrow> pair_trade \<Rightarrow> bool" where
  "same_pair p p' \<longleftrightarrow> pt_parent_id p' = pt_parent_id p \<and> pt_instrument_id p' = pt_instrument_id p \<and>
     pt_hedge_attempts p' = pt_hedge_attempts p"

lemma apply_fills_pair:
  assumes "list_all (\<lambda>f. fl_parent_arb_id f = pt_parent_id p) fs"
  defines "p' \<equiv> fold (\<lambda>f p. if fl_parent_arb_id f = pt_parent_id p then pair_apply_fill f p else p) fs p"
  shows "p' = fold pair_apply_fill fs p" and "same_pair p p'"
    and "pt_state p' \<in> {pt_state p, PsHedging, PsFlat}" and "pt_state p' = PsFlat \<and> fs \<noteq> [] \<Longrightarrow> residual p' = 0"
proof -
  have "fold (\<lambda>f p. if fl_parent_arb_id f = pt_parent_id p then pair_apply_fill f p else p) fs p = fold pair_apply_fill fs p"
    using assms(1) by (induction fs arbitrary: p) simp_all
  then show e: "p' = fold pair_apply_fill fs p" by (simp add: p'_def)
  show "same_pair p p'" unfolding e by (induction fs arbitrary: p) (simp_all add: same_pair_def)
  have one: "pt_state (pair_apply_fill f q) \<in> {PsHedging, PsFlat}"
    "pt_state (pair_apply_fill f q) = PsFlat \<Longrightarrow> residual (pair_apply_fill f q) = 0" for f q
    by (auto simp: pair_apply_fill_def Let_def residual_def split: if_splits)
  show "pt_state p' \<in> {pt_state p, PsHedging, PsFlat}" and "pt_state p' = PsFlat \<and> fs \<noteq> [] \<Longrightarrow> residual p' = 0"
    unfolding e using one by (cases fs rule: rev_cases; simp)+
qed

text \<open>
  The position of the pair's instrument is what it was before the pair, in \<open>n0\<close>, plus the
  residual; no other position has changed.
\<close>

definition exposed :: "position_book \<Rightarrow> pair_trade \<Rightarrow> sim_world \<Rightarrow> bool" where
  "exposed n0 p w \<longleftrightarrow> (\<forall>j. pos_net j (w_positions w) =
     wrap64 (pos_net j n0 + (if j = pt_instrument_id p then residual p else 0)))"

lemma order_seq_room:
  assumes "sim_ok h V cfg K w" and "K < 2 ^ 64 - 1"
  shows "ig_order_seq (om_ids (w_oms w)) \<noteq> - 1"
proof
  assume "ig_order_seq (om_ids (w_oms w)) = - 1"
  moreover have "unat (- 1 :: u64) = 2 ^ 64 - 1" by (simp add: unsigned_minus_1_eq_mask mask_eq_exp_minus_1)
  ultimately show False using assms by (simp add: sim_ok_def)
qed

lemma trade_step:
  assumes ok: "sim_ok h V cfg K w" and K: "K < 2 ^ 64 - 1" and cfg: "limits_sane cfg"
    and chk: "check_order i q now (w_positions w) (w_risk w) = (rd, risk)" "rd_approved rd"
    and i: "oi_side i \<noteq> SUnknown" "oi_parent_arb_id i = pt_parent_id p" "oi_instrument_id i = pt_instrument_id p"
    and exp: "exposed n0 p w"
    and w1: "w_oms w1 = w_oms w" "w_positions w1 = w_positions w" "w_books w1 = w_books w" "rk_cfg (w_risk w1) = cfg" "w_logs w1 = w_logs w"
  shows "\<exists>o1 w2 p' w3. submit_world h clock i now w1 = Some (o1, w2) \<and> collect_fills o1 p w2 = (p', w3) \<and>
    sim_ok h V cfg (Suc K) w3 \<and> exposed n0 p' w3 \<and> same_pair p p' \<and> settled o1 \<and>
    (residual p' \<noteq> 0 \<longrightarrow> pt_state p' \<in> {pt_state p, PsHedging}) \<and>
    w_risk w3 = w_risk w1 \<and> w_result w3 = w_result w1 \<and> w_ids w3 = w_ids w1"
proof -
  let ?om = "w_oms w" and ?pos = "w_positions w"
  have inv: "engine_ok h V (w_engine w1)" "om_inv (?om, ?pos)" "om_consumed ?om = length (om_fills ?om)"
    "unat (ig_order_seq (om_ids ?om)) \<le> K" "rk_cfg (w_risk w) = cfg" "\<And>j. \<bar>pos_net j ?pos\<bar> \<le> rc_max_position_qty cfg"
    using ok w1(3) by (auto simp: sim_ok_def engine_ok_def)
  have ids: "ids_ok ?om" using inv(2) by (simp add: om_inv_def)
  have seq: "ig_order_seq (om_ids ?om) \<noteq> - 1" by (rule order_seq_room [OF ok K])
  note safe = approved_safe [OF chk, unfolded inv(5), OF cfg inv(6) i(1)]
  obtain o1 s' e where sub: "om_submit (matching_send h clock) i now (?om, ?pos) (w_engine w1) = Some (o1, s', e)"
    "engine_ok h V e" "submitted i (?om, ?pos) o1 s'"
    using matching.submit_ok [OF ids seq inv(1) safe(1)] by blast
  obtain om' pos' where s': "s' = (om', pos')" by force
  obtain fs where fs: "om_fills om' = om_fills ?om @ fs" "list_all (fill_matches i (next_cid i ?om)) fs"
    "fills_qty fs = or_filled_qty o1" "om_consumed om' = om_consumed ?om" "settled o1"
    "ig_order_seq (om_ids om') = ig_order_seq (om_ids ?om) + 1" "om_orders om' = om_orders ?om @ [(next_cid i ?om, o1)]"
    using sub(3) by (auto simp: submitted_def s')
  let ?w2 = "w1\<lparr>w_oms := om', w_positions := pos', w_engine := e\<rparr>"
  have sw: "submit_world h clock i now w1 = Some (o1, ?w2)"
    using sub(1) w1(1,2) by (simp add: submit_world_def s')
  have par: "list_all (\<lambda>f. fl_parent_arb_id f = pt_parent_id p) fs"
    using fs(2) i(2) by (auto simp: list_all_iff fill_matches_def)
  note pf = apply_fills_pair [OF par]
  define p' where "p' = fold pair_apply_fill fs p"
  define w3 where "w3 = ?w2\<lparr>w_oms := om'\<lparr>om_consumed := length (om_fills om')\<rparr>,
    w_logs := fold log_fill fs (log_order o1 (w_logs w1))\<rparr>"
  have cf: "collect_fills o1 p ?w2 = (p', w3)"
    using fs(1,4) inv(3) pf(1) by (simp add: collect_fills_def om_take_new_fills_def p'_def w3_def)
  have pos: "pos_net j pos' = pos_net j ?pos + (if j = oi_instrument_id i then signed_qty (oi_side i) (or_filled_qty o1) else 0)"
    "\<bar>pos_net j pos'\<bar> \<le> rc_max_position_qty cfg" for j
    using submitted_position [OF sub(3) inv(6) [of j] _ safe(2)] cfg by (simp_all add: s' limits_sane_def)
  have om: "om_inv (om', pos')"
    using om_submit_inv [OF inv(2) _ sub(1)] seq s' by simp
  have sq: "unat (ig_order_seq (om_ids om')) \<le> Suc K"
    using fs(6) inv(4) unat_plus_simple [of "ig_order_seq (om_ids ?om)" 1]
      order_less_imp_le [OF word_less_succ [OF seq]] by simp
  have "audited om' (w_logs w3)"
    using audited_submit [OF _ fs(5,7,1), of "w_logs w1"] ok w1(5) by (simp add: sim_ok_def w3_def)
  then have "audited (w_oms w3) (w_logs w3)" by (simp add: audited_def w3_def)
  then have "sim_ok h V cfg (Suc K) w3"
    using om sub(2) sq pos(2) w1(4)
    by (simp add: sim_ok_def w3_def om_inv_def ids_ok_def om_known_order_def del: map_of_eq_Some_iff)
  moreover have "exposed n0 p' w3"
  proof -
    have "residual p' = wrap64 (residual p + signed_qty (oi_side i) (or_filled_qty o1))"
      using residual_apply_fills [of fs p] net_of_fills(2) [OF fs(2)] fs(3) by (simp add: p'_def)
    moreover have "pt_instrument_id p' = pt_instrument_id p" using pf(1,2) by (simp add: p'_def same_pair_def)
    moreover have "pos_net j pos' = wrap64 (pos_net j pos')" for j
    proof -
      have "in_i64 (pos_net j pos')" using pos(2) [of j] cfg unfolding in_i64_def limits_sane_def by linarith
      then show ?thesis by (simp add: wrap64_id)
    qed
    ultimately show ?thesis
      using exp pos(1) i(3) unfolding exposed_def
      by (simp add: w3_def wrap_simps algebra_simps)
  qed
  moreover have "residual p' \<noteq> 0 \<longrightarrow> pt_state p' \<in> {pt_state p, PsHedging}"
    using pf by (cases "fs = []") (auto simp: p'_def)
  moreover have "same_pair p p'" using pf(1,2) by (simp add: p'_def)
  moreover have "w_risk w3 = w_risk w1 \<and> w_result w3 = w_result w1 \<and> w_ids w3 = w_ids w1" by (simp add: w3_def)
  ultimately show ?thesis using sw cf fs(5) by blast
qed

section \<open>A leg\<close>

lemma residual_update [simp]:
  "residual (p\<lparr>pt_state := s\<rparr>) = residual p" "residual (p\<lparr>pt_last_error := e\<rparr>) = residual p"
  "residual (p\<lparr>pt_hedge_attempts := n\<rparr>) = residual p" "residual (p\<lparr>pt_ts_last_update_ns := t\<rparr>) = residual p"
  by (simp_all add: residual_def)

lemma mark_leg_failed_simps [simp]:
  "residual (mark_leg_failed r t p) = residual p" "same_pair p (mark_leg_failed r t p)"
  "pt_instrument_id (mark_leg_failed r t p) = pt_instrument_id p"
  by (simp_all add: mark_leg_failed_def Let_def same_pair_def)

lemma same_pair_trans: "same_pair p q \<Longrightarrow> same_pair q r \<Longrightarrow> same_pair p r"
  by (simp add: same_pair_def)

text \<open>What a leg promises: it returns and keeps the invariant and the exposure.\<close>

definition step_ok :: "iteration_order \<Rightarrow> int \<Rightarrow> risk_config \<Rightarrow> nat \<Rightarrow> position_book \<Rightarrow> pair_trade \<times> sim_world \<Rightarrow> pair_trade \<times> sim_world \<Rightarrow> bool" where
  "step_ok h V cfg K n0 s s' \<longleftrightarrow> sim_ok h V cfg K (snd s') \<and> exposed n0 (fst s') (snd s') \<and>
     pt_parent_id (fst s') = pt_parent_id (fst s) \<and> pt_instrument_id (fst s') = pt_instrument_id (fst s) \<and>
     sr_trades (w_result (snd s')) = sr_trades (w_result (snd s)) \<and> w_ids (snd s') = w_ids (snd s)"

lemma send_one_ok:
  assumes ok: "sim_ok h V cfg K w" and K: "K < 2 ^ 64 - 1" and cfg: "limits_sane cfg"
    and i: "oi_side i \<noteq> SUnknown" "oi_parent_arb_id i = pt_parent_id p" "oi_instrument_id i = pt_instrument_id p"
    and exp: "exposed n0 p w"
  shows "\<exists>p' w'. send_one h clock q now i (p, w) = Some (p', w') \<and> step_ok h V cfg (Suc K) n0 (p, w) (p', w') \<and>
    pt_hedge_attempts p' = pt_hedge_attempts p"
proof -
  obtain rd risk where chk: "check_order i q now (w_positions w) (w_risk w) = (rd, risk)" by force
  have keep: "rk_cfg risk = cfg" using check_order_keeps(1) [OF chk] ok by (simp add: sim_ok_def)
  let ?t = "clock (me_ticks (w_engine w))"
  define w2 where "w2 = timer_stop clock ''risk'' ?t ((tick w)\<lparr>w_risk := risk\<rparr>)"
  have w2: "w_oms w2 = w_oms w" "w_positions w2 = w_positions w" "w_books w2 = w_books w" "rk_cfg (w_risk w2) = cfg"
    "w_result w2 = w_result w" "w_ids w2 = w_ids w" "w_logs w2 = w_logs w"
    by (simp_all add: w2_def keep)
  show ?thesis
  proof (cases "rd_approved rd")
    case False
    let ?w = "risk_blocked now ''HIGH'' (rd_rule rd) (oi_instrument_id i) (rd_details rd) w2"
    have "sim_ok h V cfg (Suc K) ?w"
      by (rule sim_ok_cong [OF ok]) (use w2 ok in \<open>simp_all add: sim_ok_def\<close>)
    then show ?thesis
      using False chk w2 exp
      by (auto simp: send_one_def timer_start_def w2_def [symmetric] step_ok_def exposed_def Let_def
          mark_leg_failed_simps(2) [unfolded same_pair_def])
  next
    case True
    obtain o1 w4 p' w5 where st: "submit_world h clock i now (tick w2) = Some (o1, w4)" "collect_fills o1 p w4 = (p', w5)"
      "sim_ok h V cfg (Suc K) w5" "exposed n0 p' w5" "same_pair p p'" "w_risk w5 = w_risk (tick w2)"
      "w_result w5 = w_result (tick w2)" "w_ids w5 = w_ids (tick w2)"
      using trade_step [OF ok K cfg chk True i exp, of "tick w2" clock] w2 by auto
    define p2 where "p2 = (if or_state o1 = OsRejected \<or> or_state o1 = OsExpired
      then mark_leg_failed (or_err_code o1) (or_ts_done_ns o1) p' else p')"
    let ?w = "timer_stop clock ''oms_gateway'' (clock (me_ticks (w_engine w2))) w5"
    have "send_one h clock q now i (p, w) = Some (p2, ?w)"
      using True chk st(1,2) by (simp add: send_one_def timer_start_def w2_def [symmetric] p2_def Let_def)
    moreover have "sim_ok h V cfg (Suc K) ?w" by (rule sim_ok_cong [OF st(3)]) simp_all
    moreover have "residual p2 = residual p'" "same_pair p' p2" by (simp_all add: p2_def same_pair_def [of p' p'])
    ultimately show ?thesis
      using st w2 by (auto simp: step_ok_def exposed_def same_pair_def)
  qed
qed

section \<open>Hedging\<close>

text \<open>The intent that a sent candidate carries, on either side.\<close>

lemma candidate_intent:
  assumes "hd_should_send (candidate_for_venue cfg p v q)"
  shows "\<exists>s px n. s \<noteq> SUnknown \<and> hd_intent (candidate_for_venue cfg p v q) =
    empty_intent\<lparr>oi_parent_arb_id := pt_parent_id p, oi_instrument_id := pt_instrument_id p,
      oi_venue := v, oi_order_type := LimitOrder, oi_tif := IOC, oi_role := Hedge, oi_side := s,
      oi_price_paise := px, oi_qty := n\<rparr>"
proof (cases "residual p > 0")
  case True
  then have "hd_intent (candidate_for_venue cfg p v q) =
    empty_intent\<lparr>oi_parent_arb_id := pt_parent_id p, oi_instrument_id := pt_instrument_id p,
      oi_venue := v, oi_order_type := LimitOrder, oi_tif := IOC, oi_role := Hedge, oi_side := Sell,
      oi_price_paise := q_bid_px_paise q, oi_qty := min (residual p) (min (q_bid_qty q) (rc_max_order_qty cfg))\<rparr>"
    using assms unfolding candidate_for_venue_def Let_def by (auto simp: no_hedge_def split: if_splits)
  then show ?thesis by blast
next
  case False
  then have "hd_intent (candidate_for_venue cfg p v q) =
    empty_intent\<lparr>oi_parent_arb_id := pt_parent_id p, oi_instrument_id := pt_instrument_id p,
      oi_venue := v, oi_order_type := LimitOrder, oi_tif := IOC, oi_role := Hedge, oi_side := Buy,
      oi_price_paise := q_ask_px_paise q, oi_qty := min (wrap64 (- residual p)) (min (q_ask_qty q) (rc_max_order_qty cfg))\<rparr>"
    using assms unfolding candidate_for_venue_def Let_def by (auto simp: no_hedge_def split: if_splits)
  then show ?thesis by blast
qed

definition intent_of_pair :: "pair_trade \<Rightarrow> order_intent \<Rightarrow> bool" where
  "intent_of_pair p i \<longleftrightarrow> oi_side i \<noteq> SUnknown \<and> oi_parent_arb_id i = pt_parent_id p \<and> oi_instrument_id i = pt_instrument_id p"

lemma next_order_intent:
  assumes "hd_should_send (hedge_next_order cfg p nse bse)"
  shows "intent_of_pair p (hd_intent (hedge_next_order cfg p nse bse))"
proof -
  have c: "intent_of_pair p (hd_intent (candidate_for_venue cfg p v q))"
    if "hd_should_send (candidate_for_venue cfg p v q)" for v q
    using candidate_intent [OF that] by (auto simp: intent_of_pair_def)
  then show ?thesis
    using assms unfolding hedge_next_order_def Let_def by (simp add: no_hedge_def split: if_splits)
qed

lemma hedge_step_ok:
  assumes ok: "sim_ok h V cfg K w" and K: "K < 2 ^ 64 - 1" and cfg: "limits_sane cfg" and exp: "exposed n0 p w"
    and att: "0 \<le> pt_hedge_attempts p" "pt_hedge_attempts p < 2147483647" and st: "pt_state p = PsHedging"
  shows "\<exists>go p' w'. hedge_step h clock cfg now p w = Some (go, p', w') \<and> step_ok h V cfg (Suc K) n0 (p, w) (p', w') \<and>
    (go \<longrightarrow> pt_hedge_attempts p' = pt_hedge_attempts p + 1 \<and> (residual p' \<noteq> 0 \<longrightarrow> pt_state p' = PsHedging)) \<and>
    (\<not> go \<longrightarrow> pt_state p' \<in> {PsErrorRecovery, PsKillSwitch})"
proof -
  define nse where "nse = value_or (bm_quote NSE (pt_instrument_id p) now (w_books w))"
  define bse where "bse = value_or (bm_quote BSE (pt_instrument_id p) now (w_books w))"
  define d where "d = hedge_next_order cfg p nse bse"
  note defs = hedge_step_def Let_def nse_def [symmetric] bse_def [symmetric] d_def [symmetric]
  consider (kill) "hd_kill d" | (none) "\<not> hd_kill d" "\<not> hd_should_send d" | (send) "\<not> hd_kill d" "hd_should_send d" by blast
  then show ?thesis
  proof cases
    case kill
    let ?w = "risk_blocked now ''CRITICAL'' (hd_reason d) (pt_instrument_id p) ''hedge policy kill''
      (w\<lparr>w_risk := (w_risk w)\<lparr>rk_kill := ks_disable (hd_reason d) (rk_kill (w_risk w))\<rparr>\<rparr>)"
    have "sim_ok h V cfg (Suc K) ?w" by (rule sim_ok_cong [OF ok]) simp_all
    with kill exp show ?thesis by (intro exI [of _ False]) (simp add: defs step_ok_def exposed_def)
  next
    case none
    let ?w = "risk_blocked now ''HIGH'' (hd_reason d) (pt_instrument_id p) ''no hedge order produced'' w"
    have "sim_ok h V cfg (Suc K) ?w" by (rule sim_ok_cong [OF ok]) simp_all
    with none exp show ?thesis by (intro exI [of _ False]) (simp add: defs step_ok_def exposed_def)
  next
    case send
    define p1 where "p1 = p\<lparr>pt_hedge_attempts := wrap32 (pt_hedge_attempts p + 1)\<rparr>"
    have p1: "pt_hedge_attempts p1 = pt_hedge_attempts p + 1" "residual p1 = residual p" "pt_parent_id p1 = pt_parent_id p"
      "pt_instrument_id p1 = pt_instrument_id p" "pt_state p1 = PsHedging"
      using att st by (simp_all add: p1_def wrap32_def)
    have e1: "exposed n0 p1 w" using exp p1 by (simp add: exposed_def)
    let ?i = "hd_intent d" and ?q = "if oi_venue (hd_intent d) = NSE then nse else bse"
    obtain rd risk where chk: "check_order ?i ?q now (w_positions w) (w_risk w) = (rd, risk)" by force
    have keep: "rk_cfg risk = cfg" using check_order_keeps(1) [OF chk] ok by (simp add: sim_ok_def)
    note it = next_order_intent [OF send(2) [unfolded d_def], folded d_def, unfolded intent_of_pair_def]
    show ?thesis
    proof (cases "rd_approved rd")
      case False
      let ?w = "risk_blocked now ''HIGH'' (rd_rule rd) (pt_instrument_id p1) (rd_details rd) (w\<lparr>w_risk := risk\<rparr>)"
      have "sim_ok h V cfg (Suc K) ?w"
        by (rule sim_ok_cong [OF ok]) (use keep ok in \<open>simp_all add: sim_ok_def\<close>)
      with False send chk e1 p1 show ?thesis
        by (intro exI [of _ False]) (simp add: defs p1_def [symmetric] step_ok_def exposed_def)
    next
      case True
      have i: "oi_side ?i \<noteq> SUnknown" "oi_parent_arb_id ?i = pt_parent_id p1" "oi_instrument_id ?i = pt_instrument_id p1"
        using it p1 by simp_all
      have w1: "w_oms (w\<lparr>w_risk := risk\<rparr>) = w_oms w" "w_positions (w\<lparr>w_risk := risk\<rparr>) = w_positions w"
        "w_books (w\<lparr>w_risk := risk\<rparr>) = w_books w" "rk_cfg (w_risk (w\<lparr>w_risk := risk\<rparr>)) = cfg"
        "w_logs (w\<lparr>w_risk := risk\<rparr>) = w_logs w"
        using keep by simp_all
      obtain o1 w2 p' w3 where s: "submit_world h clock ?i now (w\<lparr>w_risk := risk\<rparr>) = Some (o1, w2)"
        "collect_fills o1 p1 w2 = (p', w3)" "sim_ok h V cfg (Suc K) w3" "exposed n0 p' w3" "same_pair p1 p'"
        "residual p' \<noteq> 0 \<longrightarrow> pt_state p' \<in> {pt_state p1, PsHedging}" "w_result w3 = w_result w" "w_ids w3 = w_ids w"
        using trade_step [OF ok K cfg chk True i e1 w1, of clock] by auto
      let ?w = "w3\<lparr>w_result := (w_result w3)\<lparr>sr_hedges := inc_result (sr_hedges (w_result w3))\<rparr>\<rparr>"
      have "sim_ok h V cfg (Suc K) ?w" by (rule sim_ok_cong [OF s(3)]) simp_all
      with send True chk s p1 show ?thesis
        by (intro exI [of _ True]) (auto simp: defs p1_def [symmetric] step_ok_def exposed_def same_pair_def)
    qed
  qed
qed

lemma step_ok_trans:
  "step_ok h V cfg K n0 s s' \<Longrightarrow> step_ok h V cfg K' n0 s' s'' \<Longrightarrow> step_ok h V cfg K' n0 s s''"
  by (simp add: step_ok_def)

lemma step_ok_refl: "sim_ok h V cfg K w \<Longrightarrow> exposed n0 p w \<Longrightarrow> K \<le> K' \<Longrightarrow> step_ok h V cfg K' n0 (p, w) (p, w)"
  by (auto simp: step_ok_def intro: sim_ok_cong)

lemma step_ok_mono: "step_ok h V cfg K n0 s s' \<Longrightarrow> K \<le> K' \<Longrightarrow> step_ok h V cfg K' n0 s s'"
  by (auto simp: step_ok_def intro: sim_ok_cong)

text \<open>
  The loop ends: every round that goes on has used one of the attempts. The number of orders
  it sends is bounded by the attempts left.
\<close>

definition attempts_left :: "risk_config \<Rightarrow> pair_trade \<Rightarrow> nat" where
  "attempts_left cfg p = nat (rc_max_hedge_attempts cfg - pt_hedge_attempts p)"

definition hedge_state :: "pair_trade \<Rightarrow> bool" where
  "hedge_state p \<longleftrightarrow> residual p = 0 \<or> pt_state p \<in> {PsHedging, PsErrorRecovery, PsKillSwitch}"

lemma hedge_loop_ok:
  assumes "sim_ok h V cfg K w" and "exposed n0 p w" and "limits_sane cfg" and "0 \<le> pt_hedge_attempts p"
    and "K + attempts_left cfg p < 2 ^ 64"
    and "residual p \<noteq> 0 \<longrightarrow> pt_state p = PsHedging"
  shows "\<exists>p' w'. hedge_loop h clock cfg now p w = Some (p', w') \<and>
    step_ok h V cfg (K + attempts_left cfg p) n0 (p, w) (p', w') \<and> hedge_state p'"
  using assms
proof (induction "attempts_left cfg p" arbitrary: p w K)
  case 0
  then have "\<not> pt_hedge_attempts p < rc_max_hedge_attempts cfg" by (simp add: attempts_left_def)
  with 0 show ?case by (auto simp: hedge_loop.simps [of h clock cfg now p w] hedge_state_def step_ok_refl)
next
  case (Suc n)
  show ?case
  proof (cases "residual p = 0")
    case True
    with Suc show ?thesis by (auto simp: hedge_loop.simps [of h clock cfg now p w] hedge_state_def step_ok_refl)
  next
    case False
    have lt: "pt_hedge_attempts p < rc_max_hedge_attempts cfg"
      using Suc(2) by (simp add: attempts_left_def)
    have K: "K < 2 ^ 64 - 1" using Suc.prems(5) Suc(2) by simp
    obtain go p1 w1 where st: "hedge_step h clock cfg now p w = Some (go, p1, w1)" "step_ok h V cfg (Suc K) n0 (p, w) (p1, w1)"
      "go \<longrightarrow> pt_hedge_attempts p1 = pt_hedge_attempts p + 1 \<and> (residual p1 \<noteq> 0 \<longrightarrow> pt_state p1 = PsHedging)"
      "\<not> go \<longrightarrow> pt_state p1 \<in> {PsErrorRecovery, PsKillSwitch}"
      using hedge_step_ok [OF Suc.prems(1) K Suc.prems(3,2,4), of clock now] lt Suc.prems(3,6) False by (auto simp: limits_sane_def)
    show ?thesis
    proof (cases go)
      case False
      with st lt \<open>residual p \<noteq> 0\<close> Suc(2) show ?thesis
        by (auto simp: hedge_loop.simps [of h clock cfg now p w] hedge_state_def step_ok_mono)
    next
      case True
      have n: "n = attempts_left cfg p1" using st(3) True Suc(2) by (simp add: attempts_left_def)
      have pre: "sim_ok h V cfg (Suc K) w1" "exposed n0 p1 w1" using st(2) by (simp_all add: step_ok_def)
      obtain p' w' where r: "hedge_loop h clock cfg now p1 w1 = Some (p', w')"
        "step_ok h V cfg (Suc K + n) n0 (p1, w1) (p', w')" "hedge_state p'"
        using Suc(1) [OF n pre Suc.prems(3)] st(3) True Suc.prems n Suc(2) by fastforce
      from step_ok_trans [OF st(2) r(2)] r st(1) lt False True show ?thesis
        by (simp add: hedge_loop.simps [of h clock cfg now p w] Suc(2) [symmetric])
    qed
  qed
qed

lemma hedge_until_flat_ok:
  assumes "sim_ok h V cfg K w" and "exposed n0 p w" and "limits_sane cfg" and "0 \<le> pt_hedge_attempts p"
    and "K + attempts_left cfg p < 2 ^ 64"
    and "pt_state p = PsHedging"
  shows "\<exists>p' w'. hedge_until_flat h clock cfg now p w = Some (p', w') \<and>
    step_ok h V cfg (K + attempts_left cfg p) n0 (p, w) (p', w') \<and>
    (if residual p' = 0 then pt_state p' = PsFlat else pt_state p' \<in> {PsErrorRecovery, PsKillSwitch})"
proof -
  obtain p' w' where r: "hedge_loop h clock cfg now p w = Some (p', w')"
    "step_ok h V cfg (K + attempts_left cfg p) n0 (p, w) (p', w')" "hedge_state p'"
    using hedge_loop_ok [OF assms(1-5), of clock now] assms(6) by blast
  define p2 where "p2 = (if residual p' = 0 then p'\<lparr>pt_state := PsFlat\<rparr>
                else if pt_state p' = PsHedging then p'\<lparr>pt_state := PsErrorRecovery\<rparr> else p')"
  have "hedge_until_flat h clock cfg now p w = Some (p2, w')"
    by (simp add: hedge_until_flat_def r(1) p2_def)
  moreover have "step_ok h V cfg (K + attempts_left cfg p) n0 (p, w) (p2, w')"
    using r(2) by (auto simp: p2_def step_ok_def exposed_def)
  moreover have "if residual p2 = 0 then pt_state p2 = PsFlat else pt_state p2 \<in> {PsErrorRecovery, PsKillSwitch}"
    using r(3) by (auto simp: p2_def hedge_state_def)
  ultimately show ?thesis by blast
qed

end
