(* ===== verification/Sim_Replay.thy ===== *)
theory Sim_Replay
  imports Sim_Safety
begin

text \<open>
  Whole opportunities and whole replays of \<^verbatim>\<open>src/sim/simulator.cpp\<close>. An opportunity ends with
  the pair flat, in error recovery or killed, and moves exactly one position, by the residual
  of the pair. A replay of a stream that fits the books returns with every position within
  its limit. A disabled kill switch stops all trading for good.
\<close>

section \<open>One opportunity\<close>

definition orders_per_trade :: "risk_config \<Rightarrow> nat" where
  "orders_per_trade cfg = 2 + nat (rc_max_hedge_attempts cfg)"

lemma pos_in_range:
  assumes "sim_ok h V cfg K w" and "limits_sane cfg"
  shows "\<bar>pos_net j (w_positions w)\<bar> \<le> 1000000000000000" and "wrap64 (pos_net j (w_positions w)) = pos_net j (w_positions w)"
proof -
  have "\<bar>pos_net j (w_positions w)\<bar> \<le> rc_max_position_qty cfg" using assms(1) by (simp add: sim_ok_def)
  then show b: "\<bar>pos_net j (w_positions w)\<bar> \<le> 1000000000000000" using assms(2) by (simp add: limits_sane_def)
  then show "wrap64 (pos_net j (w_positions w)) = pos_net j (w_positions w)" by (intro wrap64_bounded) auto
qed

text \<open>With sane limits the exposure is exact: nothing wraps.\<close>

definition moved :: "position_book \<Rightarrow> pair_trade \<Rightarrow> sim_world \<Rightarrow> bool" where
  "moved pos p w \<longleftrightarrow> (\<forall>j. pos_net j (w_positions w) = pos_net j pos + (if j = pt_instrument_id p then residual p else 0))"

lemma exposed_moved:
  assumes "sim_ok h V cfg K w0" and "sim_ok h V cfg K' w" and "limits_sane cfg" and "exposed (w_positions w0) p w"
  shows "moved (w_positions w0) p w"
  unfolding moved_def
proof
  fix j
  let ?d = "if j = pt_instrument_id p then residual p else 0"
  note r = pos_in_range [OF assms(1,3), of j] pos_in_range [OF assms(2,3), of j]
  have "wrap64 ?d = ?d" by (simp add: residual_def wrap64_def)
  moreover have "wrap64 ?d = wrap64 (pos_net j (w_positions w) - pos_net j (w_positions w0))"
    using assms(4) unfolding exposed_def by (simp add: wrap_simps)
  moreover have "wrap64 (pos_net j (w_positions w) - pos_net j (w_positions w0)) = pos_net j (w_positions w) - pos_net j (w_positions w0)"
    using r(1,3) by (intro wrap64_bounded) auto
  ultimately show "pos_net j (w_positions w) = pos_net j (w_positions w0) + ?d" by simp
qed

lemma from_opportunity_simps [simp]:
  "residual (from_opportunity opp) = 0" "pt_instrument_id (from_opportunity opp) = ao_instrument_id opp"
  "pt_parent_id (from_opportunity opp) = ao_parent_arb_id opp" "pt_hedge_attempts (from_opportunity opp) = 0"
  by (simp_all add: from_opportunity_def residual_def wrap64_def)

lemma leg_intents:
  assumes "pt_parent_id p = ao_parent_arb_id opp" and "pt_instrument_id p = ao_instrument_id opp"
  shows "intent_of_pair p (buy_intent opp)" and "intent_of_pair p (sell_intent opp)"
  using assms by (simp_all add: intent_of_pair_def buy_intent_def sell_intent_def)

definition pair_closed :: "pair_trade \<Rightarrow> bool" where
  "pair_closed p \<longleftrightarrow> (if residual p = 0 then pt_state p = PsFlat else pt_state p \<in> {PsErrorRecovery, PsKillSwitch})"

fun finish_pair :: "pair_trade \<times> sim_world \<Rightarrow> pair_trade \<times> sim_world" where
  "finish_pair (p, w) =
     (let p1 = (if residual p = 0 then p\<lparr>pt_state := PsFlat\<rparr> else p)
      in (p1, w\<lparr>w_logs := log_pair p1 (w_logs w),
                w_result := (w_result w)\<lparr>sr_final_state := pair_state_to_string (pt_state p1)\<rparr>\<rparr>))"

declare finish_pair.simps [simp del]

lemma finish_pair_ok:
  assumes st: "step_ok h V cfg K n0 s0 (p, w)" and "residual p \<noteq> 0 \<longrightarrow> pair_closed p"
  shows "step_ok h V cfg K n0 s0 (finish_pair (p, w))" and "pair_closed (fst (finish_pair (p, w)))"
proof -
  define p1 where "p1 = (if residual p = 0 then p\<lparr>pt_state := PsFlat\<rparr> else p)"
  have p1: "residual p1 = residual p" "pt_parent_id p1 = pt_parent_id p" "pt_instrument_id p1 = pt_instrument_id p"
    by (simp_all add: p1_def)
  define w1 where "w1 = w\<lparr>w_logs := log_pair p1 (w_logs w),
    w_result := (w_result w)\<lparr>sr_final_state := pair_state_to_string (pt_state p1)\<rparr>\<rparr>"
  have w1: "w_books w1 = w_books w" "w_oms w1 = w_oms w" "w_risk w1 = w_risk w"
    "w_positions w1 = w_positions w" "sr_trades (w_result w1) = sr_trades (w_result w)" "w_ids w1 = w_ids w"
    "lg_orders (w_logs w1) = lg_orders (w_logs w)" "lg_fills (w_logs w1) = lg_fills (w_logs w)"
    by (simp_all add: w1_def)
  have fp: "finish_pair (p, w) = (p1, w1)"
    unfolding finish_pair.simps Let_def p1_def [symmetric] w1_def ..
  have "sim_ok h V cfg K w1"
    by (rule sim_ok_cong [where w = w and K = K]) (use st w1 in \<open>simp_all add: step_ok_def\<close>)
  then show "step_ok h V cfg K n0 s0 (finish_pair (p, w))"
    unfolding fp using st p1 w1 by (simp add: step_ok_def exposed_def)
  show "pair_closed (fst (finish_pair (p, w)))" using assms(2) unfolding fp by (simp add: p1_def pair_closed_def)
qed

text \<open>The three stages of an opportunity: the two legs, the hedging if any is needed, the end.\<close>

lemma execute_stages:
  assumes q: "nse = value_or (bm_quote NSE (ao_instrument_id opp) now (w_books w))"
      "bse = value_or (bm_quote BSE (ao_instrument_id opp) now (w_books w))"
    and fs: "(f, s) = (if sn_send_sell_first (si_scenario sim) then (sell_intent opp, buy_intent opp) else (buy_intent opp, sell_intent opp))"
    and 1: "send_one h clock (if oi_venue f = NSE then nse else bse) now f (from_opportunity opp, w) = Some s1"
    and 2: "send_one h clock (if oi_venue s = NSE then nse else bse) now s s1 = Some (p2, w2)"
    and 3: "(if residual p2 \<noteq> 0 then hedge_until_flat h clock (si_risk_cfg sim) now (p2\<lparr>pt_state := PsHedging\<rparr>) w2
      else Some (p2, w2)) = Some s3"
  shows "execute_opportunity h clock sim opp now w = Some (finish_pair s3)"
  using 1 2 3 unfolding execute_opportunity_def Let_def fs [symmetric] q [symmetric]
  by (cases s3) (simp add: finish_pair.simps Let_def split del: if_split)

lemma execute_opportunity_ok:
  assumes ok: "sim_ok h V cfg K w" and K: "K + orders_per_trade cfg < 2 ^ 64" and cfg: "limits_sane cfg" "si_risk_cfg sim = cfg"
  shows "\<exists>p' w'. execute_opportunity h clock sim opp now w = Some (p', w') \<and>
    sim_ok h V cfg (K + orders_per_trade cfg) w' \<and> moved (w_positions w) p' w' \<and> pair_closed p' \<and>
    pt_parent_id p' = ao_parent_arb_id opp \<and> pt_instrument_id p' = ao_instrument_id opp \<and>
    sr_trades (w_result w') = sr_trades (w_result w) \<and> w_ids w' = w_ids w"
proof -
  define p0 where "p0 = from_opportunity opp"
  obtain f s where fs: "(f, s) = (if sn_send_sell_first (si_scenario sim) then (sell_intent opp, buy_intent opp)
      else (buy_intent opp, sell_intent opp))"
    by (metis surj_pair)
  have i: "intent_of_pair p f" "intent_of_pair p s"
    if "pt_parent_id p = ao_parent_arb_id opp" "pt_instrument_id p = ao_instrument_id opp" for p
    using fs leg_intents [OF that] by (auto split: if_splits)
  define nse where "nse = value_or (bm_quote NSE (ao_instrument_id opp) now (w_books w))"
  define bse where "bse = value_or (bm_quote BSE (ao_instrument_id opp) now (w_books w))"
  have K': "K < 2 ^ 64 - 1" "Suc K < 2 ^ 64 - 1" using K by (simp_all add: orders_per_trade_def)
  have e0: "exposed (w_positions w) p0 w" by (simp add: exposed_def pos_in_range [OF ok cfg(1)] p0_def)
  obtain p1 w1 where s1: "send_one h clock (if oi_venue f = NSE then nse else bse) now f (p0, w) = Some (p1, w1)"
    "step_ok h V cfg (Suc K) (w_positions w) (p0, w) (p1, w1)" "pt_hedge_attempts p1 = 0"
    using send_one_ok [OF ok K'(1) cfg(1) _ _ _ e0, of f clock "if oi_venue f = NSE then nse else bse" now] i(1) [of p0]
    by (auto simp: intent_of_pair_def p0_def)
  then have o1: "sim_ok h V cfg (Suc K) w1" "exposed (w_positions w) p1 w1" "pt_parent_id p1 = ao_parent_arb_id opp"
    "pt_instrument_id p1 = ao_instrument_id opp"
    by (simp_all add: step_ok_def p0_def)
  obtain p2 w2 where s2: "send_one h clock (if oi_venue s = NSE then nse else bse) now s (p1, w1) = Some (p2, w2)"
    "step_ok h V cfg (K + 2) (w_positions w) (p1, w1) (p2, w2)" "pt_hedge_attempts p2 = 0"
    using send_one_ok [OF o1(1) K'(2) cfg(1) _ _ _ o1(2), of s clock "if oi_venue s = NSE then nse else bse" now] i(2) [OF o1(3,4)] s1(3) by (auto simp: intent_of_pair_def)
  note s12 = step_ok_trans [OF s1(2) s2(2)]
  have "\<exists>s3. (if residual p2 \<noteq> 0 then hedge_until_flat h clock cfg now (p2\<lparr>pt_state := PsHedging\<rparr>) w2
      else Some (p2, w2)) = Some s3 \<and> step_ok h V cfg (K + orders_per_trade cfg) (w_positions w) (p0, w) s3 \<and>
      (residual (fst s3) \<noteq> 0 \<longrightarrow> pair_closed (fst s3))"
  proof (cases "residual p2 = 0")
    case True
    with step_ok_mono [OF s12, of "K + orders_per_trade cfg"] show ?thesis by (simp add: orders_per_trade_def)
  next
    case False
    let ?p = "p2\<lparr>pt_state := PsHedging\<rparr>"
    have pre: "sim_ok h V cfg (K + 2) w2" "exposed (w_positions w) ?p w2" "K + 2 + attempts_left cfg ?p = K + orders_per_trade cfg"
      using s12 s2(3) by (simp_all add: step_ok_def exposed_def attempts_left_def orders_per_trade_def)
    obtain p3 w3 where h3: "hedge_until_flat h clock cfg now ?p w2 = Some (p3, w3)"
      "step_ok h V cfg (K + orders_per_trade cfg) (w_positions w) (?p, w2) (p3, w3)" "pair_closed p3"
      using hedge_until_flat_ok [OF pre(1,2) cfg(1), of clock now, unfolded pre(3)] s2(3) K by (auto simp: pair_closed_def)
    have "step_ok h V cfg (K + orders_per_trade cfg) (w_positions w) (p0, w) (p3, w3)"
      using s12 h3(2) by (simp add: step_ok_def)
    with h3 False show ?thesis by auto
  qed
  then obtain p3 w3 where s3: "(if residual p2 \<noteq> 0 then hedge_until_flat h clock cfg now (p2\<lparr>pt_state := PsHedging\<rparr>) w2
      else Some (p2, w2)) = Some (p3, w3)" "step_ok h V cfg (K + orders_per_trade cfg) (w_positions w) (p0, w) (p3, w3)"
    "residual p3 \<noteq> 0 \<longrightarrow> pair_closed p3" by force
  note ex = execute_stages [OF nse_def bse_def fs s1(1) [unfolded p0_def] s2(1), unfolded cfg(2), OF s3(1)]
  note fin = finish_pair_ok [OF s3(2,3)]
  obtain p' w' where f: "finish_pair (p3, w3) = (p', w')" by force
  have "moved (w_positions w) p' w'"
    using fin(1) f by (intro exposed_moved [OF ok, of "K + orders_per_trade cfg"] cfg(1)) (simp_all add: step_ok_def)
  with ex fin f show ?thesis by (simp add: step_ok_def p0_def)
qed

section \<open>The replay\<close>

lemma books_ok_event:
  assumes "books_ok V bm" and "V + volume ev \<le> i64_max" and "be_qty ev \<le> i64_max"
  shows "books_ok (V + volume ev) (snd (bm_on_event ev bm))"
proof -
  have V: "0 \<le> V" "0 \<le> volume ev" using assms(1) by (simp_all add: books_ok_def volume_def)
  define k where "k = book_key (be_venue ev) (be_instrument_id ev)"
  define b where "b = (case map_of (bm_books bm) k of None \<Rightarrow> new_book (be_venue ev) (be_instrument_id ev) | Some b \<Rightarrow> b)"
  have b: "book_ok b" "depth_bound V b"
    using assms(1) V new_book_ok depth_bound_mono [OF new_book_ok(2) V(1)]
    by (auto simp: b_def books_ok_def simp del: map_of_eq_Some_iff split: option.splits)
  have "book_ok (book_apply ev b)" "depth_bound (V + volume ev) (book_apply ev b)"
    using book_ok_apply [OF b(1)] depth_bound_apply [OF b(1) _ b(2)] event_fits_bound [OF b V(1) assms(2,3)] by auto
  then show ?thesis
    using assms(1) V depth_bound_mono [of V _ "V + volume ev"]
    by (auto simp: books_ok_def bm_on_event_def Let_def k_def [symmetric] b_def [symmetric] alist_simps
        simp del: map_of_eq_Some_iff)
qed

definition replay_ok :: "iteration_order \<Rightarrow> int \<Rightarrow> risk_config \<Rightarrow> i32 \<Rightarrow> sim_world \<Rightarrow> bool" where
  "replay_ok h V cfg n w \<longleftrightarrow> 0 \<le> sr_trades (w_result w) \<and> sr_trades (w_result w) \<le> max 0 n \<and>
     sim_ok h V cfg (nat (sr_trades (w_result w)) * orders_per_trade cfg) w"

lemma replay_ok_cong:
  assumes "replay_ok h V cfg n w" and "w_books w' = w_books w" and "w_oms w' = w_oms w"
    and "w_positions w' = w_positions w" and "rk_cfg (w_risk w') = rk_cfg (w_risk w)"
    and "sr_trades (w_result w') = sr_trades (w_result w)"
    and "lg_orders (w_logs w') = lg_orders (w_logs w)" and "lg_fills (w_logs w') = lg_fills (w_logs w)"
  shows "replay_ok h V cfg n w'"
  using assms by (auto simp: replay_ok_def intro: sim_ok_cong)

text \<open>The order counter cannot wrap: the trades and the attempts are 32-bit.\<close>

lemma order_budget:
  assumes "limits_sane cfg" and "0 \<le> t" and "t < n" and "n \<le> 2147483647"
  shows "nat t * orders_per_trade cfg + orders_per_trade cfg < 2 ^ 64"
proof -
  have "Suc (nat t) * orders_per_trade cfg \<le> 2147483647 * 2147483649"
    using assms by (intro mult_mono) (auto simp: orders_per_trade_def limits_sane_def)
  also have "\<dots> < 2 ^ 64" by simp
  finally show ?thesis by (simp add: add.commute)
qed

lemma traded_ok:
  assumes "replay_ok h V cfg n w" and "\<not> sr_trades (w_result w) \<ge> n" and "n \<le> 2147483647" and "limits_sane cfg" and "si_risk_cfg sim = cfg"
  shows "\<exists>p w'. execute_opportunity h clock sim opp now w = Some (p, w') \<and>
    replay_ok h V cfg n (w'\<lparr>w_result := (w_result w')\<lparr>sr_trades := inc_result (sr_trades (w_result w'))\<rparr>\<rparr>)"
proof -
  let ?t = "sr_trades (w_result w)"
  have t: "0 \<le> ?t" "?t < n" "sim_ok h V cfg (nat ?t * orders_per_trade cfg) w" using assms(1,2) by (simp_all add: replay_ok_def)
  obtain p w' where ex: "execute_opportunity h clock sim opp now w = Some (p, w')"
    "sim_ok h V cfg (nat ?t * orders_per_trade cfg + orders_per_trade cfg) w'" "sr_trades (w_result w') = ?t"
    using execute_opportunity_ok [OF t(3) order_budget [OF assms(4) t(1,2) assms(3)] assms(4,5), of clock opp now] by blast
  let ?w = "w'\<lparr>w_result := (w_result w')\<lparr>sr_trades := inc_result (sr_trades (w_result w'))\<rparr>\<rparr>"
  have inc: "sr_trades (w_result ?w) = ?t + 1" using t(1,2) assms(3) ex(3) by (simp add: inc_result_def wrap32_def)
  have "sim_ok h V cfg (nat (?t + 1) * orders_per_trade cfg) ?w"
    by (rule sim_ok_cong [OF ex(2)]) (use t(1) in \<open>simp_all add: nat_add_distrib\<close>)
  with ex(1) t inc show ?thesis by (auto simp: replay_ok_def)
qed

text \<open>
  Up to the execution of an opportunity, an event only moves the books, the counters and the
  logs of opportunities and risks.
\<close>

definition advanced :: "book_event \<Rightarrow> sim_world \<Rightarrow> sim_world \<Rightarrow> bool" where
  "advanced ev w w' \<longleftrightarrow> w_books w' = snd (bm_on_event ev (w_books w)) \<and> w_oms w' = w_oms w \<and>
     w_positions w' = w_positions w \<and> w_risk w' = w_risk w \<and>
     lg_orders (w_logs w') = lg_orders (w_logs w) \<and> lg_fills (w_logs w') = lg_fills (w_logs w) \<and>
     lg_pairs (w_logs w') = lg_pairs (w_logs w) \<and>
     sr_trades (w_result w') = sr_trades (w_result w) \<and> sr_hedges (w_result w') = sr_hedges (w_result w)"

text \<open>An opportunity that reaches execution was decided by the strategy on the current quotes.\<close>

definition proposed :: "simulator \<Rightarrow> book_event \<Rightarrow> sim_world \<Rightarrow> arb_opportunity \<Rightarrow> bool" where
  "proposed sim ev w opp \<longleftrightarrow> (\<exists>nse bse pid.
     bm_quote NSE (be_instrument_id ev) (be_ts_ingest_ns ev) (w_books w) = Some nse \<and>
     bm_quote BSE (be_instrument_id ev) (be_ts_ingest_ns ev) (w_books w) = Some bse \<and>
     (let d = evaluate (si_strategy_cfg sim) nse bse (si_costs sim) (be_ts_ingest_ns ev)
      in sd_should_trade d \<and> opp = (sd_opportunity d)\<lparr>ao_parent_arb_id := pid\<rparr>))"

lemma replay_event_rule:
  assumes quiet: "\<And>w'. advanced ev w w' \<Longrightarrow> P w'"
    and trade: "\<And>w' opp. advanced ev w w' \<Longrightarrow> \<not> sr_trades (w_result w') \<ge> n \<Longrightarrow> proposed sim ev w' opp \<Longrightarrow>
      \<exists>p w8. execute_opportunity h clock sim opp (be_ts_ingest_ns ev) w' = Some (p, w8) \<and>
        P (w8\<lparr>w_result := (w_result w8)\<lparr>sr_trades := inc_result (sr_trades (w_result w8))\<rparr>\<rparr>)"
  shows "\<exists>w'. replay_event h clock sim n health item ev w = Some w' \<and> P w'"
proof -
  define now where "now = be_ts_ingest_ns ev"
  define t0 where "t0 = clock (me_ticks (w_engine w))"
  define w2 where "w2 = (tick w)\<lparr>w_engine := (w_engine (tick w))\<lparr>me_books := snd (bm_on_event ev (w_books (tick w)))\<rparr>\<rparr>"
  define w3 where "w3 = (if mr_sequence_status item = SeqGap
    then risk_blocked now ''HIGH'' ''SEQUENCE_GAP'' (be_instrument_id ev) (mr_warning item) w2 else w2)"
  define w4 where "w4 = timer_stop clock ''md_to_book'' t0 w3"
  note defs = replay_event_def Let_def timer_start_def prod.case now_def [symmetric] t0_def [symmetric]
    w2_def [symmetric] w3_def [symmetric] w4_def [symmetric]
  have w4: "advanced ev w w4" by (simp add: w4_def w3_def w2_def advanced_def)
  consider "bm_quote NSE (be_instrument_id ev) now (w_books w4) = None"
    | nse where "bm_quote NSE (be_instrument_id ev) now (w_books w4) = Some nse" "bm_quote BSE (be_instrument_id ev) now (w_books w4) = None"
    | (both) nse bse where "bm_quote NSE (be_instrument_id ev) now (w_books w4) = Some nse"
        "bm_quote BSE (be_instrument_id ev) now (w_books w4) = Some bse"
    by blast
  then show ?thesis
  proof cases
    case (both nse bse)
    define w6 where "w6 = timer_stop clock ''strategy'' (clock (me_ticks (w_engine w4))) (tick w4)"
    define d where "d = evaluate (si_strategy_cfg sim) nse bse (si_costs sim) now"
    obtain pid ids where np: "next_parent (ao_instrument_id (sd_opportunity d)) (w_ids w6) = (pid, ids)" by force
    define d1 where "d1 = d\<lparr>sd_opportunity := (sd_opportunity d)\<lparr>ao_parent_arb_id := pid\<rparr>\<rparr>"
    define w7 where "w7 = w6\<lparr>w_ids := ids, w_logs := log_opportunity d1 [] (w_logs w6),
      w_result := (w_result w6)\<lparr>sr_opportunities := inc_result (sr_opportunities (w_result w6))\<rparr>\<rparr>"
    have adv: "advanced ev w w6" "advanced ev w w7" "advanced ev w (w6\<lparr>w_logs := log_opportunity d [] (w_logs w6)\<rparr>)"
      "advanced ev w (risk_blocked now s r i t w4)" for s r i t
      using w4 by (simp_all add: w6_def w7_def advanced_def log_opportunity_def Let_def)
    have decided: "sd_should_trade d \<Longrightarrow> proposed sim ev w7 (sd_opportunity d1)"
      using both by (auto simp: proposed_def Let_def w7_def w6_def d1_def d_def now_def)
    show ?thesis
      unfolding defs both option.case d_def [symmetric] w6_def [symmetric] np d1_def [symmetric] w7_def [symmetric]
      using quiet [OF adv(1)] quiet [OF adv(2)] quiet [OF adv(3)] quiet [OF adv(4)]
        trade [OF adv(2) _ decided, folded now_def] by auto
  qed (use w4 quiet in \<open>unfold defs; simp\<close>)+
qed

lemma replay_event_ok:
  assumes ok: "replay_ok h V cfg n w" and n: "n \<le> 2147483647" and cfg: "limits_sane cfg" "si_risk_cfg sim = cfg"
    and ev: "V + volume ev \<le> i64_max" "be_qty ev \<le> i64_max"
  shows "\<exists>w'. replay_event h clock sim n health item ev w = Some w' \<and> replay_ok h (V + volume ev) cfg n w'"
proof -
  have quiet: "replay_ok h (V + volume ev) cfg n w'" if "advanced ev w w'" for w'
    using ok that books_ok_event [OF _ ev, of "w_books w"]
    by (auto simp: replay_ok_def sim_ok_def engine_ok_def advanced_def audited_def)
  show ?thesis by (rule replay_event_rule [OF quiet], assumption, rule traded_ok [OF quiet _ n cfg])
qed

definition events_of :: "md_result list \<Rightarrow> book_event list" where
  "events_of rs = List.map_filter mr_event rs"

lemma events_of_simps [simp]:
  "events_of [] = []" "events_of (r # rs) = (case mr_event r of None \<Rightarrow> events_of rs | Some ev \<Rightarrow> ev # events_of rs)"
  by (simp_all add: events_of_def List.map_filter_simps split: option.splits)

text \<open>
  The induction over a replay, once: whatever holds at the start, survives the timers of an
  empty item and is carried over each event by \<open>replay_event\<close>, holds at the end. The
  predicate sees the events handled so far.
\<close>

lemma replay_loop_rule:
  assumes "P done w" and "md_drain md = (rs, md')"
    and quiet: "\<And>evs w. P evs w \<Longrightarrow> P evs (timer_stop clock ''md_to_book'' (clock (me_ticks (w_engine w))) (tick w))"
    and step: "\<And>evs ev rest health item w. done @ events_of rs = evs @ ev # rest \<Longrightarrow> P evs w \<Longrightarrow>
      \<exists>w'. replay_event h clock sim n health item ev w = Some w' \<and> P (evs @ [ev]) w'"
  shows "\<exists>w'. replay_loop h clock sim n md w = Some (md', w') \<and> P (done @ events_of rs) w'"
  using assms(1,2,4)
proof (induction md arbitrary: w rs "done" rule: md_drain.induct)
  case (1 md)
  obtain o1 md1 where nx: "md_next md = (o1, md1)" by force
  show ?case
  proof (cases o1)
    case None
    with nx "1.prems" show ?thesis
      by (auto simp: replay_loop.simps [of h clock sim n md w] md_drain.simps [of md])
  next
    case (Some r)
    obtain rs1 where rs1: "md_drain md1 = (rs1, md')" "rs = r # rs1"
      using nx Some "1.prems"(2) by (auto simp: md_drain.simps [of md] split: prod.splits)
    define done1 where "done1 = done @ events_of [r]"
    have all: "done @ events_of rs = done1 @ events_of rs1" by (simp add: done1_def rs1(2) split: option.split)
    have "\<exists>w1. replay_item h clock sim n (mh_health md1) r w = Some w1 \<and> P done1 w1"
      using quiet [OF "1.prems"(1)] "1.prems"(3) [OF _ "1.prems"(1)] all
      by (cases "mr_event r") (auto simp: replay_item_def timer_start_def done1_def)
    then obtain w1 where w1: "replay_item h clock sim n (mh_health md1) r w = Some w1" "P done1 w1" by blast
    from "1.IH" [OF nx [symmetric] Some w1(2) rs1(1)] "1.prems"(3) all nx Some w1(1) show ?thesis
      by (simp add: replay_loop.simps [of h clock sim n md w])
  qed
qed

lemma replay_loop_ok:
  assumes "replay_ok h V cfg n w" and "n \<le> 2147483647" and "limits_sane cfg" and "si_risk_cfg sim = cfg"
    and "md_drain md = (rs, md')" and "V + (\<Sum>ev\<leftarrow>events_of rs. volume ev) \<le> i64_max"
    and "list_all (\<lambda>ev. be_qty ev \<le> i64_max) (events_of rs)"
  shows "\<exists>w'. replay_loop h clock sim n md w = Some (md', w') \<and>
    replay_ok h (V + (\<Sum>ev\<leftarrow>events_of rs. volume ev)) cfg n w'"
proof -
  let ?P = "\<lambda>evs. replay_ok h (V + (\<Sum>ev\<leftarrow>evs. volume ev)) cfg n"
  have "\<exists>w'. replay_event h clock sim n health item ev w = Some w' \<and> ?P (evs @ [ev]) w'"
    if "[] @ events_of rs = evs @ ev # rest" and "?P evs w" for evs ev rest health item w
  proof -
    have "0 \<le> (\<Sum>ev\<leftarrow>rest. volume ev)" by (auto intro!: sum_list_nonneg simp: volume_def)
    with assms(6,7) that(1) have "V + (\<Sum>ev\<leftarrow>evs. volume ev) + volume ev \<le> i64_max" "be_qty ev \<le> i64_max" by simp_all
    from replay_event_ok [OF that(2) assms(2-4) this, of clock health item] show ?thesis by (simp add: add.assoc)
  qed
  moreover have "?P evs (timer_stop clock s t (tick w))" if "?P evs w" for evs w s t
    by (rule replay_ok_cong [OF that]) simp_all
  ultimately show ?thesis
    using replay_loop_rule [of ?P "[]", OF _ assms(5), of w clock h sim n] assms(1) by simp
qed

section \<open>After a kill\<close>

text \<open>
  While the kill switch is off, nothing is sent: orders, fills, positions and their logs stay
  as they are, and the books are those of the market data alone.
\<close>

definition killed :: "sim_world \<Rightarrow> bool" where
  "killed w \<longleftrightarrow> \<not> ks_enabled (rk_kill (w_risk w))"

definition idle :: "sim_world \<Rightarrow> sim_world \<Rightarrow> bool" where
  "idle w w' \<longleftrightarrow> killed w' \<and> w_oms w' = w_oms w \<and> w_positions w' = w_positions w \<and>
     lg_orders (w_logs w') = lg_orders (w_logs w) \<and> lg_fills (w_logs w') = lg_fills (w_logs w) \<and>
     sr_hedges (w_result w') = sr_hedges (w_result w)"

lemma idle_trans: "idle w w' \<Longrightarrow> idle w' w'' \<Longrightarrow> idle w w''"
  by (simp add: idle_def)

lemma killed_simps [simp]:
  "killed (tick w) = killed w" "killed (timer_stop clock s t w) = killed w" "killed (risk_blocked ts sv r i d w) = killed w"
  by (simp_all add: killed_def)

lemma send_one_killed:
  assumes "killed w"
  shows "\<exists>p' w'. send_one h clock q now i (p, w) = Some (p', w') \<and> residual p' = residual p \<and> idle w w' \<and> w_books w' = w_books w"
  using assms check_order_killed [of "w_risk w" i q now "w_positions w"]
  by (auto simp: send_one_def timer_start_def Let_def killed_def rd_block_def idle_def)

lemma execute_opportunity_killed:
  assumes "killed w"
  shows "\<exists>p' w'. execute_opportunity h clock sim opp now w = Some (p', w') \<and> idle w w' \<and> w_books w' = w_books w"
proof -
  define nse where "nse = value_or (bm_quote NSE (ao_instrument_id opp) now (w_books w))"
  define bse where "bse = value_or (bm_quote BSE (ao_instrument_id opp) now (w_books w))"
  obtain f s where fs: "(f, s) = (if sn_send_sell_first (si_scenario sim) then (sell_intent opp, buy_intent opp)
      else (buy_intent opp, sell_intent opp))"
    by (metis surj_pair)
  obtain p1 w1 where 1: "send_one h clock (if oi_venue f = NSE then nse else bse) now f (from_opportunity opp, w) = Some (p1, w1)"
    "residual p1 = 0" "idle w w1" "w_books w1 = w_books w"
    using send_one_killed [OF assms, of h clock _ now f "from_opportunity opp"] by fastforce
  obtain p2 w2 where 2: "send_one h clock (if oi_venue s = NSE then nse else bse) now s (p1, w1) = Some (p2, w2)"
    "residual p2 = 0" "idle w1 w2" "w_books w2 = w_books w1"
    using send_one_killed [of w1 h clock _ now s p1] 1(2,3) unfolding idle_def by fastforce
  have "execute_opportunity h clock sim opp now w = Some (finish_pair (p2, w2))"
    by (rule execute_stages [OF nse_def bse_def fs 1(1) 2(1)]) (simp add: 2(2))
  with 1(3,4) 2(2-4) show ?thesis
    by (simp add: finish_pair.simps idle_def killed_def log_pair_def Let_def)
qed

lemma replay_event_killed:
  assumes "killed w"
  shows "\<exists>w'. replay_event h clock sim n health item ev w = Some w' \<and> idle w w' \<and>
    w_books w' = snd (bm_on_event ev (w_books w))"
proof (rule replay_event_rule)
  show quiet: "idle w w' \<and> w_books w' = snd (bm_on_event ev (w_books w))" if "advanced ev w w'" for w'
    using assms that by (simp add: idle_def killed_def advanced_def)
  fix w' opp assume adv: "advanced ev w w'"
  note q = quiet [OF adv]
  then have "killed w'" by (simp add: idle_def)
  then obtain p w8 where "execute_opportunity h clock sim opp (be_ts_ingest_ns ev) w' = Some (p, w8)"
      "idle w' w8" "w_books w8 = w_books w'"
    using execute_opportunity_killed by blast
  with q show "\<exists>p w8. execute_opportunity h clock sim opp (be_ts_ingest_ns ev) w' = Some (p, w8) \<and>
      idle w (w8\<lparr>w_result := (w_result w8)\<lparr>sr_trades := inc_result (sr_trades (w_result w8))\<rparr>\<rparr>) \<and>
      w_books (w8\<lparr>w_result := (w_result w8)\<lparr>sr_trades := inc_result (sr_trades (w_result w8))\<rparr>\<rparr>) = snd (bm_on_event ev (w_books w))"
    by (simp add: idle_def killed_def)
qed

lemma replay_loop_killed:
  assumes "killed w"
  shows "\<exists>w'. replay_loop h clock sim n md w = Some (snd (md_drain md), w') \<and> idle w w' \<and>
    w_books w' = bm_replay (events_of (fst (md_drain md))) (w_books w)"
proof -
  obtain rs md' where dr: "md_drain md = (rs, md')" by force
  let ?P = "\<lambda>evs w'. idle w w' \<and> w_books w' = bm_replay evs (w_books w)"
  have "\<exists>w2. replay_event h clock sim n health item ev w1 = Some w2 \<and> ?P (evs @ [ev]) w2" if "?P evs w1" for evs ev health item w1
    using replay_event_killed [of w1 h clock sim n health item ev] that
    by (auto simp: idle_def bm_replay_def)
  moreover have "?P evs (timer_stop clock s t (tick w1))" if "?P evs w1" for evs w1 s t
    using that by (simp add: idle_def)
  moreover have "?P [] w" using assms by (simp add: idle_def bm_replay_def)
  ultimately show ?thesis
    using replay_loop_rule [of ?P "[]", OF _ dr, of w clock h sim n] by (simp add: dr)
qed

section \<open>Properties\<close>

definition sample_sim :: simulator where
  "sample_sim = \<lparr>si_costs = sample_costs, si_risk_cfg = default_risk_config,
     si_strategy_cfg = default_strategy_config, si_scenario = scenario_default\<rparr>"

definition sample_world :: sim_world where
  "sample_world = (initial_world sample_sim new_book_manager 0)\<lparr>w_engine := sample_engine\<rparr>"

lemma initial_world_ok:
  assumes "iteration_ok h" and "limits_sane (si_risk_cfg sim)"
  shows "replay_ok h 0 (si_risk_cfg sim) n (initial_world sim new_book_manager ticks)"
  using assms
  by (simp add: replay_ok_def sim_ok_def initial_world_def engine_ok_def books_ok_def new_book_manager_def Let_def
      empty_result_def new_order_manager_def om_inv_def ids_ok_def om_known_order_def new_risk_engine_def
      new_id_generator_def limits_sane_def pos_net_def audited_def)

lemma default_limits_sane: "limits_sane default_risk_config"
  by (simp add: limits_sane_def default_risk_config_def)

lemma sample_world_ok: "sim_ok rev i64_max default_risk_config 0 sample_world"
  using initial_world_ok [of rev sample_sim 0 0] sample_engine_ok default_limits_sane
  by (simp add: replay_ok_def sim_ok_def sample_world_def sample_sim_def engine_ok_def initial_world_def empty_result_def Let_def)

lemma run_replay_returns:
  assumes "iteration_ok h" and "limits_sane (si_risk_cfg sim)" and "n \<le> 2147483647"
    and "handler_open fs path = Inr md" and "stream_fits (events_of (fst (md_drain md)))"
  obtains w V where "run_replay h clock fs sim new_book_manager ticks path n = Some (Inr w)"
    and "replay_ok h V (si_risk_cfg sim) n w"
proof -
  obtain rs md' where dr: "md_drain md = (rs, md')" by force
  have "(\<Sum>ev\<leftarrow>events_of rs. volume ev) \<le> i64_max" "list_all (\<lambda>ev. be_qty ev \<le> i64_max) (events_of rs)"
    using assms(5) dr by (simp_all add: stream_fits_def)
  then obtain w where "replay_loop h clock sim n md (initial_world sim new_book_manager ticks) = Some (md', w)"
    "replay_ok h (\<Sum>ev\<leftarrow>events_of rs. volume ev) (si_risk_cfg sim) n w"
    using replay_loop_ok [OF initial_world_ok [OF assms(1,2)] assms(3,2) refl dr] by auto
  with assms(4) show ?thesis by (intro that [of w]) (simp_all add: run_replay_def)
qed

text \<open>
  C2: a whole replay stays within the limits. For every replay file whose events fit the
  books, every scenario, configuration with sane limits, clock and hash iteration order,
  \<open>run_replay\<close> on fresh books returns; in the end no position of any instrument exceeds the
  configured limit, orders, fills and positions agree, every fill has been handed to its
  pair, at most \<open>max_trades\<close> opportunities were traded and at most two orders plus the
  configured hedge attempts were sent for each.
\<close>

theorem replay_keeps_limits:
  assumes "iteration_ok h" and "limits_sane (si_risk_cfg sim)" and "n \<le> 2147483647"
    and "handler_open fs path = Inr md" and "stream_fits (events_of (fst (md_drain md)))"
  shows "\<exists>w. run_replay h clock fs sim new_book_manager ticks path n = Some (Inr w) \<and>
    (\<forall>i. \<bar>pos_net i (w_positions w)\<bar> \<le> rc_max_position_qty (si_risk_cfg sim)) \<and>
    om_inv (w_oms w, w_positions w) \<and> om_consumed (w_oms w) = length (om_fills (w_oms w)) \<and>
    0 \<le> sr_trades (w_result w) \<and> sr_trades (w_result w) \<le> max 0 n \<and>
    int (unat (ig_order_seq (om_ids (w_oms w))))
      \<le> sr_trades (w_result w) * (2 + max 0 (rc_max_hedge_attempts (si_risk_cfg sim)))"
proof -
  obtain w V where w: "run_replay h clock fs sim new_book_manager ticks path n = Some (Inr w)"
    "replay_ok h V (si_risk_cfg sim) n w"
    by (rule run_replay_returns [OF assms])
  have "int (nat (sr_trades (w_result w)) * orders_per_trade (si_risk_cfg sim))
      = sr_trades (w_result w) * (2 + max 0 (rc_max_hedge_attempts (si_risk_cfg sim)))"
    using w(2) by (simp add: replay_ok_def orders_per_trade_def max_def algebra_simps)
  moreover have "unat (ig_order_seq (om_ids (w_oms w))) \<le> nat (sr_trades (w_result w)) * orders_per_trade (si_risk_cfg sim)"
    using w(2) by (simp add: replay_ok_def sim_ok_def)
  then have "int (unat (ig_order_seq (om_ids (w_oms w)))) \<le> int (nat (sr_trades (w_result w)) * orders_per_trade (si_risk_cfg sim))"
    by (rule of_nat_mono)
  ultimately have "int (unat (ig_order_seq (om_ids (w_oms w))))
      \<le> sr_trades (w_result w) * (2 + max 0 (rc_max_hedge_attempts (si_risk_cfg sim)))" by (rule order_trans [OF _ eq_refl, rotated])
  with w show ?thesis
    unfolding replay_ok_def sim_ok_def by (intro exI [of _ w]) simp
qed

lemma sample_events_fit: "stream_fits (events_of (fst (md_drain sample_handler)))"
proof -
  obtain a b where ab: "fst (md_drain sample_handler) = [a, b]"
    using sample_drain by (auto simp: map_eq_Cons_conv)
  then show ?thesis
    using sample_drain by (auto simp: stream_fits_def volume_def sample_row_event_def)
qed

theorem replay_keeps_limits_witness:
  "\<exists>w. run_replay rev (\<lambda>n. of_nat n) (\<lambda>_. Some sample_file) sample_sim new_book_manager 0 [] 1 = Some (Inr w) \<and>
     (\<forall>i. \<bar>pos_net i (w_positions w)\<bar> \<le> 200) \<and> sr_trades (w_result w) \<le> 1"
  using replay_keeps_limits [OF _ _ _ sample_open sample_events_fit, of rev sample_sim 1 "\<lambda>n. of_nat n" 0] default_limits_sane
  by (auto simp: sample_sim_def default_risk_config_def iteration_ok_def)

text \<open>
  C9: the audit trail is complete. When a replay returns, every order it sent stands in a final
  state under an id of its own; the order log holds one row for each order, as it
  ended and in the order of submission, and the fill log one row for each recorded fill, in
  order: nothing is traded that is not logged, and nothing is logged twice or in passing.
\<close>

theorem replay_logs_complete:
  assumes "iteration_ok h" and "limits_sane (si_risk_cfg sim)" and "n \<le> 2147483647"
    and "handler_open fs path = Inr md" and "stream_fits (events_of (fst (md_drain md)))"
  shows "\<exists>w. run_replay h clock fs sim new_book_manager ticks path n = Some (Inr w) \<and>
    distinct (map fst (om_orders (w_oms w))) \<and> list_all (\<lambda>e. settled (snd e)) (om_orders (w_oms w)) \<and>
    lg_orders (w_logs w) = lg_orders (fold log_order (map snd (om_orders (w_oms w))) open_logs) \<and>
    lg_fills (w_logs w) = lg_fills (fold log_fill (om_fills (w_oms w)) open_logs)"
proof -
  obtain w V where w: "run_replay h clock fs sim new_book_manager ticks path n = Some (Inr w)"
    "replay_ok h V (si_risk_cfg sim) n w"
    by (rule run_replay_returns [OF assms])
  then show ?thesis by (auto simp: replay_ok_def sim_ok_def audited_def om_inv_def ids_ok_def)
qed

theorem replay_logs_complete_witness:
  "\<exists>w. run_replay rev (\<lambda>n. of_nat n) (\<lambda>_. Some sample_file) sample_sim new_book_manager 0 [] 1 = Some (Inr w) \<and>
     lg_fills (w_logs w) = lg_fills (fold log_fill (om_fills (w_oms w)) open_logs)"
  using replay_logs_complete [OF _ _ _ sample_open sample_events_fit, of rev sample_sim 1 "\<lambda>n. of_nat n" 0] default_limits_sane
  by (auto simp: sample_sim_def iteration_ok_def)

text \<open>
  C6: an opportunity is fully accounted for. Executing an opportunity returns; it ends with
  the pair FLAT exactly when as much was bought as sold, and otherwise in ERROR_RECOVERY or
  KILL_SWITCH; the position of its instrument has moved by exactly the residual of the
  pair, no other position has moved, and none exceeds its limit.
\<close>

theorem opportunity_accounted:
  assumes "sim_ok h V cfg K w" and "K + orders_per_trade cfg < 2 ^ 64" and "limits_sane cfg" and "si_risk_cfg sim = cfg"
  shows "\<exists>p' w'. execute_opportunity h clock sim opp now w = Some (p', w') \<and>
    (pt_state p' = PsFlat \<longleftrightarrow> residual p' = 0) \<and> pt_state p' \<in> {PsFlat, PsErrorRecovery, PsKillSwitch} \<and>
    (\<forall>i. pos_net i (w_positions w') = pos_net i (w_positions w) + (if i = ao_instrument_id opp then residual p' else 0)) \<and>
    sim_ok h V cfg (K + orders_per_trade cfg) w'"
  using execute_opportunity_ok [OF assms, of clock opp now]
  by (fastforce simp: moved_def pair_closed_def split: if_splits)

definition sample_opportunity :: arb_opportunity where
  "sample_opportunity = empty_opportunity\<lparr>ao_parent_arb_id := ''P'', ao_instrument_id := 1, ao_buy_venue := NSE,
     ao_sell_venue := BSE, ao_buy_price_paise := 105, ao_sell_price_paise := 120, ao_qty := 5\<rparr>"

theorem opportunity_accounted_witness:
  "\<exists>p' w'. execute_opportunity rev (\<lambda>n. of_nat n) sample_sim sample_opportunity 7 sample_world = Some (p', w') \<and>
    (pt_state p' = PsFlat \<longleftrightarrow> residual p' = 0) \<and> pos_net 1 (w_positions w') = residual p'"
  using opportunity_accounted [OF sample_world_ok _ default_limits_sane, of sample_sim "\<lambda>n. of_nat n" sample_opportunity 7]
  by (fastforce simp: sample_sim_def orders_per_trade_def default_risk_config_def sample_opportunity_def
      sample_world_def initial_world_def pos_net_def Let_def)

text \<open>
  C11: hedging ends. From any well-formed world, \<open>hedge_until_flat\<close> returns after at most as
  many orders as attempts are left, and the pair is FLAT, in ERROR_RECOVERY or killed; the
  books, orders and positions stay well formed and the position follows the residual.
\<close>

theorem hedging_terminates:
  assumes "sim_ok h V cfg K w" and "exposed n0 p w" and "limits_sane cfg" and "0 \<le> pt_hedge_attempts p"
    and "K + attempts_left cfg p < 2 ^ 64" and "pt_state p = PsHedging"
  shows "\<exists>p' w'. hedge_until_flat h clock cfg now p w = Some (p', w') \<and>
    (if residual p' = 0 then pt_state p' = PsFlat else pt_state p' \<in> {PsErrorRecovery, PsKillSwitch}) \<and>
    sim_ok h V cfg (K + attempts_left cfg p) w' \<and> exposed n0 p' w'"
  using hedge_until_flat_ok [OF assms, of clock now] unfolding step_ok_def by fastforce

theorem hedging_terminates_witness:
  "\<exists>p' w'. hedge_until_flat rev (\<lambda>n. of_nat n) default_risk_config 7 (sample_pair\<lparr>pt_state := PsHedging\<rparr>) sample_world = Some (p', w')"
proof -
  have "exposed [(1, \<lparr>pos_net_qty = -40, pos_cash_paise = 0\<rparr>)] (sample_pair\<lparr>pt_state := PsHedging\<rparr>) sample_world"
    by (simp add: exposed_def sample_world_def initial_world_def pos_net_def Let_def sample_pair_def residual_def
        wrap64_def from_opportunity_def)
  then show ?thesis
    using hedging_terminates [OF sample_world_ok _ default_limits_sane, of _ "sample_pair\<lparr>pt_state := PsHedging\<rparr>" "\<lambda>n. of_nat n" 7]
    by (force simp: sample_pair_def from_opportunity_def attempts_left_def default_risk_config_def)
qed

text \<open>
  C10: a disabled kill switch ends all trading. From any world in which it is off, by the
  manual-kill scenario or by the hedge policy, the replay of any file returns with no further
  order, fill, hedge or position change, and with nothing added to the order and fill logs;
  the books are those of the market data alone and the switch is still off.
\<close>

theorem kill_switch_stops_trading:
  assumes "\<not> ks_enabled (rk_kill (w_risk w))"
  shows "\<exists>w'. replay_loop h clock sim n md w = Some (snd (md_drain md), w') \<and> \<not> ks_enabled (rk_kill (w_risk w')) \<and>
    w_oms w' = w_oms w \<and> w_positions w' = w_positions w \<and> sr_hedges (w_result w') = sr_hedges (w_result w) \<and>
    lg_orders (w_logs w') = lg_orders (w_logs w) \<and> lg_fills (w_logs w') = lg_fills (w_logs w) \<and>
    w_books w' = bm_replay (events_of (fst (md_drain md))) (w_books w)"
  using replay_loop_killed [of w h clock sim n md] assms by (auto simp: idle_def killed_def)

theorem kill_switch_stops_trading_witness:
  "\<exists>md w'. replay_loop rev (\<lambda>n. of_nat n) (sample_sim\<lparr>si_scenario := scenario_from_name ''manual_kill''\<rparr>) 1 sample_handler
      (initial_world (sample_sim\<lparr>si_scenario := scenario_from_name ''manual_kill''\<rparr>) new_book_manager 0) = Some (md, w') \<and>
    w_positions w' = [] \<and> om_fills (w_oms w') = []"
  using kill_switch_stops_trading
    [of "initial_world (sample_sim\<lparr>si_scenario := scenario_from_name ''manual_kill''\<rparr>) new_book_manager 0" rev "\<lambda>n. of_nat n"
      "sample_sim\<lparr>si_scenario := scenario_from_name ''manual_kill''\<rparr>" 1 sample_handler]
  by (auto simp: initial_world_def Let_def scenario_from_name_def ks_disable_def new_order_manager_def)

end
