(* ===== verification/Command_Line.thy ===== *)
theory Command_Line
  imports Csv_Text
begin

text \<open>
  What the programs read from their command line, a list of strings that starts with the name
  of the program, the paths they make of it, and the end of line they print.
\<close>

fun arg_loop :: "string list \<Rightarrow> string \<Rightarrow> string \<Rightarrow> string" where
  "arg_loop (a # b # rest) key def = (if a = key then b else arg_loop (b # rest) key def)"
| "arg_loop _ key def = def"

definition arg_value :: "string list \<Rightarrow> string \<Rightarrow> string \<Rightarrow> string" where
  "arg_value argv key def = arg_loop (drop 1 argv) key def"

text \<open>The same search in the queue benchmark, there for a number (\<^verbatim>\<open>std::stoull\<close> may throw) and for a text.\<close>

fun u64_arg_loop :: "string list \<Rightarrow> string \<Rightarrow> u64 \<Rightarrow> parse_error + u64" where
  "u64_arg_loop (a # b # rest) name default_value =
     (if a = name then stoull b else u64_arg_loop (b # rest) name default_value)"
| "u64_arg_loop _ name default_value = Inr default_value"

definition parse_u64_arg :: "string list \<Rightarrow> string \<Rightarrow> u64 \<Rightarrow> parse_error + u64" where
  "parse_u64_arg argv name default_value = u64_arg_loop (drop 1 argv) name default_value"

fun string_arg_loop :: "string list \<Rightarrow> string \<Rightarrow> string \<Rightarrow> string" where
  "string_arg_loop (a # b # rest) name default_value =
     (if a = name then b else string_arg_loop (b # rest) name default_value)"
| "string_arg_loop _ name default_value = default_value"

definition parse_string_arg :: "string list \<Rightarrow> string \<Rightarrow> string \<Rightarrow> string" where
  "parse_string_arg argv name default_value = string_arg_loop (drop 1 argv) name default_value"

text \<open>
  \<^verbatim>\<open>parent_path\<close>: the path up to the last separator, without separators at its end (the root
  keeps its own), and \<open>ensure_parent_dir\<close>, here the directory it asks to create.
\<close>

definition parent_path :: "string \<Rightarrow> string" where
  "parent_path p =
     (let up = dropWhile (\<lambda>c. c \<noteq> CHR ''/'') (rev p); dir = rev (dropWhile (\<lambda>c. c = CHR ''/'') up)
      in if dir = [] then rev up else dir)"

definition ensure_parent_dir :: "string \<Rightarrow> string option" where
  "ensure_parent_dir file_path = (if parent_path file_path \<noteq> [] then Some (parent_path file_path) else None)"

definition newline :: string where
  "newline = [CHR 0x0A]"

lemma parent_path_no_dir: "CHR ''/'' \<notin> set p \<Longrightarrow> parent_path p = []"
proof -
  assume "CHR ''/'' \<notin> set p"
  then have "dropWhile (\<lambda>c. c \<noteq> CHR ''/'') (rev p) = []" by (auto simp: dropWhile_eq_Nil_conv)
  then show ?thesis by (simp only: parent_path_def Let_def dropWhile.simps rev.simps if_True simp_thms)
qed

lemma parent_path_join: "CHR ''/'' \<notin> set f \<Longrightarrow> d \<noteq> [] \<Longrightarrow> last d \<noteq> CHR ''/'' \<Longrightarrow> parent_path (d @ ''/'' @ f) = d"
proof -
  assume f: "CHR ''/'' \<notin> set f" and d: "d \<noteq> []" "last d \<noteq> CHR ''/''"
  have "dropWhile (\<lambda>c. c \<noteq> CHR ''/'') (rev (d @ ''/'' @ f)) = CHR ''/'' # rev d"
    using f by (subst rev_append, simp, subst dropWhile_append2) auto
  moreover have "dropWhile (\<lambda>c. c = CHR ''/'') (rev d) = rev d"
    using d by (cases d rule: rev_cases) simp_all
  ultimately show ?thesis using d by (simp only: parent_path_def Let_def dropWhile.simps rev_rev_ident if_True if_False simp_thms)
qed

text \<open>The searches agree: the number is the text, converted.\<close>

lemma string_arg_loop_eq: "string_arg_loop args name d = arg_loop args name d"
  by (induction args name d rule: string_arg_loop.induct) simp_all

lemma u64_arg_loop_cases:
  "u64_arg_loop args name d = Inr d \<or> u64_arg_loop args name d = stoull (arg_loop args name t)"
  by (induction args name d rule: u64_arg_loop.induct) simp_all

lemma arg_last: "length argv < 3 \<Longrightarrow> parse_u64_arg argv name d = Inr d \<and> parse_string_arg argv name t = t"
  unfolding parse_u64_arg_def parse_string_arg_def
  by (cases argv rule: remdups_adj.cases; cases "tl (tl argv)") auto

end
