(* ===== verification/Apps.thy ===== *)
theory Apps
  imports Sim_Replay Command_Line
begin

text \<open>
  The two programs of \<^verbatim>\<open>apps\<close>: the demo, which runs one replay from configuration files, and the
  scenario suite, which checks twenty situations and writes a report. The file system, the
  clock and the hash iteration orders are arguments; what a program prints or writes is its
  result. Two constructors stand around a result: \<open>None\<close> if the program does not return,
  \<open>Inl\<close> for an exception that reaches \<open>main\<close>.
\<close>

section \<open>The demo\<close>

record demo_result =
  dm_exit :: nat
  dm_out :: string
  dm_err :: string
  dm_world :: "sim_world option"

definition demo_error :: "string \<Rightarrow> demo_result" where
  "demo_error e = \<lparr>dm_exit = 1, dm_out = [], dm_err = ''error: '' @ e @ newline, dm_world = None\<rparr>"

definition demo_strategy :: "cost_model \<Rightarrow> risk_config \<Rightarrow> strategy_config" where
  "demo_strategy costs risk = default_strategy_config\<lparr>st_min_net_edge_paise := cm_min_net_edge_paise costs,
     st_max_qty := rc_max_order_qty risk, st_max_book_age_us := rc_max_book_age_us risk\<rparr>"

definition demo_main ::
  "iteration_order \<Rightarrow> (nat \<Rightarrow> u64) \<Rightarrow> (string \<Rightarrow> string option) \<Rightarrow> string list \<Rightarrow> nat \<Rightarrow> demo_result option" where
  "demo_main h clock fs argv ticks =
     (let costs_path = arg_value argv ''--costs'' ''config/costs.yml'';
          risk_path = arg_value argv ''--risk'' ''config/risk.yml'';
          replay_path = arg_value argv ''--replay'' ''data/sample_day.csv'';
          out_dir = arg_value argv ''--out'' ''data/out'';
          scenario_name = arg_value argv ''--scenario'' ''clean''
      in case cost_load fs costs_path of
           Inl e \<Rightarrow> Some (demo_error e)
         | Inr costs \<Rightarrow>
             (case cost_validate costs of
                (False, reason) \<Rightarrow>
                  Some \<lparr>dm_exit = 2, dm_out = [], dm_err = ''Cost config invalid: '' @ reason @ newline, dm_world = None\<rparr>
              | (True, _) \<Rightarrow>
                  (case risk_load fs risk_path of
                     Inl e \<Rightarrow> Some (demo_error e)
                   | Inr risk \<Rightarrow>
                       let sim = \<lparr>si_costs = costs, si_risk_cfg = risk, si_strategy_cfg = demo_strategy costs risk,
                                  si_scenario = scenario_from_name scenario_name\<rparr>
                       in (case run_replay h clock fs sim new_book_manager ticks replay_path 1 of
                             None \<Rightarrow> None
                           | Some (Inl e) \<Rightarrow> Some (demo_error e)
                           | Some (Inr w) \<Rightarrow>
                               let r = w_result w
                               in Some \<lparr>dm_exit = 0,
                                    dm_out = ''scenario='' @ scenario_name @
                                      '' opportunities='' @ show_int (sr_opportunities r) @ '' trades='' @ show_int (sr_trades r) @
                                      '' hedges='' @ show_int (sr_hedges r) @ '' risk_blocks='' @ show_int (sr_risk_blocks r) @
                                      '' final_state='' @ sr_final_state r @ newline @ ''outputs written to '' @ out_dir @ newline,
                                    dm_err = [], dm_world = Some w\<rparr>))))"

section \<open>The rows of the suite\<close>

record suite_row =
  rw_id :: string
  rw_scenario :: string
  rw_expected :: string
  rw_actual :: string
  rw_status :: string

definition make_row :: "string \<Rightarrow> string \<Rightarrow> string \<Rightarrow> string \<Rightarrow> bool \<Rightarrow> suite_row" where
  "make_row i s e a ok = \<lparr>rw_id = i, rw_scenario = s, rw_expected = e, rw_actual = a,
     rw_status = (if ok then ''PASS'' else ''FAIL'')\<rparr>"

definition suite_costs :: cost_model where
  "suite_costs = \<lparr>cm_fees_paise_per_share = 5, cm_taxes_paise_per_share = 5, cm_slippage_buffer_paise = 5,
     cm_latency_buffer_paise = 5, cm_hedge_risk_buffer_paise = 10, cm_min_net_edge_paise = 5\<rparr>"

definition high_costs :: cost_model where
  "high_costs = \<lparr>cm_fees_paise_per_share = 20, cm_taxes_paise_per_share = 20, cm_slippage_buffer_paise = 20,
     cm_latency_buffer_paise = 20, cm_hedge_risk_buffer_paise = 20, cm_min_net_edge_paise = 5\<rparr>"

definition suite_strategy :: strategy_config where
  "suite_strategy = \<lparr>st_min_net_edge_paise = cm_min_net_edge_paise suite_costs, st_max_qty = rc_max_order_qty default_risk_config,
     st_max_book_age_us = rc_max_book_age_us default_risk_config, st_min_visible_qty = 1\<rparr>"

definition suite_order :: order_intent where
  "suite_order = \<lparr>oi_parent_arb_id = ''P'', oi_instrument_id = 1, oi_venue = NSE, oi_side = Buy, oi_order_type = LimitOrder,
     oi_tif = IOC, oi_role = AlphaBuy, oi_price_paise = 110080, oi_qty = 10\<rparr>"

definition suite_quote :: "venue \<Rightarrow> i64 \<Rightarrow> i64 \<Rightarrow> u32 \<Rightarrow> best_quote" where
  "suite_quote v bid ask age = \<lparr>q_venue = v, q_instrument_id = 1, q_bid_px_paise = bid, q_bid_qty = 100,
     q_ask_px_paise = ask, q_ask_qty = 100, q_book_age_us = age\<rparr>"

definition stale_row :: "u64 \<Rightarrow> suite_row" where
  "stale_row now =
     (let rd = fst (check_order suite_order (suite_quote NSE 110050 110080 999999) now [] (new_risk_engine default_risk_config))
      in make_row ''S07'' ''Book stale on one venue'' ''STALE_BOOK'' (rd_rule rd) (rd_rule rd = ''STALE_BOOK''))"

definition gap_row :: suite_row where
  "gap_row =
     (let st = snd (seq_on_packet NSE 1 1 []); gap = fst (seq_on_packet NSE 1 3 st)
      in make_row ''S08'' ''Sequence gap in feed'' ''GAP'' (sequence_status_to_cstr gap) (gap = SeqGap))"

definition duplicate_row :: suite_row where
  "duplicate_row =
     (let st = snd (seq_on_packet NSE 1 1 []); dup = fst (seq_on_packet NSE 1 1 st)
      in make_row ''S09'' ''Duplicate packet'' ''DUPLICATE'' (sequence_status_to_cstr dup) (dup = SeqDuplicate))"

definition orphan_row :: "u64 \<Rightarrow> suite_row" where
  "orphan_row now =
     (let orphan = \<lparr>fl_parent_arb_id = ''P'', fl_client_order_id = ''UNKNOWN_ORDER'', fl_instrument_id = 1, fl_venue = NSE,
            fl_side = Buy, fl_fill_px_paise = 1, fl_fill_qty = 1, fl_ts_fill_ns = now\<rparr>;
          evt = on_external_fill orphan new_order_manager
      in make_row ''S12'' ''Unknown fill arrives'' ''ORPHAN_FILL''
           (case evt of None \<Rightarrow> ''NONE'' | Some e \<Rightarrow> re_rule_name e)
           (case evt of None \<Rightarrow> False | Some e \<Rightarrow> re_rule_name e = ''ORPHAN_FILL''))"

definition rate_row :: suite_row where
  "rate_row =
     (let re = new_risk_engine (default_risk_config\<lparr>rc_max_orders_per_sec := 1\<rparr>);
          q = suite_quote NSE 110050 110080 0;
          (r1, re1) = check_order suite_order q 1000000000 [] re;
          (r2, re2) = check_order suite_order q 1000000001 [] re1
      in make_row ''S13'' ''Order-rate limit breached'' ''ORDER_RATE'' (rd_rule r2) (rd_approved r1 \<and> rd_rule r2 = ''ORDER_RATE''))"

definition cap_row :: "u64 \<Rightarrow> suite_row" where
  "cap_row now =
     (let pb = pos_set_position 1 (rc_max_position_qty default_risk_config) 0 [];
          rd = fst (check_order suite_order (suite_quote NSE 110050 110080 0) now pb (new_risk_engine default_risk_config))
      in make_row ''S14'' ''Inventory cap breached'' ''MAX_POSITION'' (rd_rule rd) (rd_rule rd = ''MAX_POSITION''))"

definition suite_pair :: pair_trade where
  "suite_pair = \<lparr>pt_parent_id = ''P'', pt_instrument_id = 1, pt_intended_buy_venue = VUnknown, pt_intended_sell_venue = NSE,
     pt_intended_qty = 0, pt_bought_qty = 100, pt_sold_qty = 0, pt_bought_notional_paise = 110000 * 100,
     pt_sold_notional_paise = 0, pt_hedge_attempts = 0, pt_ts_created_ns = 0, pt_ts_last_update_ns = 0,
     pt_state = PsHedging, pt_last_error = []\<rparr>"

definition hedge_loss_row :: suite_row where
  "hedge_loss_row =
     (let hd = hedge_next_order (default_risk_config\<lparr>rc_max_hedge_loss_paise := 1\<rparr>) suite_pair
            (suite_quote NSE 100000 100010 0) (suite_quote BSE 100000 100010 0)
      in make_row ''S15'' ''Hedge price exceeds max loss'' ''MAX_HEDGE_LOSS'' (hd_reason hd)
           (hd_kill hd \<and> hd_reason hd = ''MAX_HEDGE_LOSS''))"

definition eod_row :: suite_row where
  "eod_row =
     (let eod = should_flatten 1000 1500 600 10
      in make_row ''S16'' ''End-of-day residual'' ''flatten'' (if eod then ''flatten'' else ''hold'') eod)"

definition bad_costs_row :: suite_row where
  "bad_costs_row =
     (let ok = fst (cost_validate \<lparr>cm_fees_paise_per_share = 0, cm_taxes_paise_per_share = 0, cm_slippage_buffer_paise = 0,
            cm_latency_buffer_paise = 0, cm_hedge_risk_buffer_paise = 0, cm_min_net_edge_paise = 0\<rparr>)
      in make_row ''S17'' ''Cost config wrong/missing'' ''fail safe'' (if ok then ''valid'' else ''invalid'') (\<not> ok))"

definition skew_row :: suite_row where
  "skew_row =
     (let skew = severe_skew 1000 5000000 100000
      in make_row ''S18'' ''Clock skew'' ''severe'' (if skew then ''severe'' else ''ok'') skew)"

definition crossed_row :: suite_row where
  "crossed_row =
     (let crossed = book_crossed (book_add 2 Sell 99 10 (book_add 1 Buy 100 10 (new_book NSE 1)))
      in make_row ''S19'' ''Crossed/locked books'' ''crossed'' (if crossed then ''crossed'' else ''normal'') crossed)"

definition kill_row :: "u64 \<Rightarrow> suite_row" where
  "kill_row now =
     (let re = new_risk_engine default_risk_config;
          rd = fst (check_order suite_order (suite_quote NSE 110050 110080 0) now [] (re\<lparr>rk_kill := ks_disable ''manual'' (rk_kill re)\<rparr>))
      in make_row ''S20'' ''Kill switch pressed'' ''KILL_SWITCH'' (rd_rule rd) (rd_rule rd = ''KILL_SWITCH''))"

section \<open>The suite\<close>

type_synonym 'a outcome = "(string + 'a) option"

definition and_then :: "('a \<times> nat) outcome \<Rightarrow> ('a \<Rightarrow> nat \<Rightarrow> 'b outcome) \<Rightarrow> 'b outcome" where
  "and_then r k = (case r of None \<Rightarrow> None | Some (Inl e) \<Rightarrow> Some (Inl e) | Some (Inr (x, t)) \<Rightarrow> k x t)"

text \<open>One simulation: a new simulator on the sample day; \<open>t\<close> counts the readings of the clock.\<close>

definition suite_sim ::
  "iteration_order \<Rightarrow> (nat \<Rightarrow> u64) \<Rightarrow> (string \<Rightarrow> string option) \<Rightarrow> cost_model \<Rightarrow> string \<Rightarrow> nat \<Rightarrow> (sim_result \<times> nat) outcome" where
  "suite_sim h clock fs costs name t =
     (case run_replay h clock fs \<lparr>si_costs = costs, si_risk_cfg = default_risk_config, si_strategy_cfg = suite_strategy,
             si_scenario = scenario_from_name name\<rparr> new_book_manager t ''data/sample_day.csv'' 1 of
        None \<Rightarrow> None
      | Some (Inl e) \<Rightarrow> Some (Inl e)
      | Some (Inr w) \<Rightarrow> Some (Inr (w_result w, me_ticks (w_engine w))))"

definition state_row :: "string \<Rightarrow> string \<Rightarrow> string \<Rightarrow> string list \<Rightarrow> sim_result \<Rightarrow> suite_row" where
  "state_row i s e good r = make_row i s e (sr_final_state r) (sr_final_state r \<in> set good)"

definition suite_rows ::
  "iteration_order \<Rightarrow> (nat \<Rightarrow> u64) \<Rightarrow> (string \<Rightarrow> string option) \<Rightarrow> nat \<Rightarrow> suite_row list outcome" where
  "suite_rows h clock fs t0 =
     (let run_sim = suite_sim h clock fs suite_costs in
      and_then (run_sim ''clean'' t0) (\<lambda>s01 t1.
      and_then (suite_sim h clock fs high_costs ''clean'' t1) (\<lambda>s02 t2.
      and_then (run_sim ''bse_buy_fills_nse_sell_reject'' t2) (\<lambda>s03 t3.
      and_then (run_sim ''nse_sell_fills_bse_buy_reject'' t3) (\<lambda>s04 t4.
      and_then (run_sim ''buy_partial_sell_zero'' t4) (\<lambda>s05 t5.
      and_then (run_sim ''both_legs_partial'' t5) (\<lambda>s06 t6.
      and_then (run_sim ''gateway_disconnect_nse'' (t6 + 1)) (\<lambda>s10 t10.
      and_then (run_sim ''delayed_ack'' t10) (\<lambda>s11 t11.
        Some (Inr
          [state_row ''S01'' ''Clean arbitrage success'' ''FLAT'' [''FLAT''] s01,
           make_row ''S02'' ''Gross spread positive but net edge negative'' ''no trades'' (show_int (sr_trades s02)) (sr_trades s02 = 0),
           state_row ''S03'' ''BSE buy fills, NSE sell rejects'' ''HEDGE then FLAT'' [''FLAT''] s03,
           state_row ''S04'' ''NSE sell fills, BSE buy rejects'' ''HEDGE then FLAT'' [''FLAT''] s04,
           state_row ''S05'' ''Buy partially fills, sell fails'' ''residual hedged'' [''FLAT''] s05,
           state_row ''S06'' ''Both legs partially fill unequally'' ''residual hedged'' [''FLAT''] s06,
           stale_row (clock t6), gap_row, duplicate_row,
           state_row ''S10'' ''Gateway disconnect'' ''risk/error state'' [''ERROR_RECOVERY'', ''KILL_SWITCH''] s10,
           state_row ''S11'' ''ACK delayed'' ''no crash'' [''FLAT'', ''''] s11,
           orphan_row (clock t11), rate_row, cap_row (clock (t11 + 1)), hedge_loss_row, eod_row, bad_costs_row, skew_row,
           crossed_row, kill_row (clock (t11 + 2))]))))))))))"

definition suite_report :: "suite_row list \<Rightarrow> string" where
  "suite_report rows =
     ''id,scenario,expected,actual,status'' @ newline @
     concat (map (\<lambda>r. csv_row (map esc [rw_id r, rw_scenario r, rw_expected r, rw_actual r, rw_status r]) @ newline) rows)"

text \<open>
  \<open>main\<close>: the report, the path it is written to and what is printed. The path is created before
  anything runs; \<^verbatim>\<open>create_directories\<close> throws where it cannot (\<open>mkdir\<close> says so).
\<close>

record suite_output =
  so_path :: string
  so_report :: string
  so_stdout :: string

definition suite_main ::
  "iteration_order \<Rightarrow> (nat \<Rightarrow> u64) \<Rightarrow> (string \<Rightarrow> string option) \<Rightarrow> (string \<Rightarrow> bool) \<Rightarrow> string list \<Rightarrow> nat \<Rightarrow> suite_output outcome" where
  "suite_main h clock fs mkdir argv t0 =
     (let out_path = arg_value argv ''--out'' ''data/out/scenario_report.csv'' in
      if \<not> mkdir (parent_path out_path) then Some (Inl (''cannot create directories: '' @ parent_path out_path))
      else case suite_rows h clock fs t0 of
             None \<Rightarrow> None
           | Some (Inl e) \<Rightarrow> Some (Inl e)
           | Some (Inr rows) \<Rightarrow>
               Some (Inr \<lparr>so_path = out_path, so_report = suite_report rows,
                 so_stdout = ''wrote '' @ out_path @ '' with '' @ show_nat (length rows) @ '' scenarios'' @ newline\<rparr>))"

section \<open>Properties\<close>

lemma check_rows:
  "rw_status (stale_row now) = ''PASS''" "rw_status (cap_row now) = ''PASS''" "rw_status (kill_row now) = ''PASS''"
  "rw_status (orphan_row now) = ''PASS''"
proof -
  show "rw_status (stale_row now) = ''PASS''"
    by (simp add: stale_row_def make_row_def check_order_def suite_quote_def quote_valid_def default_risk_config_def
        new_risk_engine_def new_kill_switch_def rd_block_def Let_def)
  show "rw_status (cap_row now) = ''PASS''"
    by (simp add: cap_row_def make_row_def check_order_def suite_quote_def quote_valid_def default_risk_config_def suite_order_def
        new_risk_engine_def new_kill_switch_def rd_block_def Let_def pos_set_position_def pos_net_def wrap64_def llabs_def)
  show "rw_status (kill_row now) = ''PASS''"
    by (simp add: kill_row_def make_row_def check_order_def new_risk_engine_def ks_disable_def rd_block_def Let_def)
  show "rw_status (orphan_row now) = ''PASS''"
    by (simp add: orphan_row_def make_row_def on_external_fill_def om_known_order_def new_order_manager_def Let_def)
qed

lemma static_rows:
  "rw_status gap_row = ''PASS''" "rw_status duplicate_row = ''PASS''" "rw_status rate_row = ''PASS''"
  "rw_status hedge_loss_row = ''PASS''" "rw_status eod_row = ''PASS''" "rw_status bad_costs_row = ''PASS''"
  "rw_status skew_row = ''PASS''" "rw_status crossed_row = ''PASS''"
  by code_simp+

definition row_ids :: "string list" where
  "row_ids = [''S01'', ''S02'', ''S03'', ''S04'', ''S05'', ''S06'', ''S07'', ''S08'', ''S09'', ''S10'', ''S11'', ''S12'', ''S13'',
     ''S14'', ''S15'', ''S16'', ''S17'', ''S18'', ''S19'', ''S20'']"

definition simulated_ids :: "string list" where
  "simulated_ids = [''S01'', ''S02'', ''S03'', ''S04'', ''S05'', ''S06'', ''S10'', ''S11'']"

lemma suite_sim_returns:
  assumes "iteration_ok h" and "handler_open fs ''data/sample_day.csv'' = Inr md" and "stream_fits (events_of (fst (md_drain md)))"
  shows "\<exists>r t'. suite_sim h clock fs costs name t = Some (Inr (r, t'))"
proof -
  let ?sim = "\<lparr>si_costs = costs, si_risk_cfg = default_risk_config, si_strategy_cfg = suite_strategy, si_scenario = scenario_from_name name\<rparr>"
  obtain w V where "run_replay h clock fs ?sim new_book_manager t ''data/sample_day.csv'' 1 = Some (Inr w)"
    by (rule run_replay_returns [of h ?sim 1 fs "''data/sample_day.csv''" md clock t]) (use assms default_limits_sane in simp_all)
  then show ?thesis by (simp add: suite_sim_def)
qed

lemma and_then_simps [simp]: "and_then (Some (Inr (x, t))) k = k x t"
  by (simp add: and_then_def)

lemma row_id_simps [simp]:
  "rw_id (make_row i s e a ok) = i" "rw_id (state_row i s e good r) = i" "rw_id (stale_row now) = ''S07''" "rw_id gap_row = ''S08''"
  "rw_id duplicate_row = ''S09''" "rw_id (orphan_row now) = ''S12''" "rw_id rate_row = ''S13''" "rw_id (cap_row now) = ''S14''"
  "rw_id hedge_loss_row = ''S15''" "rw_id eod_row = ''S16''" "rw_id bad_costs_row = ''S17''" "rw_id skew_row = ''S18''"
  "rw_id crossed_row = ''S19''" "rw_id (kill_row now) = ''S20''"
  by (simp_all add: make_row_def state_row_def stale_row_def gap_row_def duplicate_row_def orphan_row_def rate_row_def cap_row_def
      hedge_loss_row_def eod_row_def bad_costs_row_def skew_row_def crossed_row_def kill_row_def Let_def split: prod.splits)


definition sample_files :: "string \<Rightarrow> string option" where
  "sample_files p = (if p = ''data/sample_day.csv'' then Some sample_file else Some [])"

lemma sample_day: "handler_open sample_files ''data/sample_day.csv'' = Inr sample_handler"
  using sample_open by (simp add: handler_open_def reader_open_def sample_files_def split: option.splits)




end
