(* ===== verification/Bounded_Fifo.thy ===== *)
theory Bounded_Fifo
  imports Prelude
begin

text \<open>
  The contract of a bounded queue between one producer and one consumer: what is pushed is
  popped in the same order, a push fails exactly when the queue is full and a pop exactly
  when it is empty. Both queues of \<^verbatim>\<open>src/concurrency\<close> are interpretations, and the benchmark
  pipeline is verified against this contract alone.
\<close>

datatype 'a queue_call = Push 'a | Pop

datatype 'a queue_answer = Pushed bool | Popped "'a option"

text \<open>A sequence of calls on a queue, and on the specification, a list with a bound.\<close>

fun run_calls :: "('a \<Rightarrow> 'q \<Rightarrow> bool \<times> 'q) \<Rightarrow> ('q \<Rightarrow> 'a option \<times> 'q) \<Rightarrow> 'a queue_call list \<Rightarrow> 'q \<Rightarrow> 'a queue_answer list \<times> 'q" where
  "run_calls push pop [] q = ([], q)"
| "run_calls push pop (Push v # cs) q =
     (case push v q of (ok, q1) \<Rightarrow> case run_calls push pop cs q1 of (rs, q2) \<Rightarrow> (Pushed ok # rs, q2))"
| "run_calls push pop (Pop # cs) q =
     (case pop q of (x, q1) \<Rightarrow> case run_calls push pop cs q1 of (rs, q2) \<Rightarrow> (Popped x # rs, q2))"

definition spec_push :: "nat \<Rightarrow> 'a \<Rightarrow> 'a list \<Rightarrow> bool \<times> 'a list" where
  "spec_push cap v xs = (if length xs < cap then (True, xs @ [v]) else (False, xs))"

fun spec_pop :: "'a list \<Rightarrow> 'a option \<times> 'a list" where
  "spec_pop [] = (None, [])"
| "spec_pop (x # xs) = (Some x, xs)"

locale bounded_fifo =
  fixes inv :: "'q \<Rightarrow> bool" and content :: "'q \<Rightarrow> 'a list" and cap :: nat
    and push :: "'a \<Rightarrow> 'q \<Rightarrow> bool \<times> 'q" and pop :: "'q \<Rightarrow> 'a option \<times> 'q"
  assumes bound: "inv q \<Longrightarrow> length (content q) \<le> cap"
    and push_room: "inv q \<Longrightarrow> length (content q) < cap \<Longrightarrow>
      \<exists>q'. push v q = (True, q') \<and> inv q' \<and> content q' = content q @ [v]"
    and push_full: "inv q \<Longrightarrow> length (content q) = cap \<Longrightarrow> push v q = (False, q)"
    and pop_item: "inv q \<Longrightarrow> content q = x # xs \<Longrightarrow> \<exists>q'. pop q = (Some x, q') \<and> inv q' \<and> content q' = xs"
    and pop_none: "inv q \<Longrightarrow> content q = [] \<Longrightarrow> pop q = (None, q)"
begin

lemma push_cases:
  assumes "inv q"
  obtains (pushed) q' where "length (content q) < cap" "push v q = (True, q')" "inv q'" "content q' = content q @ [v]"
    | (full) "length (content q) = cap" "push v q = (False, q)"
  using bound [OF assms] push_room [OF assms, of v] push_full [OF assms, of v] by (cases "length (content q) = cap") auto

lemma pop_cases:
  assumes "inv q"
  obtains (popped) x q' where "content q = x # content q'" "pop q = (Some x, q')" "inv q'"
    | (none) "content q = []" "pop q = (None, q)"
  using pop_item [OF assms] pop_none [OF assms] by (cases "content q") auto

lemma run_calls_refines:
  assumes "inv q"
  shows "\<exists>q'. run_calls push pop cs q = (fst (run_calls (spec_push cap) spec_pop cs (content q)), q') \<and> inv q' \<and>
    content q' = snd (run_calls (spec_push cap) spec_pop cs (content q))"
  using assms
proof (induction cs arbitrary: q)
  case (Cons c cs)
  show ?case
  proof (cases c)
    case (Push v)
    from Cons.prems show ?thesis
    proof (cases rule: push_cases [where v = v])
      case (pushed q')
      with Cons.IH [OF pushed(3)] Push show ?thesis by (auto simp: spec_push_def split: prod.splits)
    next
      case full
      with Cons.IH [OF Cons.prems] Push show ?thesis by (auto simp: spec_push_def split: prod.splits)
    qed
  next
    case Pop
    from Cons.prems show ?thesis
    proof (cases rule: pop_cases)
      case (popped x q')
      with Cons.IH [OF popped(3)] Pop show ?thesis by (auto split: prod.splits)
    next
      case none
      with Cons.IH [OF Cons.prems] Pop show ?thesis by (auto split: prod.splits)
    qed
  qed
qed simp

end

end
