(* ===== verification/Spsc_Ring.thy ===== *)
theory Spsc_Ring
  imports Bounded_Fifo
begin

text \<open>
  \<^verbatim>\<open>src/concurrency/spsc_ring_buffer.hpp\<close>: the lock-free ring between one producer and one
  consumer thread. First the operations as they run undisturbed, then the two threads at the
  granularity of their loads and stores, with acquire loads that may return an old value.

  A slot holds \<open>Some v\<close> while an object is constructed in it and \<open>None\<close> while it is raw storage.
  Reading raw storage is undefined behaviour in C++; here it is the result \<open>None\<close> of an
  operation, or the \<open>fault\<close> flag of the threads.
\<close>

unbundle bit_operations_syntax

section \<open>The operations\<close>

record 'a ring =
  rg_slots :: "'a option list"
  rg_head :: u64
  rg_tail :: u64

definition new_ring :: "nat \<Rightarrow> 'a ring" where
  "new_ring cap = \<lparr>rg_slots = replicate cap None, rg_head = 0, rg_tail = 0\<rparr>"

definition usable_capacity :: "nat \<Rightarrow> nat" where
  "usable_capacity cap = cap - 1"

definition ring_mask :: "nat \<Rightarrow> u64" where
  "ring_mask cap = of_nat cap - 1"

definition increment :: "nat \<Rightarrow> u64 \<Rightarrow> u64" where
  "increment cap i = (i + 1) AND ring_mask cap"

definition slot_index :: "nat \<Rightarrow> u64 \<Rightarrow> nat" where
  "slot_index cap i = unat (i AND ring_mask cap)"

abbreviation ring_cap :: "'a ring \<Rightarrow> nat" where
  "ring_cap r \<equiv> length (rg_slots r)"

definition ring_empty :: "'a ring \<Rightarrow> bool" where
  "ring_empty r \<longleftrightarrow> rg_tail r = rg_head r"

definition ring_full :: "'a ring \<Rightarrow> bool" where
  "ring_full r \<longleftrightarrow> increment (ring_cap r) (rg_head r) = rg_tail r"

definition ring_size_approx :: "'a ring \<Rightarrow> u64" where
  "ring_size_approx r = (rg_head r - rg_tail r) AND ring_mask (ring_cap r)"

definition try_emplace :: "'a \<Rightarrow> 'a ring \<Rightarrow> bool \<times> 'a ring" where
  "try_emplace v r =
     (let head = rg_head r; next = increment (ring_cap r) head
      in if next = rg_tail r then (False, r)
         else (True, r\<lparr>rg_slots := (rg_slots r)[slot_index (ring_cap r) head := Some v], rg_head := next\<rparr>))"

definition try_push :: "'a \<Rightarrow> 'a ring \<Rightarrow> bool \<times> 'a ring" where
  "try_push v r = try_emplace v r"

text \<open>\<open>bool try_pop(T& out)\<close>; the value of \<open>out\<close> before the call is an argument.\<close>

definition try_pop_into :: "'a \<Rightarrow> 'a ring \<Rightarrow> (bool \<times> 'a \<times> 'a ring) option" where
  "try_pop_into out r =
     (let tail = rg_tail r
      in if tail = rg_head r then Some (False, out, r)
         else case rg_slots r ! slot_index (ring_cap r) tail of
                None \<Rightarrow> None
              | Some v \<Rightarrow> Some (True, v, r\<lparr>rg_slots := (rg_slots r)[slot_index (ring_cap r) tail := None],
                                          rg_tail := increment (ring_cap r) tail\<rparr>))"

text \<open>\<open>std::optional<T> try_pop()\<close>\<close>

definition try_pop :: "'a ring \<Rightarrow> ('a option \<times> 'a ring) option" where
  "try_pop r =
     (let tail = rg_tail r
      in if tail = rg_head r then Some (None, r)
         else case rg_slots r ! slot_index (ring_cap r) tail of
                None \<Rightarrow> None
              | Some v \<Rightarrow> Some (Some v, r\<lparr>rg_slots := (rg_slots r)[slot_index (ring_cap r) tail := None],
                                         rg_tail := increment (ring_cap r) tail\<rparr>))"

text \<open>The loop of the destructor, which ends only if the tail reaches the head.\<close>

partial_function (option) destroy_loop :: "'a option list \<Rightarrow> u64 \<Rightarrow> u64 \<Rightarrow> ('a option list) option" where
  "destroy_loop slots tail head =
     (if tail = head then Some slots
      else case slots ! slot_index (length slots) tail of
             None \<Rightarrow> None
           | Some v \<Rightarrow> destroy_loop (slots[slot_index (length slots) tail := None]) (increment (length slots) tail) head)"

definition destroy_remaining :: "'a ring \<Rightarrow> ('a option list) option" where
  "destroy_remaining r = destroy_loop (rg_slots r) (rg_tail r) (rg_head r)"

section \<open>Index arithmetic\<close>

text \<open>The static assertions: a power of two, at least two. An array has less than \<open>2 ^ 64\<close> slots.\<close>

definition cap_ok :: "nat \<Rightarrow> bool" where
  "cap_ok cap \<longleftrightarrow> (\<exists>k. 0 < k \<and> k < 64 \<and> cap = 2 ^ k)"

definition wpos :: "nat \<Rightarrow> nat \<Rightarrow> u64" where
  "wpos cap n = of_nat (n mod cap)"

lemma cap_ok_less: "cap_ok cap \<Longrightarrow> 2 \<le> cap \<and> cap < 2 ^ 64"
proof -
  assume "cap_ok cap"
  then obtain k where k: "0 < k" "k < 64" "cap = 2 ^ k" by (auto simp: cap_ok_def)
  have "(2::nat) ^ 1 \<le> 2 ^ k" using k(1) by (intro power_increasing) simp_all
  moreover have "(2::nat) ^ k < 2 ^ 64" using k(2) by (intro power_strict_increasing) simp_all
  ultimately show ?thesis using k(3) by simp
qed

lemma take_bit_word_nat: "take_bit k (of_nat m :: u64) = of_nat (m mod 2 ^ k)"
  unfolding take_bit_of_nat take_bit_nat_def ..

lemma and_ring_mask:
  assumes "cap_ok cap"
  shows "(of_nat n :: u64) AND ring_mask cap = wpos cap n"
proof -
  obtain k where k: "cap = 2 ^ k" using assms by (auto simp: cap_ok_def)
  have "ring_mask cap = mask k" by (simp add: ring_mask_def k mask_eq_exp_minus_1)
  then show ?thesis
    unfolding wpos_def k by (simp only: take_bit_eq_mask [symmetric] take_bit_word_nat)
qed

lemma unat_wpos: "cap_ok cap \<Longrightarrow> unat (wpos cap n) = n mod cap"
proof -
  assume c: "cap_ok cap"
  have "n mod cap < 2 ^ 64" using cap_ok_less [OF c] by (meson less_trans mod_less_divisor zero_less_numeral order_less_le_trans)
  then show ?thesis by (simp add: wpos_def unat_of_nat)
qed

lemma wpos_eq_iff: "cap_ok cap \<Longrightarrow> wpos cap m = wpos cap n \<longleftrightarrow> m mod cap = n mod cap"
  using unat_wpos by (metis wpos_def)

lemma increment_wpos: "cap_ok cap \<Longrightarrow> increment cap (wpos cap n) = wpos cap (Suc n)"
  using and_ring_mask [of cap "n mod cap + 1"]
  by (simp add: increment_def wpos_def add.commute mod_Suc_eq)

lemma slot_index_wpos: "cap_ok cap \<Longrightarrow> slot_index cap (wpos cap n) = n mod cap"
  using and_ring_mask [of cap "n mod cap"] unat_wpos [of cap "n mod cap"] by (simp add: slot_index_def wpos_def)

lemma size_wpos:
  assumes "cap_ok cap" and "c \<le> p" and "p - c < cap"
  shows "(wpos cap p - wpos cap c) AND ring_mask cap = of_nat (p - c)"
proof -
  obtain k where k: "cap = 2 ^ k" "k < 64" using assms(1) by (auto simp: cap_ok_def)
  have lt: "c mod cap < cap" "c mod cap \<le> 2 ^ 64" using cap_ok_less [OF assms(1)] mod_less_divisor [of cap c] by linarith+
  obtain q where q: "(2::nat) ^ 64 = cap * q"
    using k by (metis le_add_diff_inverse less_imp_le power_add)
  have z: "(of_nat (2 ^ 64) :: u64) = 0" by simp
  have "wpos cap p - wpos cap c = of_nat (p mod cap) + (of_nat (2 ^ 64) - of_nat (c mod cap))"
    unfolding z by (simp add: wpos_def)
  also have "\<dots> = of_nat (p mod cap + (2 ^ 64 - c mod cap))"
    using lt(2) by (simp only: of_nat_diff of_nat_add)
  finally have "(wpos cap p - wpos cap c) AND ring_mask cap = wpos cap (p mod cap + (2 ^ 64 - c mod cap))"
    by (simp only: and_ring_mask [OF assms(1)])
  moreover have "(p mod cap + (2 ^ 64 - c mod cap)) mod cap = (p - c) mod cap"
  proof -
    have "(p mod cap + (2 ^ 64 - c mod cap)) mod cap = (p + (2 ^ 64 - c mod cap)) mod cap" by (simp only: mod_simps)
    also have "p + (2 ^ 64 - c mod cap) = (p - c) + cap * (c div cap) + cap * q"
      using assms(2) lt(2) q mult_div_mod_eq [of cap c] by linarith
    also have "\<dots> mod cap = (p - c) mod cap" by simp
    finally show ?thesis .
  qed
  ultimately show ?thesis using assms(3) by (simp add: wpos_def)
qed

section \<open>What the slots hold\<close>

text \<open>From position \<open>c\<close> on, the slots hold the list \<open>xs\<close> and nothing else.\<close>

definition holds :: "'a option list \<Rightarrow> nat \<Rightarrow> 'a list \<Rightarrow> bool" where
  "holds slots c xs \<longleftrightarrow> length xs \<le> length slots \<and>
     (\<forall>i < length xs. slots ! ((c + i) mod length slots) = Some (xs ! i)) \<and>
     (\<forall>j < length slots. (\<forall>i < length xs. (c + i) mod length slots \<noteq> j) \<longrightarrow> slots ! j = None)"

lemma mod_shift_inj:
  fixes n :: nat
  assumes "i < n" and "j < n" and "(c + i) mod n = (c + j) mod n"
  shows "i = j"
  using assms
proof (induction i j rule: linorder_wlog)
  case (le i j)
  then have "n dvd (c + j) - (c + i)" by (subst mod_eq_dvd_iff_nat [symmetric]) simp_all
  then have "n dvd j - i" by simp
  with le show ?case using nat_dvd_not_less [of "j - i" n] by fastforce
qed simp

lemma holds_new: "holds (replicate cap None) c []"
  by (simp add: holds_def)

lemma holds_push:
  assumes "holds slots c xs" and "length xs < length slots"
  shows "slots ! ((c + length xs) mod length slots) = None"
    and "holds (slots[(c + length xs) mod length slots := Some v]) c (xs @ [v])"
proof -
  let ?n = "length slots" and ?j = "(c + length xs) mod length slots"
  have n: "?j < ?n" using assms(2) by (intro mod_less_divisor) linarith
  have ne: "(c + i) mod ?n \<noteq> ?j" if "i < length xs" for i
    using mod_shift_inj [of i ?n "length xs" c] that assms(2) by fastforce
  then show "slots ! ?j = None" using assms(1) n by (simp add: holds_def)
  show "holds (slots[?j := Some v]) c (xs @ [v])"
    using assms n ne by (auto simp: holds_def nth_list_update nth_append less_Suc_eq)
qed

lemma holds_pop:
  assumes "holds slots c (x # xs)"
  shows "slots ! (c mod length slots) = Some x" and "holds (slots[c mod length slots := None]) (Suc c) xs"
proof -
  let ?n = "length slots" and ?j = "c mod length slots"
  have len: "Suc (length xs) \<le> ?n" using assms by (simp add: holds_def)
  have at: "slots ! ((c + i) mod ?n) = Some ((x # xs) ! i)" if "i < Suc (length xs)" for i
    using assms that by (simp add: holds_def)
  show "slots ! ?j = Some x" using at [of 0] by simp
  have ne: "(c + Suc i) mod ?n \<noteq> ?j" if "i < length xs" for i
    using mod_shift_inj [of "Suc i" ?n 0 c] that len by fastforce
  have n: "?j < ?n" using len by (intro mod_less_divisor) linarith
  have "slots[?j := None] ! ((Suc c + i) mod ?n) = Some (xs ! i)" if "i < length xs" for i
    using ne [OF that] at [of "Suc i"] that by (simp add: nth_list_update)
  moreover have "slots[?j := None] ! j = None"
    if "j < ?n" "\<forall>i < length xs. (Suc c + i) mod ?n \<noteq> j" for j
  proof (cases "j = ?j")
    case False
    have "(c + i) mod ?n \<noteq> j" if "i < Suc (length xs)" for i
      using that False \<open>\<forall>i < length xs. (Suc c + i) mod ?n \<noteq> j\<close> by (cases i) auto
    then show ?thesis using assms that(1) False by (simp add: holds_def)
  qed (use n in simp)
  ultimately show "holds (slots[?j := None]) (Suc c) xs" using len by (simp add: holds_def)
qed

section \<open>The operations refine a bounded FIFO queue\<close>

text \<open>\<open>c\<close> objects have been popped so far, and the queue holds \<open>xs\<close>.\<close>

definition ring_rep :: "nat \<Rightarrow> 'a list \<Rightarrow> 'a ring \<Rightarrow> bool" where
  "ring_rep c xs r \<longleftrightarrow> cap_ok (ring_cap r) \<and> length xs < ring_cap r \<and> holds (rg_slots r) c xs \<and>
     rg_head r = wpos (ring_cap r) (c + length xs) \<and> rg_tail r = wpos (ring_cap r) c"

definition ring_inv :: "nat \<Rightarrow> 'a ring \<Rightarrow> bool" where
  "ring_inv cap r \<longleftrightarrow> ring_cap r = cap \<and> (\<exists>c xs. ring_rep c xs r)"

definition ring_list :: "'a ring \<Rightarrow> 'a list" where
  "ring_list r = map (\<lambda>i. the (rg_slots r ! ((unat (rg_tail r) + i) mod ring_cap r))) [0..<unat (ring_size_approx r)]"

lemma ring_size_rep: "ring_rep c xs r \<Longrightarrow> ring_size_approx r = of_nat (length xs)"
  using size_wpos [of "ring_cap r" c "c + length xs"] by (simp add: ring_rep_def ring_size_approx_def)

lemma ring_rep_size: "ring_rep c xs r \<Longrightarrow> unat (ring_size_approx r) = length xs"
proof -
  assume r: "ring_rep c xs r"
  then have "length xs < 2 ^ 64" using cap_ok_less [of "ring_cap r"] by (simp add: ring_rep_def)
  then show ?thesis by (simp add: ring_size_rep [OF r] unat_of_nat)
qed

lemma ring_rep_list: "ring_rep c xs r \<Longrightarrow> ring_list r = xs"
proof -
  assume r: "ring_rep c xs r"
  have "ring_list r = map (\<lambda>i. xs ! i) [0..<length xs]"
    unfolding ring_list_def ring_rep_size [OF r]
    using r by (intro map_cong refl) (auto simp: ring_rep_def unat_wpos mod_simps holds_def)
  then show ?thesis by (simp add: map_nth)
qed

lemma ring_full_rep:
  assumes "ring_rep c xs r"
  shows "increment (ring_cap r) (rg_head r) = rg_tail r \<longleftrightarrow> Suc (length xs) = ring_cap r"
proof -
  have c: "cap_ok (ring_cap r)" "length xs < ring_cap r" using assms by (simp_all add: ring_rep_def)
  have "increment (ring_cap r) (rg_head r) = rg_tail r \<longleftrightarrow> (c + Suc (length xs)) mod ring_cap r = (c + 0) mod ring_cap r"
    using assms c(1) by (simp add: ring_rep_def increment_wpos wpos_eq_iff)
  also have "\<dots> \<longleftrightarrow> Suc (length xs) = ring_cap r"
  proof (cases "Suc (length xs) = ring_cap r")
    case False
    then have "Suc (length xs) < ring_cap r" "0 < ring_cap r" using c(2) by linarith+
    then show ?thesis using mod_shift_inj [of "Suc (length xs)" "ring_cap r" 0 c] by auto
  qed simp
  finally show ?thesis .
qed

lemma ring_empty_rep:
  assumes "ring_rep c xs r"
  shows "rg_tail r = rg_head r \<longleftrightarrow> xs = []"
proof -
  have lt: "length xs < ring_cap r" "0 < ring_cap r" using assms by (auto simp: ring_rep_def)
  have "rg_tail r = rg_head r \<longleftrightarrow> (c + 0) mod ring_cap r = (c + length xs) mod ring_cap r"
    using assms by (simp add: ring_rep_def wpos_eq_iff)
  also have "\<dots> \<longleftrightarrow> xs = []" using mod_shift_inj [OF lt(2,1), of c] by auto
  finally show ?thesis .
qed

lemma try_emplace_rep:
  assumes "ring_rep c xs r"
  shows "if Suc (length xs) = ring_cap r then try_emplace v r = (False, r)
    else \<exists>r'. try_emplace v r = (True, r') \<and> ring_rep c (xs @ [v]) r' \<and> ring_cap r' = ring_cap r"
proof (cases "Suc (length xs) = ring_cap r")
  case True
  then show ?thesis using ring_full_rep [OF assms] by (simp add: try_emplace_def)
next
  case False
  with assms holds_push(2) [of "rg_slots r" c xs v] ring_full_rep [OF assms] show ?thesis
    by (simp add: try_emplace_def ring_rep_def increment_wpos slot_index_wpos)
qed

lemma try_pop_rep:
  assumes "ring_rep c xs r"
  shows "case xs of [] \<Rightarrow> try_pop r = Some (None, r)
    | x # ys \<Rightarrow> \<exists>r'. try_pop r = Some (Some x, r') \<and> ring_rep (Suc c) ys r' \<and> ring_cap r' = ring_cap r"
proof (cases xs)
  case Nil
  then show ?thesis using ring_empty_rep [OF assms] by (simp add: try_pop_def)
next
  case (Cons x ys)
  with assms holds_pop [of "rg_slots r" c x ys] ring_empty_rep [OF assms] show ?thesis
    by (simp add: try_pop_def ring_rep_def increment_wpos slot_index_wpos)
qed

lemma try_pop_into_eq: "try_pop_into out r = map_option (\<lambda>(x, r'). (x \<noteq> None, case x of None \<Rightarrow> out | Some v \<Rightarrow> v, r')) (try_pop r)"
  by (simp add: try_pop_into_def try_pop_def Let_def split: option.splits)

definition ring_pop :: "'a ring \<Rightarrow> 'a option \<times> 'a ring" where
  "ring_pop r = (case try_pop r of None \<Rightarrow> (None, r) | Some res \<Rightarrow> res)"

interpretation spsc: bounded_fifo "ring_inv cap" ring_list "usable_capacity cap" try_push ring_pop for cap
proof
  fix r :: "'a ring" and v x :: 'a and xs
  assume "ring_inv cap r"
  then obtain c ys where r: "ring_rep c ys r" and cap: "ring_cap r = cap" by (auto simp: ring_inv_def)
  then have le: "length ys < cap" by (simp add: ring_rep_def)
  note l = ring_rep_list [OF r]
  show "length (ring_list r) \<le> usable_capacity cap" using le by (simp add: l usable_capacity_def)
  show "\<exists>r'. try_push v r = (True, r') \<and> ring_inv cap r' \<and> ring_list r' = ring_list r @ [v]"
    if "length (ring_list r) < usable_capacity cap"
  proof -
    have "Suc (length ys) \<noteq> ring_cap r" using that by (simp add: l usable_capacity_def cap)
    then obtain r' where "try_emplace v r = (True, r')" "ring_rep c (ys @ [v]) r'" "ring_cap r' = ring_cap r"
      using try_emplace_rep [OF r, of v] by auto
    then show ?thesis using ring_rep_list [of c "ys @ [v]" r'] cap by (auto simp: l try_push_def ring_inv_def)
  qed
  show "try_push v r = (False, r)" if "length (ring_list r) = usable_capacity cap"
    using try_emplace_rep [OF r, of v] that le by (simp add: l usable_capacity_def try_push_def cap)
  show "\<exists>r'. ring_pop r = (Some x, r') \<and> ring_inv cap r' \<and> ring_list r' = xs" if "ring_list r = x # xs"
    using try_pop_rep [OF r] that ring_rep_list cap by (fastforce simp: l ring_pop_def ring_inv_def)
  show "ring_pop r = (None, r)" if "ring_list r = []"
    using try_pop_rep [OF r] that by (simp add: l ring_pop_def)
qed

lemma new_ring_rep: "cap_ok cap \<Longrightarrow> ring_rep 0 [] (new_ring cap)"
  using cap_ok_less [of cap] by (simp add: ring_rep_def new_ring_def holds_new wpos_def)

text \<open>The destructor ends and destroys exactly what is left.\<close>

lemma destroy_loop_rep:
  assumes "cap_ok (length slots)" and "length xs < length slots" and "holds slots c xs"
  shows "destroy_loop slots (wpos (length slots) c) (wpos (length slots) (c + length xs)) = Some (replicate (length slots) None)"
  using assms
proof (induction xs arbitrary: slots c)
  case Nil
  have "replicate (length slots) None = slots"
    by (rule nth_equalityI) (use Nil in \<open>simp_all add: holds_def\<close>)
  then show ?case by (simp add: destroy_loop.simps [of slots])
next
  case (Cons x xs)
  let ?n = "length slots"
  have "0 < ?n" using Cons.prems(2) by linarith
  then have "(c + 0) mod ?n \<noteq> (c + length (x # xs)) mod ?n"
    using mod_shift_inj [of 0 ?n "length (x # xs)" c] Cons.prems(2) by auto
  then have ne: "wpos ?n c \<noteq> wpos ?n (c + length (x # xs))" using Cons.prems(1) by (simp add: wpos_eq_iff)
  note pop = holds_pop [OF Cons.prems(3)]
  have "destroy_loop (slots[c mod ?n := None]) (wpos ?n (Suc c)) (wpos ?n (c + length (x # xs))) = Some (replicate ?n None)"
    using Cons.IH [of "slots[c mod ?n := None]" "Suc c"] Cons.prems pop by simp
  with ne pop(1) Cons.prems(1) show ?case
    by (subst destroy_loop.simps) (simp add: slot_index_wpos increment_wpos)
qed

lemma destroy_remaining_rep: "ring_rep c xs r \<Longrightarrow> destroy_remaining r = Some (replicate (ring_cap r) None)"
  using destroy_loop_rep [of "rg_slots r" xs c] by (simp add: ring_rep_def destroy_remaining_def)

section \<open>Two threads\<close>

text \<open>
  The producer and the consumer, one atomic action per step. The indices have a history,
  the modification order of the two atomics; each thread reads its own index exactly and
  the index of the other by an acquire load, which may return any value of the history that
  is not older than the last one it has read. Objects are constructed and destroyed in the
  shared slots. The flag \<open>sp_fault\<close> is raised if an object is constructed over another one
  or raw storage is read.
\<close>

datatype 'a producer = PIdle | PLoaded 'a u64 | PChecked 'a u64 | PBuilt 'a u64

datatype 'a consumer = CIdle | CLoaded u64 | CChecked u64 | CTaken 'a u64

datatype 'a action = Silent | PushFull 'a | PushDone 'a | PopEmpty | PopDone 'a

record 'a spsc =
  sp_slots :: "'a option list"
  sp_heads :: "u64 list"
  sp_tails :: "u64 list"
  sp_seen_tail :: nat
  sp_seen_head :: nat
  sp_prod :: "'a producer"
  sp_cons :: "'a consumer"
  sp_fault :: bool

definition new_spsc :: "nat \<Rightarrow> 'a spsc" where
  "new_spsc cap = \<lparr>sp_slots = replicate cap None, sp_heads = [0], sp_tails = [0], sp_seen_tail = 0,
     sp_seen_head = 0, sp_prod = PIdle, sp_cons = CIdle, sp_fault = False\<rparr>"

text \<open>One step of \<open>try_emplace\<close>; an acquire load reads the entry \<open>k\<close> of the history of the tail.\<close>

definition producer_step :: "'a \<Rightarrow> nat \<Rightarrow> 'a spsc \<Rightarrow> 'a action \<times> 'a spsc" where
  "producer_step value k s =
     (let cap = length (sp_slots s) in
      case sp_prod s of
        PIdle \<Rightarrow> (Silent, s\<lparr>sp_prod := PLoaded value (last (sp_heads s))\<rparr>)
      | PLoaded v head \<Rightarrow>
          let s1 = s\<lparr>sp_seen_tail := k\<rparr>
          in if increment cap head = sp_tails s ! k then (PushFull v, s1\<lparr>sp_prod := PIdle\<rparr>)
             else (Silent, s1\<lparr>sp_prod := PChecked v head\<rparr>)
      | PChecked v head \<Rightarrow>
          let j = slot_index cap head
          in (Silent, s\<lparr>sp_slots := (sp_slots s)[j := Some v], sp_prod := PBuilt v head,
                        sp_fault := sp_fault s \<or> sp_slots s ! j \<noteq> None\<rparr>)
      | PBuilt v head \<Rightarrow> (PushDone v, s\<lparr>sp_heads := sp_heads s @ [increment cap head], sp_prod := PIdle\<rparr>))"

text \<open>One step of \<open>try_pop\<close>.\<close>

definition consumer_step :: "nat \<Rightarrow> 'a spsc \<Rightarrow> 'a action \<times> 'a spsc" where
  "consumer_step k s =
     (let cap = length (sp_slots s) in
      case sp_cons s of
        CIdle \<Rightarrow> (Silent, s\<lparr>sp_cons := CLoaded (last (sp_tails s))\<rparr>)
      | CLoaded tail \<Rightarrow>
          let s1 = s\<lparr>sp_seen_head := k\<rparr>
          in if tail = sp_heads s ! k then (PopEmpty, s1\<lparr>sp_cons := CIdle\<rparr>)
             else (Silent, s1\<lparr>sp_cons := CChecked tail\<rparr>)
      | CChecked tail \<Rightarrow>
          let j = slot_index cap tail
          in (case sp_slots s ! j of
                None \<Rightarrow> (Silent, s\<lparr>sp_fault := True, sp_cons := CIdle\<rparr>)
              | Some v \<Rightarrow> (Silent, s\<lparr>sp_slots := (sp_slots s)[j := None], sp_cons := CTaken v tail\<rparr>))
      | CTaken v tail \<Rightarrow> (PopDone v, s\<lparr>sp_tails := sp_tails s @ [increment cap tail], sp_cons := CIdle\<rparr>))"

inductive ring_step :: "'a spsc \<Rightarrow> 'a action \<Rightarrow> 'a spsc \<Rightarrow> bool" where
  producer: "sp_seen_tail s \<le> k \<Longrightarrow> k < length (sp_tails s) \<Longrightarrow> producer_step v k s = (a, s') \<Longrightarrow> ring_step s a s'"
| consumer: "sp_seen_head s \<le> k \<Longrightarrow> k < length (sp_heads s) \<Longrightarrow> consumer_step k s = (a, s') \<Longrightarrow> ring_step s a s'"

inductive ring_reach :: "nat \<Rightarrow> 'a action list \<Rightarrow> 'a spsc \<Rightarrow> bool" for cap where
  start: "ring_reach cap [] (new_spsc cap)"
| step: "ring_reach cap acts s \<Longrightarrow> ring_step s a s' \<Longrightarrow> ring_reach cap (acts @ [a]) s'"

definition pushed :: "'a action list \<Rightarrow> 'a list" where
  "pushed acts = concat (map (\<lambda>a. case a of PushDone v \<Rightarrow> [v] | _ \<Rightarrow> []) acts)"

definition popped :: "'a action list \<Rightarrow> 'a list" where
  "popped acts = concat (map (\<lambda>a. case a of PopDone v \<Rightarrow> [v] | _ \<Rightarrow> []) acts)"

lemma history_simps [simp]:
  "pushed [] = []" "popped [] = []"
  "pushed (acts @ [a]) = pushed acts @ (case a of PushDone v \<Rightarrow> [v] | _ \<Rightarrow> [])"
  "popped (acts @ [a]) = popped acts @ (case a of PopDone v \<Rightarrow> [v] | _ \<Rightarrow> [])"
  by (simp_all add: pushed_def popped_def)

section \<open>The invariant of the two threads\<close>

definition building :: "'a spsc \<Rightarrow> 'a list" where
  "building s = (case sp_prod s of PBuilt v h \<Rightarrow> [v] | _ \<Rightarrow> [])"

definition taking :: "'a spsc \<Rightarrow> 'a list" where
  "taking s = (case sp_cons s of CTaken v t \<Rightarrow> [v] | _ \<Rightarrow> [])"

definition producer_inv :: "nat \<Rightarrow> nat \<Rightarrow> 'a spsc \<Rightarrow> bool" where
  "producer_inv cap p s \<longleftrightarrow> p < sp_seen_tail s + cap \<and>
     (case sp_prod s of PIdle \<Rightarrow> True | PLoaded v h \<Rightarrow> h = wpos cap p
      | PChecked v h \<Rightarrow> h = wpos cap p \<and> Suc p < sp_seen_tail s + cap
      | PBuilt v h \<Rightarrow> h = wpos cap p \<and> Suc p < sp_seen_tail s + cap)"

definition consumer_inv :: "nat \<Rightarrow> nat \<Rightarrow> 'a spsc \<Rightarrow> bool" where
  "consumer_inv cap c s \<longleftrightarrow> c \<le> sp_seen_head s \<and>
     (case sp_cons s of CIdle \<Rightarrow> True | CLoaded t \<Rightarrow> t = wpos cap c
      | CChecked t \<Rightarrow> t = wpos cap c \<and> c < sp_seen_head s
      | CTaken v t \<Rightarrow> t = wpos cap c \<and> c < sp_seen_head s)"

definition spsc_inv :: "nat \<Rightarrow> 'a list \<Rightarrow> 'a list \<Rightarrow> 'a spsc \<Rightarrow> bool" where
  "spsc_inv cap ps cs s \<longleftrightarrow> cap_ok cap \<and> length (sp_slots s) = cap \<and>
     sp_heads s = map (wpos cap) [0..<Suc (length ps)] \<and> sp_tails s = map (wpos cap) [0..<Suc (length cs)] \<and>
     sp_seen_tail s \<le> length cs \<and> sp_seen_head s \<le> length ps \<and>
     producer_inv cap (length ps) s \<and> consumer_inv cap (length cs) s \<and>
     (\<exists>mid. cs @ taking s @ mid = ps @ building s \<and> holds (sp_slots s) (length cs + length (taking s)) mid) \<and>
     \<not> sp_fault s"

lemma thread_inv_frame [simp]:
  "producer_inv cap p (s\<lparr>sp_cons := x\<rparr>) = producer_inv cap p s"
  "producer_inv cap p (s\<lparr>sp_slots := sl\<rparr>) = producer_inv cap p s"
  "producer_inv cap p (s\<lparr>sp_tails := ws\<rparr>) = producer_inv cap p s"
  "producer_inv cap p (s\<lparr>sp_seen_head := k\<rparr>) = producer_inv cap p s"
  "consumer_inv cap c (s\<lparr>sp_prod := y\<rparr>) = consumer_inv cap c s"
  "consumer_inv cap c (s\<lparr>sp_slots := sl\<rparr>) = consumer_inv cap c s"
  "consumer_inv cap c (s\<lparr>sp_heads := ws\<rparr>) = consumer_inv cap c s"
  "consumer_inv cap c (s\<lparr>sp_seen_tail := k\<rparr>) = consumer_inv cap c s"
  "consumer_inv cap c (s\<lparr>sp_fault := b\<rparr>) = consumer_inv cap c s"
  by (cases "sp_prod s"; cases "sp_cons s"; simp add: producer_inv_def consumer_inv_def)+

lemma moving_frame [simp]:
  "building (s\<lparr>sp_cons := x\<rparr>) = building s" "building (s\<lparr>sp_slots := sl\<rparr>) = building s"
  "building (s\<lparr>sp_tails := ws\<rparr>) = building s" "building (s\<lparr>sp_seen_head := k\<rparr>) = building s"
  "taking (s\<lparr>sp_prod := y\<rparr>) = taking s" "taking (s\<lparr>sp_slots := sl\<rparr>) = taking s"
  "taking (s\<lparr>sp_heads := ws\<rparr>) = taking s" "taking (s\<lparr>sp_seen_tail := k\<rparr>) = taking s"
  "taking (s\<lparr>sp_fault := b\<rparr>) = taking s"
  by (simp_all add: building_def taking_def)

lemma spsc_inv_new: "cap_ok cap \<Longrightarrow> spsc_inv cap [] [] (new_spsc cap)"
  using cap_ok_less [of cap]
  by (simp add: spsc_inv_def new_spsc_def producer_inv_def consumer_inv_def building_def taking_def wpos_def holds_new)

lemma nth_history: "k < Suc n \<Longrightarrow> map (wpos cap) [0..<Suc n] ! k = wpos cap k"
  by (simp del: upt_Suc)

lemma last_history: "last (map (wpos cap) [0..<Suc n]) = wpos cap n"
  by (simp add: last_map)

text \<open>A check that the ring is not full, against an entry of the history, leaves room for one more.\<close>

lemma not_full_room:
  assumes "cap_ok cap" and "p < k + cap" and "k \<le> p" and "wpos cap (Suc p) \<noteq> wpos cap k"
  shows "Suc p < k + cap"
proof -
  have "Suc p mod cap \<noteq> k mod cap" using assms(1,4) by (simp add: wpos_eq_iff)
  then have "Suc p \<noteq> k + cap" by auto
  with assms(2) show ?thesis by simp
qed

lemma producer_keeps:
  assumes inv: "spsc_inv cap ps cs s" and k: "sp_seen_tail s \<le> k" "k < length (sp_tails s)"
    and st: "producer_step value k s = (a, s')"
  shows "spsc_inv cap (ps @ (case a of PushDone v \<Rightarrow> [v] | _ \<Rightarrow> [])) (cs @ (case a of PopDone v \<Rightarrow> [v] | _ \<Rightarrow> [])) s'"
proof -
  obtain mid where mid: "cs @ taking s @ mid = ps @ building s" "holds (sp_slots s) (length cs + length (taking s)) mid"
    using inv by (auto simp: spsc_inv_def)
  have I: "cap_ok cap" "length (sp_slots s) = cap" "sp_heads s = map (wpos cap) [0..<Suc (length ps)]"
    "sp_tails s = map (wpos cap) [0..<Suc (length cs)]" "sp_seen_head s \<le> length ps"
    "producer_inv cap (length ps) s" "consumer_inv cap (length cs) s" "\<not> sp_fault s"
    using inv by (simp_all add: spsc_inv_def)
  have kc: "k \<le> length cs" "length cs \<le> length ps" "sp_tails s ! k = wpos cap k"
    using k(2) I(4,5,7) nth_history [of k "length cs" cap] by (simp_all add: consumer_inv_def del: upt_Suc)
  show ?thesis
  proof (cases "sp_prod s")
    case PIdle
    with st I inv show ?thesis
      by (auto simp: producer_step_def Let_def spsc_inv_def producer_inv_def building_def last_history
          simp del: upt_Suc)
  next
    case (PLoaded v head)
    have h: "head = wpos cap (length ps)" "length ps < k + cap" using I(6) k(1) PLoaded by (simp_all add: producer_inv_def)
    have "Suc (length ps) < k + cap" if "increment cap head \<noteq> sp_tails s ! k"
      using not_full_room [OF I(1) h(2) order_trans [OF kc(1,2)]] that h(1) I(1) by (simp add: increment_wpos kc(3))
    with PLoaded st inv h kc k show ?thesis
      by (auto simp: producer_step_def Let_def spsc_inv_def producer_inv_def building_def
          simp del: upt_Suc split: if_splits)
  next
    case (PChecked v head)
    have h: "head = wpos cap (length ps)" "Suc (length ps) < sp_seen_tail s + cap" using I(6) PChecked by (simp_all add: producer_inv_def)
    have len: "length cs + length (taking s) + length mid = length ps"
      using arg_cong [OF mid(1), of length] PChecked by (simp add: building_def)
    have "length mid < length (sp_slots s)" using len h(2) kc k I(2) by simp
    note push = holds_push(1) [OF mid(2) this, unfolded len] holds_push(2) [OF mid(2) this, of v, unfolded len]
    have j: "slot_index cap head = length ps mod length (sp_slots s)" using h(1) I(1,2) by (simp add: slot_index_wpos)
    have "cs @ taking s @ (mid @ [v]) = ps @ [v]" using mid(1) PChecked by (simp add: building_def)
    with PChecked st inv h push I j show ?thesis
      by (auto simp: producer_step_def Let_def spsc_inv_def producer_inv_def building_def
          simp del: upt_Suc)
  next
    case (PBuilt v head)
    have h: "head = wpos cap (length ps)" "Suc (length ps) < sp_seen_tail s + cap" using I(6) PBuilt by (simp_all add: producer_inv_def)
    have "map (wpos cap) [0..<Suc (length ps)] @ [increment cap head] = map (wpos cap) [0..<Suc (Suc (length ps))]"
      using h(1) I(1) by (simp add: increment_wpos)
    with PBuilt st inv h show ?thesis
      by (auto simp: producer_step_def Let_def spsc_inv_def producer_inv_def building_def
          simp del: upt_Suc)
  qed
qed

lemma consumer_keeps:
  assumes inv: "spsc_inv cap ps cs s" and k: "sp_seen_head s \<le> k" "k < length (sp_heads s)"
    and st: "consumer_step k s = (a, s')"
  shows "spsc_inv cap (ps @ (case a of PushDone v \<Rightarrow> [v] | _ \<Rightarrow> [])) (cs @ (case a of PopDone v \<Rightarrow> [v] | _ \<Rightarrow> [])) s'"
proof -
  obtain mid where mid: "cs @ taking s @ mid = ps @ building s" "holds (sp_slots s) (length cs + length (taking s)) mid"
    using inv by (auto simp: spsc_inv_def)
  have I: "cap_ok cap" "length (sp_slots s) = cap" "sp_heads s = map (wpos cap) [0..<Suc (length ps)]"
    "sp_tails s = map (wpos cap) [0..<Suc (length cs)]" "sp_seen_head s \<le> length ps" "sp_seen_tail s \<le> length cs"
    "producer_inv cap (length ps) s" "consumer_inv cap (length cs) s" "\<not> sp_fault s"
    using inv by (simp_all add: spsc_inv_def)
  have kp: "k \<le> length ps" "sp_heads s ! k = wpos cap k" "length cs \<le> k"
    using k I(3,8) nth_history [of k "length ps" cap] by (simp_all add: consumer_inv_def del: upt_Suc)
  show ?thesis
  proof (cases "sp_cons s")
    case CIdle
    with st I inv show ?thesis
      by (auto simp: consumer_step_def Let_def spsc_inv_def consumer_inv_def taking_def last_history
          simp del: upt_Suc)
  next
    case (CLoaded tail)
    have t: "tail = wpos cap (length cs)" using I(8) CLoaded by (simp add: consumer_inv_def)
    have "length cs < k" if "tail \<noteq> sp_heads s ! k" using that t kp by (cases "k = length cs") auto
    with CLoaded st inv t kp k show ?thesis
      by (auto simp: consumer_step_def Let_def spsc_inv_def consumer_inv_def taking_def
          simp del: upt_Suc split: if_splits)
  next
    case (CChecked tail)
    have t: "tail = wpos cap (length cs)" "length cs < sp_seen_head s" using I(8) CChecked by (simp_all add: consumer_inv_def)
    have "length cs + length mid = length ps + length (building s)"
      using arg_cong [OF mid(1), of length] CChecked by (simp add: taking_def)
    then have "length cs < length ps" "mid \<noteq> []" using t(2) I(5) by auto
    then obtain x xs where x: "mid = x # xs" by (cases mid) auto
    have hl: "holds (sp_slots s) (length cs) (x # xs)" using mid(2) x CChecked by (simp add: taking_def)
    note pop = holds_pop [OF hl]
    have j: "slot_index cap tail = length cs mod length (sp_slots s)" using t(1) I(1,2) by (simp add: slot_index_wpos)
    have "cs @ [x] @ xs = ps @ building s" using mid(1) x CChecked by (simp add: taking_def)
    with CChecked st inv t pop I j show ?thesis
      by (auto simp: consumer_step_def Let_def spsc_inv_def consumer_inv_def taking_def
          simp del: upt_Suc)
  next
    case (CTaken v tail)
    have t: "tail = wpos cap (length cs)" "length cs < sp_seen_head s" using I(8) CTaken by (simp_all add: consumer_inv_def)
    have "map (wpos cap) [0..<Suc (length cs)] @ [increment cap tail] = map (wpos cap) [0..<Suc (Suc (length cs))]"
      using t(1) I(1) by (simp add: increment_wpos)
    with CTaken st inv t show ?thesis
      by (auto simp: consumer_step_def Let_def spsc_inv_def consumer_inv_def taking_def
          simp del: upt_Suc)
  qed
qed

lemma ring_reach_inv: "ring_reach cap acts s \<Longrightarrow> cap_ok cap \<Longrightarrow> spsc_inv cap (pushed acts) (popped acts) s"
proof (induction rule: ring_reach.induct)
  case start
  then show ?case by (simp add: spsc_inv_new)
next
  case (step acts s a s')
  from step(2) show ?case
  proof cases
    case (producer k v)
    with producer_keeps [OF step.IH [OF step.prems]] show ?thesis by simp
  next
    case (consumer k)
    with consumer_keeps [OF step.IH [OF step.prems]] show ?thesis by simp
  qed
qed

section \<open>An undisturbed thread\<close>

text \<open>A thread steps until it has completed a call.\<close>

fun until_loud :: "nat \<Rightarrow> ('s \<Rightarrow> 'a action \<times> 's) \<Rightarrow> 's \<Rightarrow> 'a action \<times> 's" where
  "until_loud 0 f s = (Silent, s)"
| "until_loud (Suc n) f s = (case f s of (a, s') \<Rightarrow> if a = Silent then until_loud n f s' else (a, s'))"

definition fresh_push :: "'a \<Rightarrow> 'a spsc \<Rightarrow> 'a action \<times> 'a spsc" where
  "fresh_push v s = until_loud 4 (\<lambda>s. producer_step v (length (sp_tails s) - 1) s) s"

definition fresh_pop :: "'a spsc \<Rightarrow> 'a action \<times> 'a spsc" where
  "fresh_pop s = until_loud 4 (\<lambda>s. consumer_step (length (sp_heads s) - 1) s) s"

definition quiet :: "'a ring \<Rightarrow> 'a spsc \<Rightarrow> bool" where
  "quiet r s \<longleftrightarrow> sp_slots s = rg_slots r \<and> sp_heads s \<noteq> [] \<and> sp_tails s \<noteq> [] \<and> last (sp_heads s) = rg_head r \<and>
     last (sp_tails s) = rg_tail r \<and> sp_prod s = PIdle \<and> sp_cons s = CIdle"

lemmas fuel_4 = eval_nat_numeral

lemma latest: "xs \<noteq> [] \<Longrightarrow> xs ! (length xs - Suc 0) = last xs"
  by (simp add: last_conv_nth)

lemma fresh_push_quiet:
  assumes "quiet r s"
  shows "case try_push v r of (ok, r') \<Rightarrow> \<exists>s'. fresh_push v s = (if ok then PushDone v else PushFull v, s') \<and> quiet r' s'"
  using assms latest [of "sp_tails s"]
  by (simp add: fresh_push_def fuel_4 producer_step_def try_push_def try_emplace_def quiet_def Let_def)

lemma fresh_pop_quiet:
  assumes "quiet r s"
  shows "case try_pop r of None \<Rightarrow> sp_fault (snd (fresh_pop s))
    | Some (x, r') \<Rightarrow> \<exists>s'. fresh_pop s = (case x of None \<Rightarrow> PopEmpty | Some v \<Rightarrow> PopDone v, s') \<and> quiet r' s'"
  using assms latest [of "sp_heads s"]
  by (auto simp: fresh_pop_def fuel_4 consumer_step_def try_pop_def quiet_def Let_def split: option.splits)

section \<open>Properties\<close>

text \<open>
  C15: the ring buffer is a bounded FIFO queue. Whatever calls are made on a fresh ring of a
  power-of-two capacity, every answer is that of a list with room for one less than the
  capacity; afterwards \<open>size_approx\<close>, \<open>empty\<close> and \<open>full\<close> tell the length of that list, and the
  destructor destroys every object left and ends.
\<close>

theorem ring_refines_fifo:
  assumes "cap_ok cap"
  shows "\<exists>r. run_calls try_push ring_pop calls (new_ring cap) =
      (fst (run_calls (spec_push (cap - 1)) spec_pop calls []), r) \<and>
    (let xs = snd (run_calls (spec_push (cap - 1)) spec_pop calls []) in
     ring_list r = xs \<and> unat (ring_size_approx r) = length xs \<and> (ring_empty r \<longleftrightarrow> xs = []) \<and>
     (ring_full r \<longleftrightarrow> length xs = cap - 1) \<and> destroy_remaining r = Some (replicate cap None))"
proof -
  have new: "ring_inv cap (new_ring cap)" "ring_list (new_ring cap) = []"
    using new_ring_rep [OF assms] ring_rep_list by (auto simp: ring_inv_def new_ring_def)
  obtain r where r: "run_calls try_push ring_pop calls (new_ring cap) =
      (fst (run_calls (spec_push (cap - 1)) spec_pop calls []), r)" "ring_inv cap r"
      "ring_list r = snd (run_calls (spec_push (cap - 1)) spec_pop calls [])"
    using spsc.run_calls_refines [OF new(1), of calls] unfolding new(2) usable_capacity_def by blast
  obtain c xs where rep: "ring_rep c xs r" "ring_cap r = cap" using r(2) by (auto simp: ring_inv_def)
  have "xs = snd (run_calls (spec_push (cap - 1)) spec_pop calls [])" using ring_rep_list [OF rep(1)] r(3) by simp
  moreover have "ring_full r \<longleftrightarrow> length xs = cap - 1"
    using ring_full_rep [OF rep(1)] cap_ok_less [OF assms] rep(2) by (auto simp: ring_full_def)
  ultimately show ?thesis
    using r(1,3) ring_rep_size [OF rep(1)] ring_empty_rep [OF rep(1)] destroy_remaining_rep [OF rep(1)] rep(2)
    by (intro exI [of _ r]) (simp add: ring_empty_def Let_def)
qed

lemma cap_ok_2: "cap_ok 2"
  by (auto simp: cap_ok_def intro: exI [of _ 1])

theorem ring_refines_fifo_witness:
  "fst (run_calls try_push ring_pop [Push 7, Push 8, Pop, Pop] (new_ring 2)) =
     [Pushed True, Pushed False, Popped (Some (7::nat)), Popped None]"
  using ring_refines_fifo [OF cap_ok_2, of "[Push (7::nat), Push 8, Pop, Pop]"] by (auto simp: spec_push_def Let_def simp del: split_paired_Ex)

text \<open>
  C14: the two threads never fault, lose, duplicate or reorder anything. In every state that
  the producer and the consumer can reach, step by step, with arbitrarily stale acquire
  loads, no object was constructed over another and no raw storage was read; what was popped
  is a prefix of what was pushed and at most one less than the capacity is in between; the
  two never hold the same slot at the same time, the slot the producer is about to write is
  free and its previous object was released by a store the producer has read, and the
  object the consumer is about to take was published by a store the consumer has read.
\<close>

theorem spsc_threads_safe:
  assumes "ring_reach cap acts s" and "cap_ok cap"
  shows "\<not> sp_fault s \<and> popped acts = take (length (popped acts)) (pushed acts) \<and>
    length (pushed acts) \<le> length (popped acts) + (cap - 1) \<and>
    (\<forall>v h t. sp_prod s = PChecked v h \<and> sp_cons s = CChecked t \<longrightarrow> slot_index cap h \<noteq> slot_index cap t) \<and>
    (\<forall>v h. sp_prod s = PChecked v h \<longrightarrow> sp_slots s ! slot_index cap h = None \<and> length (pushed acts) + 1 < sp_seen_tail s + cap) \<and>
    (\<forall>t. sp_cons s = CChecked t \<longrightarrow> sp_slots s ! slot_index cap t \<noteq> None \<and> length (popped acts) < sp_seen_head s)"
proof -
  let ?p = "length (pushed acts)" and ?c = "length (popped acts)"
  note inv = ring_reach_inv [OF assms]
  obtain mid where mid: "popped acts @ taking s @ mid = pushed acts @ building s" "holds (sp_slots s) (?c + length (taking s)) mid"
    using inv by (auto simp: spsc_inv_def)
  have I: "length (sp_slots s) = cap" "sp_seen_tail s \<le> ?c" "sp_seen_head s \<le> ?p" "producer_inv cap ?p s" "consumer_inv cap ?c s" "\<not> sp_fault s"
    using inv by (simp_all add: spsc_inv_def)
  have cp: "?c \<le> ?p" "?p < ?c + cap" using I by (simp_all add: consumer_inv_def producer_inv_def)
  have "popped acts = take ?c (pushed acts)"
    using arg_cong [OF mid(1), of "take ?c"] cp(1) by simp
  moreover have prod: "h = wpos cap ?p \<and> ?p + 1 < sp_seen_tail s + cap \<and> sp_slots s ! slot_index cap h = None" if "sp_prod s = PChecked v h" for v h
  proof -
    have h: "h = wpos cap ?p" "?p + 1 < sp_seen_tail s + cap" using I(4) that by (simp_all add: producer_inv_def)
    have len: "?c + length (taking s) + length mid = ?p"
      using arg_cong [OF mid(1), of length] that by (simp add: building_def)
    then have "length mid < length (sp_slots s)" using h(2) I(1,2) by linarith
    from holds_push(1) [OF mid(2) this] h len I(1) assms(2) show ?thesis by (simp add: slot_index_wpos)
  qed
  moreover have cons: "t = wpos cap ?c \<and> ?c < sp_seen_head s \<and> sp_slots s ! slot_index cap t \<noteq> None" if "sp_cons s = CChecked t" for t
  proof -
    have t: "t = wpos cap ?c" "?c < sp_seen_head s" using I(5) that by (simp_all add: consumer_inv_def)
    have "?c + length mid = ?p + length (building s)"
      using arg_cong [OF mid(1), of length] that by (simp add: taking_def)
    then obtain x xs where "mid = x # xs" using t(2) I(3) by (cases mid) auto
    with holds_pop(1) [of "sp_slots s" ?c x xs] mid(2) that t I(1) assms(2) show ?thesis
      by (simp add: taking_def slot_index_wpos)
  qed
  moreover have "slot_index cap h \<noteq> slot_index cap t" if "sp_prod s = PChecked v h" "sp_cons s = CChecked t" for v h t
    using prod [OF that(1)] cons [OF that(2)] by metis
  ultimately show ?thesis using I(6) cp(2) by (intro conjI allI impI) auto
qed

theorem spsc_threads_safe_witness:
  "\<exists>s. ring_reach 4 [Silent, Silent, Silent, PushDone (7::nat)] s \<and> \<not> sp_fault s"
proof -
  let ?f = "\<lambda>s. snd (producer_step (7::nat) 0 s)" and ?s = "new_spsc 4"
  have st: "ring_step s a (?f s)" if "fst (producer_step 7 0 s) = a" "sp_seen_tail s = 0" "0 < length (sp_tails s)" for s a
    using ring_step.producer [of s 0 7 a "?f s"] that by (metis le_refl prod.collapse)
  have r1: "ring_reach 4 ([] @ [Silent]) (?f ?s)"
    by (rule ring_reach.step [OF ring_reach.start st]; code_simp)
  have r2: "ring_reach 4 (([] @ [Silent]) @ [Silent]) (?f (?f ?s))"
    by (rule ring_reach.step [OF r1 st]; code_simp)
  have r3: "ring_reach 4 ((([] @ [Silent]) @ [Silent]) @ [Silent]) (?f (?f (?f ?s)))"
    by (rule ring_reach.step [OF r2 st]; code_simp)
  have "ring_reach 4 (((([] @ [Silent]) @ [Silent]) @ [Silent]) @ [PushDone 7]) (?f (?f (?f (?f ?s))))"
    by (rule ring_reach.step [OF r3 st]; code_simp)
  moreover have "cap_ok 4" by (auto simp: cap_ok_def intro: exI [of _ 2])
  ultimately show ?thesis using spsc_threads_safe [of 4 "[Silent, Silent, Silent, PushDone 7]"] by fastforce
qed

text \<open>
  C34: a failed call tells the truth about what the thread has seen. A push reports a full
  ring only if one less than the capacity is in the ring after the pops the producer knows
  of; a pop reports an empty ring only if every push the consumer knows of has been popped.
\<close>

theorem spsc_failures_exact:
  assumes "ring_reach cap acts s" and "cap_ok cap" and "ring_step s a s'"
  shows "(\<forall>v. a = PushFull v \<longrightarrow> length (pushed acts) = sp_seen_tail s' + (cap - 1)) \<and>
    (a = PopEmpty \<longrightarrow> length (popped acts) = sp_seen_head s')"
proof -
  let ?p = "length (pushed acts)" and ?c = "length (popped acts)"
  note inv = ring_reach_inv [OF assms(1,2)]
  have I: "length (sp_slots s) = cap" "sp_tails s = map (wpos cap) [0..<Suc ?c]" "sp_heads s = map (wpos cap) [0..<Suc ?p]"
    "producer_inv cap ?p s" "consumer_inv cap ?c s" "sp_seen_head s \<le> ?p"
    using inv by (simp_all add: spsc_inv_def)
  from assms(3) show ?thesis
  proof cases
    case (producer k v)
    have k: "k \<le> ?p" "?p < k + cap" "k < Suc ?c" using producer I(2,4,5,6) by (auto simp: consumer_inv_def producer_inv_def)
    show ?thesis
    proof (cases "sp_prod s")
      case (PLoaded w h)
      have h: "h = wpos cap ?p" using I(4) PLoaded by (simp add: producer_inv_def)
      have "?p = k + (cap - 1)" if "increment cap h = sp_tails s ! k"
      proof -
        have "wpos cap (Suc ?p) = wpos cap k"
          using that h assms(2) nth_history [OF k(3)] by (simp add: increment_wpos I(2) del: upt_Suc)
        then have "Suc ?p mod cap = k mod cap" using assms(2) by (simp add: wpos_eq_iff)
        then have "cap dvd Suc ?p - k" using k(1) by (subst mod_eq_dvd_iff_nat [symmetric]) simp_all
        then show ?thesis using k dvd_imp_le [of cap "Suc ?p - k"] by simp
      qed
      with producer PLoaded I(1) show ?thesis
        by (auto simp: producer_step_def Let_def split: if_splits)
    qed (use producer in \<open>auto simp: producer_step_def Let_def\<close>)
  next
    case (consumer k)
    have k: "?c \<le> k" "k \<le> ?p" "?p < ?c + cap"
      using consumer I inv by (auto simp: consumer_inv_def producer_inv_def spsc_inv_def)
    show ?thesis
    proof (cases "sp_cons s")
      case (CLoaded t)
      have t: "t = wpos cap ?c" using I(5) CLoaded by (simp add: consumer_inv_def)
      have "?c = k" if "t = sp_heads s ! k"
      proof -
        have "wpos cap ?c = wpos cap k" using that t nth_history [of k ?p cap] k(2) by (simp add: I(3) del: upt_Suc)
        then have "k mod cap = ?c mod cap" using assms(2) by (simp add: wpos_eq_iff)
        then have "cap dvd k - ?c" using k(1) by (subst mod_eq_dvd_iff_nat [symmetric]) simp_all
        then show ?thesis using k nat_dvd_not_less [of "k - ?c" cap] by fastforce
      qed
      with consumer CLoaded show ?thesis
        by (auto simp: consumer_step_def Let_def split: if_splits)
    qed (use consumer in \<open>auto simp: consumer_step_def Let_def split: option.splits\<close>)
  qed
qed

theorem spsc_failures_exact_witness:
  "\<exists>s'. ring_step (snd (consumer_step 0 (new_spsc 4 :: nat spsc))) PopEmpty s' \<and> sp_seen_head s' = 0"
proof -
  let ?s = "new_spsc 4 :: nat spsc" and ?f = "\<lambda>s :: nat spsc. snd (consumer_step 0 s)"
  have s1: "ring_step ?s Silent (?f ?s)"
    by (rule ring_step.consumer [where k = 0]; code_simp)
  have r: "ring_reach 4 ([] @ [Silent]) (?f ?s)" by (rule ring_reach.step [OF ring_reach.start s1])
  have s2: "ring_step (?f ?s) PopEmpty (?f (?f ?s))"
    by (rule ring_step.consumer [where k = 0]; code_simp)
  have "cap_ok 4" by (auto simp: cap_ok_def intro: exI [of _ 2])
  from spsc_failures_exact [OF r this s2] s2 show ?thesis by (intro exI [of _ "?f (?f ?s)"]) (simp add: popped_def)
qed



end
