(* ===== verification/Blocking_Queue.thy ===== *)
theory Blocking_Queue
  imports Bounded_Fifo
begin

text \<open>
  \<^verbatim>\<open>src/concurrency/bounded_blocking_queue.hpp\<close>: the conventional queue, a deque under a mutex
  with two condition variables. Any number of threads push and pop; a thread that finds the
  queue full or empty sleeps on a condition variable, is woken by a notification or
  spuriously, and then checks again. Everything between two waits happens under the mutex and
  is one step.
\<close>

section \<open>The queue\<close>

record 'a blocking_queue =
  bq_capacity :: u64
  bq_items :: "'a list"

definition new_blocking_queue :: "u64 \<Rightarrow> 'a blocking_queue" where
  "new_blocking_queue cap = \<lparr>bq_capacity = cap, bq_items = []\<rparr>"

definition bq_size_approx :: "'a blocking_queue \<Rightarrow> u64" where
  "bq_size_approx q = of_nat (length (bq_items q))"

text \<open>\<open>queue_.size() >= capacity_\<close>, which is also what \<open>had_to_wait\<close> reports\<close>

definition bq_full :: "'a blocking_queue \<Rightarrow> bool" where
  "bq_full q \<longleftrightarrow> unat (bq_capacity q) \<le> length (bq_items q)"

text \<open>The calls as far as they do not wait: \<open>False\<close> or \<open>None\<close> means that the caller sleeps.\<close>

definition bq_push :: "'a \<Rightarrow> 'a blocking_queue \<Rightarrow> bool \<times> 'a blocking_queue" where
  "bq_push v q = (if bq_full q then (False, q) else (True, q\<lparr>bq_items := bq_items q @ [v]\<rparr>))"

definition bq_pop :: "'a blocking_queue \<Rightarrow> 'a option \<times> 'a blocking_queue" where
  "bq_pop q = (case bq_items q of [] \<Rightarrow> (None, q) | x # xs \<Rightarrow> (Some x, q\<lparr>bq_items := xs\<rparr>))"

definition bq_inv :: "nat \<Rightarrow> 'a blocking_queue \<Rightarrow> bool" where
  "bq_inv cap q \<longleftrightarrow> unat (bq_capacity q) = cap \<and> length (bq_items q) \<le> cap"

interpretation blocking: bounded_fifo "bq_inv cap" bq_items cap bq_push bq_pop for cap
  by unfold_locales (auto simp: bq_inv_def bq_push_def bq_pop_def bq_full_def)

section \<open>The monitor\<close>

text \<open>
  The threads inside a call: the values of the producers asleep on \<open>not_full_\<close> and of those
  woken but not yet running, and the numbers of consumers asleep on \<open>not_empty_\<close> and woken.
\<close>

record 'a monitor =
  mo_queue :: "'a blocking_queue"
  mo_push_asleep :: "'a list"
  mo_push_woken :: "'a list"
  mo_pop_asleep :: nat
  mo_pop_woken :: nat

datatype 'a monitor_event = Blocked | Enqueued 'a | Dequeued 'a | Woken

definition new_monitor :: "u64 \<Rightarrow> 'a monitor" where
  "new_monitor cap = \<lparr>mo_queue = new_blocking_queue cap, mo_push_asleep = [], mo_push_woken = [],
     mo_pop_asleep = 0, mo_pop_woken = 0\<rparr>"

definition remove_at :: "nat \<Rightarrow> 'a list \<Rightarrow> 'a list" where
  "remove_at i xs = take i xs @ drop (Suc i) xs"

text \<open>\<open>not_empty_.notify_one()\<close> and \<open>not_full_.notify_one()\<close>, which wakes the sleeper number \<open>i\<close>\<close>

definition notify_pop :: "'a monitor \<Rightarrow> 'a monitor" where
  "notify_pop m = (if mo_pop_asleep m = 0 then m
     else m\<lparr>mo_pop_asleep := mo_pop_asleep m - 1, mo_pop_woken := Suc (mo_pop_woken m)\<rparr>)"

definition notify_push :: "nat \<Rightarrow> 'a monitor \<Rightarrow> 'a monitor" where
  "notify_push i m = (if mo_push_asleep m = [] then m
     else m\<lparr>mo_push_asleep := remove_at i (mo_push_asleep m), mo_push_woken := mo_push_woken m @ [mo_push_asleep m ! i]\<rparr>)"

definition push_wait :: "'a \<Rightarrow> 'a monitor \<Rightarrow> 'a monitor_event \<times> 'a monitor" where
  "push_wait v m =
     (case bq_push v (mo_queue m) of
        (False, _) \<Rightarrow> (Blocked, m\<lparr>mo_push_asleep := mo_push_asleep m @ [v]\<rparr>)
      | (True, q) \<Rightarrow> (Enqueued v, notify_pop (m\<lparr>mo_queue := q\<rparr>)))"

definition push_resume :: "nat \<Rightarrow> 'a monitor \<Rightarrow> 'a monitor_event \<times> 'a monitor" where
  "push_resume j m = push_wait (mo_push_woken m ! j) (m\<lparr>mo_push_woken := remove_at j (mo_push_woken m)\<rparr>)"

definition pop_wait :: "nat \<Rightarrow> 'a monitor \<Rightarrow> 'a monitor_event \<times> 'a monitor" where
  "pop_wait i m =
     (case bq_pop (mo_queue m) of
        (None, _) \<Rightarrow> (Blocked, m\<lparr>mo_pop_asleep := Suc (mo_pop_asleep m)\<rparr>)
      | (Some x, q) \<Rightarrow> (Dequeued x, notify_push i (m\<lparr>mo_queue := q\<rparr>)))"

definition pop_resume :: "nat \<Rightarrow> 'a monitor \<Rightarrow> 'a monitor_event \<times> 'a monitor" where
  "pop_resume i m = pop_wait i (m\<lparr>mo_pop_woken := mo_pop_woken m - 1\<rparr>)"

definition can_notify :: "nat \<Rightarrow> 'a monitor \<Rightarrow> bool" where
  "can_notify i m \<longleftrightarrow> mo_push_asleep m = [] \<or> i < length (mo_push_asleep m)"

inductive monitor_step :: "'a monitor \<Rightarrow> 'a monitor_event \<Rightarrow> 'a monitor \<Rightarrow> bool" where
  push: "push_wait v m = (e, m') \<Longrightarrow> monitor_step m e m'"
| push_again: "j < length (mo_push_woken m) \<Longrightarrow> push_resume j m = (e, m') \<Longrightarrow> monitor_step m e m'"
| pop: "can_notify i m \<Longrightarrow> pop_wait i m = (e, m') \<Longrightarrow> monitor_step m e m'"
| pop_again: "0 < mo_pop_woken m \<Longrightarrow> can_notify i m \<Longrightarrow> pop_resume i m = (e, m') \<Longrightarrow> monitor_step m e m'"
| spurious_pop: "0 < mo_pop_asleep m \<Longrightarrow> monitor_step m Woken (notify_pop m)"
| spurious_push: "i < length (mo_push_asleep m) \<Longrightarrow> monitor_step m Woken (notify_push i m)"

inductive monitor_reach :: "u64 \<Rightarrow> 'a monitor_event list \<Rightarrow> 'a monitor \<Rightarrow> bool" for cap where
  start: "monitor_reach cap [] (new_monitor cap)"
| step: "monitor_reach cap es m \<Longrightarrow> monitor_step m e m' \<Longrightarrow> monitor_reach cap (es @ [e]) m'"

definition enqueued :: "'a monitor_event list \<Rightarrow> 'a list" where
  "enqueued es = concat (map (\<lambda>e. case e of Enqueued v \<Rightarrow> [v] | _ \<Rightarrow> []) es)"

definition dequeued :: "'a monitor_event list \<Rightarrow> 'a list" where
  "dequeued es = concat (map (\<lambda>e. case e of Dequeued v \<Rightarrow> [v] | _ \<Rightarrow> []) es)"

lemma monitor_history [simp]:
  "enqueued [] = []" "dequeued [] = []"
  "enqueued (es @ [e]) = enqueued es @ (case e of Enqueued v \<Rightarrow> [v] | _ \<Rightarrow> [])"
  "dequeued (es @ [e]) = dequeued es @ (case e of Dequeued v \<Rightarrow> [v] | _ \<Rightarrow> [])"
  by (simp_all add: enqueued_def dequeued_def)

section \<open>The invariant\<close>

text \<open>
  No wake-up is lost: if a consumer sleeps, every item in the queue has a woken consumer on
  its way to it, and if a producer sleeps, every free place has a woken producer.
\<close>

definition no_lost_wakeup :: "'a monitor \<Rightarrow> bool" where
  "no_lost_wakeup m \<longleftrightarrow>
     (0 < mo_pop_asleep m \<longrightarrow> length (bq_items (mo_queue m)) \<le> mo_pop_woken m) \<and>
     (mo_push_asleep m \<noteq> [] \<longrightarrow>
        unat (bq_capacity (mo_queue m)) - length (bq_items (mo_queue m)) \<le> length (mo_push_woken m))"

definition monitor_inv :: "u64 \<Rightarrow> 'a list \<Rightarrow> 'a list \<Rightarrow> 'a monitor \<Rightarrow> bool" where
  "monitor_inv cap ins outs m \<longleftrightarrow> bq_capacity (mo_queue m) = cap \<and> length (bq_items (mo_queue m)) \<le> unat cap \<and>
     ins = outs @ bq_items (mo_queue m) \<and> no_lost_wakeup m"

lemma length_remove_at [simp]: "i < length xs \<Longrightarrow> length (remove_at i xs) = length xs - 1"
  by (simp add: remove_at_def)

lemmas monitor_defs = monitor_inv_def no_lost_wakeup_def push_wait_def pop_wait_def push_resume_def pop_resume_def
  notify_pop_def notify_push_def bq_push_def bq_pop_def bq_full_def can_notify_def

lemma monitor_step_inv:
  assumes "monitor_step m e m'" and "monitor_inv cap ins outs m"
  shows "monitor_inv cap (ins @ (case e of Enqueued v \<Rightarrow> [v] | _ \<Rightarrow> [])) (outs @ (case e of Dequeued v \<Rightarrow> [v] | _ \<Rightarrow> [])) m'"
  using assms
proof cases
  case (push v)
  with assms(2) show ?thesis by (auto simp: monitor_defs split: if_splits)
next
  case (push_again j)
  then have "length (mo_push_woken m) \<noteq> 0" by auto
  with push_again assms(2) show ?thesis by (auto simp: monitor_defs split: if_splits)
next
  case (pop i)
  with assms(2) show ?thesis by (auto simp: monitor_defs split: if_splits list.splits)
next
  case (pop_again i)
  with assms(2) show ?thesis by (auto simp: monitor_defs split: if_splits list.splits)
next
  case spurious_pop
  with assms(2) show ?thesis by (auto simp: monitor_defs split: if_splits)
next
  case (spurious_push i)
  with assms(2) show ?thesis by (auto simp: monitor_defs split: if_splits)
qed

lemma monitor_reach_inv: "monitor_reach cap es m \<Longrightarrow> monitor_inv cap (enqueued es) (dequeued es) m"
proof (induction rule: monitor_reach.induct)
  case start
  then show ?case by (simp add: monitor_inv_def no_lost_wakeup_def new_monitor_def new_blocking_queue_def)
next
  case (step es m e m')
  from monitor_step_inv [OF step(2,3)] show ?case by simp
qed

section \<open>Properties\<close>

text \<open>
  C17: the blocking queue is a bounded FIFO queue that loses no wake-up. However many threads
  push and pop, in any interleaving and with spurious wake-ups, the items dequeued followed
  by those in the queue are the items enqueued, in order; the capacity is never exceeded,
  and with capacity zero nothing is ever enqueued; whenever items are there and consumers
  wait, a consumer is awake, and whenever there is room and producers wait, a producer is
  awake.
\<close>

theorem blocking_queue_safe:
  assumes "monitor_reach cap es m"
  shows "enqueued es = dequeued es @ bq_items (mo_queue m) \<and> length (bq_items (mo_queue m)) \<le> unat cap \<and>
    (cap = 0 \<longrightarrow> enqueued es = []) \<and>
    (bq_items (mo_queue m) \<noteq> [] \<and> 0 < mo_pop_asleep m \<longrightarrow> 0 < mo_pop_woken m) \<and>
    (\<not> bq_full (mo_queue m) \<and> mo_push_asleep m \<noteq> [] \<longrightarrow> mo_push_woken m \<noteq> [])"
proof -
  note inv = monitor_reach_inv [OF assms]
  have "cap = 0 \<longrightarrow> enqueued es = []"
  proof
    assume "cap = 0"
    moreover have "enqueued es = []" if "monitor_reach 0 es m" for es :: "'a monitor_event list" and m
      using that
    proof (induction rule: monitor_reach.induct)
      case (step es m e m')
      from monitor_reach_inv [OF step(1)] step(2,3) show ?case
        by (auto elim!: monitor_step.cases simp: monitor_defs split: if_splits list.splits)
    qed simp
    ultimately show "enqueued es = []" using assms by simp
  qed
  with inv show ?thesis
    by (auto simp: monitor_inv_def no_lost_wakeup_def bq_full_def) (metis length_greater_0_conv order_less_le_trans)+
qed

theorem blocking_queue_safe_witness:
  "\<exists>m. monitor_reach 1 [Enqueued (7::nat), Blocked] m \<and> enqueued [Enqueued (7::nat), Blocked] = [7] \<and>
    length (bq_items (mo_queue m)) \<le> 1"
proof -
  let ?m1 = "snd (push_wait 7 (new_monitor 1 :: nat monitor))"
  let ?m2 = "snd (push_wait 8 ?m1)"
  have "monitor_reach 1 ([] @ [Enqueued 7]) ?m1"
    by (rule monitor_reach.step [OF monitor_reach.start monitor_step.push [where v = 7]]) code_simp
  then have "monitor_reach 1 (([] @ [Enqueued 7]) @ [Blocked]) ?m2"
    by (rule monitor_reach.step [OF _ monitor_step.push [where v = 8]]) code_simp
  from blocking_queue_safe [OF this] this show ?thesis by (intro exI [of _ ?m2]) (simp add: enqueued_def)
qed

text \<open>
  C36: used by one caller at a time, the blocking queue answers as a list with a bound: a push
  is taken exactly while fewer items than the capacity are there, and a pop returns the
  oldest item.
\<close>

theorem blocking_queue_refines_fifo:
  "\<exists>q. run_calls bq_push bq_pop calls (new_blocking_queue cap) =
      (fst (run_calls (spec_push (unat cap)) spec_pop calls []), q) \<and>
    bq_items q = snd (run_calls (spec_push (unat cap)) spec_pop calls [])"
  using blocking.run_calls_refines [of "unat cap" "new_blocking_queue cap" calls]
  by (auto simp: bq_inv_def new_blocking_queue_def)

end
