(* ===== verification/Pipeline.thy ===== *)
theory Pipeline
  imports Spsc_Ring Blocking_Queue
begin

text \<open>
  The two pipelines of \<^verbatim>\<open>bench/bench_queue_pipeline.cpp\<close>: a producer thread sends numbered
  events and a stop event through one queue (\<open>kQueuesInPipeline\<close> is 1, so there are no worker
  stages), and a sink thread takes them, works on them and records their latency. The
  queue is an argument; the pipelines are verified against the contract \<open>bounded_fifo\<close> and
  then instantiated with the two queues of the program. The field \<open>pl_sunk\<close> is a history of
  the events the sink has finished.
\<close>

section \<open>Events, statistics and work\<close>

record pipeline_event =
  pe_seq :: u64
  pe_created_ns :: u64
  pe_payload :: u64
  pe_stop :: bool

record queue_stats =
  qs_full_events :: u64
  qs_dropped_events :: u64
  qs_occupancy_samples :: u64
  qs_occupancy_sum :: u64
  qs_max_occupancy :: u64

definition new_queue_stats :: queue_stats where
  "new_queue_stats = \<lparr>qs_full_events = 0, qs_dropped_events = 0, qs_occupancy_samples = 0,
     qs_occupancy_sum = 0, qs_max_occupancy = 0\<rparr>"

definition observe :: "u64 \<Rightarrow> queue_stats \<Rightarrow> queue_stats" where
  "observe occupancy st =
     st\<lparr>qs_occupancy_samples := qs_occupancy_samples st + 1,
        qs_occupancy_sum := qs_occupancy_sum st + occupancy,
        qs_max_occupancy := (if occupancy > qs_max_occupancy st then occupancy else qs_max_occupancy st)\<rparr>"

definition count_full :: "queue_stats \<Rightarrow> queue_stats" where
  "count_full st = st\<lparr>qs_full_events := qs_full_events st + 1\<rparr>"

definition do_stage_work :: "u64 \<Rightarrow> u64 \<Rightarrow> u64" where
  "do_stage_work value0 stage_id =
     (let v1 = value0 XOR (0x9e3779b97f4a7c15 + stage_id + push_bit 6 value0 + drop_bit 2 value0);
          v2 = v1 * 0xbf58476d1ce4e5b9
      in v2 XOR drop_bit 31 v2)"

section \<open>The threads\<close>

datatype producer_pc = Making u64 | Pushing pipeline_event | Refused pipeline_event | Sampling pipeline_event | ProducerDone

datatype sink_pc = Popping | SinkSampling pipeline_event | Working pipeline_event | SinkDone

record 'q pipeline =
  pl_queue :: 'q
  pl_stats :: queue_stats
  pl_producer :: producer_pc
  pl_sink :: sink_pc
  pl_latencies :: "u64 list"
  pl_sunk :: "pipeline_event list"
  pl_ticks :: nat

definition new_pipeline :: "'q \<Rightarrow> 'q pipeline" where
  "new_pipeline q = \<lparr>pl_queue = q, pl_stats = new_queue_stats, pl_producer = Making 0, pl_sink = Popping,
     pl_latencies = [], pl_sunk = [], pl_ticks = 0\<rparr>"

text \<open>The loop over the events and the stop event after it.\<close>

definition make_event :: "u64 \<Rightarrow> u64 \<Rightarrow> u64 \<Rightarrow> pipeline_event" where
  "make_event events i now =
     (if i < events then \<lparr>pe_seq = i, pe_created_ns = now, pe_payload = i * 17, pe_stop = False\<rparr>
      else \<lparr>pe_seq = events, pe_created_ns = now, pe_payload = 0, pe_stop = True\<rparr>)"

definition after_push :: "pipeline_event \<Rightarrow> producer_pc" where
  "after_push ev = (if pe_stop ev then ProducerDone else Making (pe_seq ev + 1))"

text \<open>The producer with \<open>push_wait\<close>; a refused push sleeps until there is room.\<close>

definition wait_producer_step ::
  "(pipeline_event \<Rightarrow> 'q \<Rightarrow> bool \<times> 'q) \<Rightarrow> ('q \<Rightarrow> u64) \<Rightarrow> (nat \<Rightarrow> u64) \<Rightarrow> u64 \<Rightarrow> 'q pipeline \<Rightarrow> 'q pipeline" where
  "wait_producer_step push size_of clock events s =
     (case pl_producer s of
        Making i \<Rightarrow> s\<lparr>pl_producer := Pushing (make_event events i (clock (pl_ticks s))), pl_ticks := Suc (pl_ticks s)\<rparr>
      | Pushing ev \<Rightarrow>
          (case push ev (pl_queue s) of
             (True, q) \<Rightarrow> s\<lparr>pl_queue := q, pl_producer := Sampling ev\<rparr>
           | (False, q) \<Rightarrow> s\<lparr>pl_producer := Refused ev\<rparr>)
      | Refused ev \<Rightarrow>
          (case push ev (pl_queue s) of
             (True, q) \<Rightarrow> s\<lparr>pl_queue := q, pl_stats := count_full (pl_stats s), pl_producer := Sampling ev\<rparr>
           | (False, q) \<Rightarrow> s)
      | Sampling ev \<Rightarrow> s\<lparr>pl_stats := observe (size_of (pl_queue s)) (pl_stats s), pl_producer := after_push ev\<rparr>
      | ProducerDone \<Rightarrow> s)"

text \<open>The producer with \<open>push_spin\<close>; a refused push is counted, sampled and tried again.\<close>

definition spin_producer_step ::
  "(pipeline_event \<Rightarrow> 'q \<Rightarrow> bool \<times> 'q) \<Rightarrow> ('q \<Rightarrow> u64) \<Rightarrow> (nat \<Rightarrow> u64) \<Rightarrow> u64 \<Rightarrow> 'q pipeline \<Rightarrow> 'q pipeline" where
  "spin_producer_step push size_of clock events s =
     (case pl_producer s of
        Making i \<Rightarrow> s\<lparr>pl_producer := Pushing (make_event events i (clock (pl_ticks s))), pl_ticks := Suc (pl_ticks s)\<rparr>
      | Pushing ev \<Rightarrow>
          (case push ev (pl_queue s) of
             (True, q) \<Rightarrow> s\<lparr>pl_queue := q, pl_producer := Sampling ev\<rparr>
           | (False, q) \<Rightarrow> s\<lparr>pl_stats := count_full (pl_stats s), pl_producer := Refused ev\<rparr>)
      | Refused ev \<Rightarrow> s\<lparr>pl_stats := observe (size_of (pl_queue s)) (pl_stats s), pl_producer := Pushing ev\<rparr>
      | Sampling ev \<Rightarrow> s\<lparr>pl_stats := observe (size_of (pl_queue s)) (pl_stats s), pl_producer := after_push ev\<rparr>
      | ProducerDone \<Rightarrow> s)"

text \<open>The sink; while the queue is empty it spins or sleeps.\<close>

definition sink_step ::
  "('q \<Rightarrow> pipeline_event option \<times> 'q) \<Rightarrow> ('q \<Rightarrow> u64) \<Rightarrow> (nat \<Rightarrow> u64) \<Rightarrow> 'q pipeline \<Rightarrow> 'q pipeline" where
  "sink_step pop size_of clock s =
     (case pl_sink s of
        Popping \<Rightarrow>
          (case pop (pl_queue s) of
             (None, q) \<Rightarrow> s
           | (Some ev, q) \<Rightarrow> s\<lparr>pl_queue := q, pl_sink := SinkSampling ev\<rparr>)
      | SinkSampling ev \<Rightarrow> s\<lparr>pl_stats := observe (size_of (pl_queue s)) (pl_stats s),
                              pl_sink := (if pe_stop ev then SinkDone else Working ev)\<rparr>
      | Working ev \<Rightarrow>
          s\<lparr>pl_latencies := pl_latencies s @ [clock (pl_ticks s) - pe_created_ns ev],
            pl_sunk := pl_sunk s @ [ev\<lparr>pe_payload := do_stage_work (pe_payload ev) 1\<rparr>],
            pl_sink := Popping, pl_ticks := Suc (pl_ticks s)\<rparr>
      | SinkDone \<Rightarrow> s)"

text \<open>A schedule says which thread makes the next step, \<open>True\<close> for the producer.\<close>

definition run_schedule :: "('q pipeline \<Rightarrow> 'q pipeline) \<Rightarrow> ('q pipeline \<Rightarrow> 'q pipeline) \<Rightarrow> bool list \<Rightarrow> 'q pipeline \<Rightarrow> 'q pipeline" where
  "run_schedule producer sink sched s = fold (\<lambda>b. if b then producer else sink) sched s"

definition rounds :: "nat \<Rightarrow> bool list" where
  "rounds n = concat (replicate n [True, False])"

section \<open>What the threads keep\<close>

definition event_no :: "u64 \<Rightarrow> nat \<Rightarrow> pipeline_event \<Rightarrow> bool" where
  "event_no events k ev \<longleftrightarrow> pe_seq ev = of_nat k \<and> k \<le> unat events \<and> (pe_stop ev \<longleftrightarrow> k = unat events) \<and>
     (k < unat events \<longrightarrow> pe_payload ev = of_nat (17 * k))"

definition done_no :: "nat \<Rightarrow> pipeline_event \<Rightarrow> bool" where
  "done_no k ev \<longleftrightarrow> pe_seq ev = of_nat k \<and> pe_payload ev = do_stage_work (of_nat (17 * k)) 1 \<and> \<not> pe_stop ev"

lemma event_no_make: "j \<le> unat events \<Longrightarrow> event_no events j (make_event events (of_nat j) now)"
proof -
  assume j: "j \<le> unat events"
  then have "j < 2 ^ 64" using unsigned_less [of events, where 'a = nat] by simp
  then have u: "unat (of_nat j :: u64) = j" by (simp add: unat_of_nat)
  then have "(of_nat j :: u64) < events \<longleftrightarrow> j < unat events" by (simp add: word_less_nat_alt)
  moreover have "j = unat events \<Longrightarrow> events = of_nat j" by simp
  ultimately show ?thesis using j by (auto simp: event_no_def make_event_def)
qed

definition taken :: "'q pipeline \<Rightarrow> nat" where
  "taken s = length (pl_sunk s) + (if pl_sink s = Popping then 0 else 1)"

definition sink_inv :: "u64 \<Rightarrow> 'q pipeline \<Rightarrow> bool" where
  "sink_inv events s \<longleftrightarrow> length (pl_latencies s) = length (pl_sunk s) \<and> length (pl_sunk s) \<le> unat events \<and>
     (\<forall>k < length (pl_sunk s). done_no k (pl_sunk s ! k)) \<and>
     (case pl_sink s of Popping \<Rightarrow> True | SinkSampling ev \<Rightarrow> event_no events (length (pl_sunk s)) ev
      | Working ev \<Rightarrow> event_no events (length (pl_sunk s)) ev \<and> length (pl_sunk s) < unat events
      | SinkDone \<Rightarrow> length (pl_sunk s) = unat events)"

definition source_inv :: "u64 \<Rightarrow> nat \<Rightarrow> producer_pc \<Rightarrow> bool" where
  "source_inv events j pc \<longleftrightarrow>
     (case pc of Making i \<Rightarrow> i = of_nat j \<and> j \<le> unat events
      | Pushing ev \<Rightarrow> event_no events j ev | Refused ev \<Rightarrow> event_no events j ev
      | Sampling ev \<Rightarrow> 0 < j \<and> event_no events (j - 1) ev | ProducerDone \<Rightarrow> j = unat events + 1)"

definition queued :: "u64 \<Rightarrow> nat \<Rightarrow> pipeline_event list \<Rightarrow> bool" where
  "queued events t xs \<longleftrightarrow> (\<forall>k < length xs. event_no events (t + k) (xs ! k))"

lemma queued_append: "queued events t (xs @ [ev]) \<longleftrightarrow> queued events t xs \<and> event_no events (t + length xs) ev"
  by (auto simp: queued_def nth_append less_Suc_eq)

lemma queued_Cons: "queued events t (x # xs) \<longleftrightarrow> event_no events t x \<and> queued events (Suc t) xs"
proof -
  have "queued events t (x # xs) \<longleftrightarrow> (\<forall>k < Suc (length xs). event_no events (t + k) ((x # xs) ! k))" by (simp add: queued_def)
  also have "\<dots> \<longleftrightarrow> event_no events t x \<and> queued events (Suc t) xs" by (auto simp: queued_def less_Suc_eq_0_disj)
  finally show ?thesis .
qed

lemma after_push_inv: "event_no events j ev \<Longrightarrow> source_inv events (Suc j) (after_push ev)"
  by (auto simp: event_no_def source_inv_def after_push_def)

text \<open>How much is left to do, counted so that a full round always makes progress.\<close>

definition source_work :: "u64 \<Rightarrow> nat \<Rightarrow> producer_pc \<Rightarrow> nat" where
  "source_work events j pc = 6 * (unat events + 1 - j) +
     (case pc of Making i \<Rightarrow> 0 | Pushing ev \<Rightarrow> 0 | Refused ev \<Rightarrow> 1 | Sampling ev \<Rightarrow> 2 | ProducerDone \<Rightarrow> 0)
     - (case pc of Making i \<Rightarrow> 0 | Pushing ev \<Rightarrow> 2 | Refused ev \<Rightarrow> 2 | Sampling ev \<Rightarrow> 0 | ProducerDone \<Rightarrow> 0)"

definition sink_work :: "u64 \<Rightarrow> 'q pipeline \<Rightarrow> nat" where
  "sink_work events s = 6 * (unat events + 1 - taken s) +
     (case pl_sink s of Popping \<Rightarrow> 0 | SinkSampling ev \<Rightarrow> 4 | Working ev \<Rightarrow> 2 | SinkDone \<Rightarrow> 0)"

lemma source_inv_le: "source_inv events j pc \<Longrightarrow> j \<le> unat events + 1"
  by (auto simp: source_inv_def event_no_def split: producer_pc.splits)

lemma taken_le: "sink_inv events s \<Longrightarrow> taken s \<le> unat events + 1"
  by (auto simp: sink_inv_def taken_def)

text \<open>Steps of the producer do not touch the sink.\<close>

lemma sink_frame:
  assumes "pl_sink s' = pl_sink s" and "pl_sunk s' = pl_sunk s" and "pl_latencies s' = pl_latencies s"
  shows "sink_inv events s' = sink_inv events s" and "taken s' = taken s" and "sink_work events s' = sink_work events s"
  using assms by (cases "pl_sink s"; simp add: sink_inv_def taken_def sink_work_def)+

text \<open>In every state the events done are the first ones, in order, each worked on once; a finished run has done all.\<close>

definition pipeline_sound :: "u64 \<Rightarrow> 'q pipeline \<Rightarrow> bool" where
  "pipeline_sound events s \<longleftrightarrow> length (pl_latencies s) = length (pl_sunk s) \<and> length (pl_sunk s) \<le> unat events \<and>
     (\<forall>k < length (pl_sunk s). done_no k (pl_sunk s ! k)) \<and> qs_dropped_events (pl_stats s) = 0 \<and>
     (pl_sink s = SinkDone \<longrightarrow> length (pl_sunk s) = unat events)"

definition pipeline_finished :: "'q pipeline \<Rightarrow> bool" where
  "pipeline_finished s \<longleftrightarrow> pl_producer s = ProducerDone \<and> pl_sink s = SinkDone"

locale pipeline_fifo = bounded_fifo inv content cap push pop
  for inv :: "'q \<Rightarrow> bool" and content :: "'q \<Rightarrow> pipeline_event list" and cap :: nat
    and push :: "pipeline_event \<Rightarrow> 'q \<Rightarrow> bool \<times> 'q" and pop :: "'q \<Rightarrow> pipeline_event option \<times> 'q" +
  assumes room: "0 < cap"
begin

definition pipe_inv :: "u64 \<Rightarrow> 'q pipeline \<Rightarrow> bool" where
  "pipe_inv events s \<longleftrightarrow> inv (pl_queue s) \<and> sink_inv events s \<and> queued events (taken s) (content (pl_queue s)) \<and>
     source_inv events (taken s + length (content (pl_queue s))) (pl_producer s) \<and> qs_dropped_events (pl_stats s) = 0"

definition work :: "u64 \<Rightarrow> 'q pipeline \<Rightarrow> nat" where
  "work events s = source_work events (taken s + length (content (pl_queue s))) (pl_producer s) + sink_work events s"

text \<open>What a step of either producer does.\<close>

definition produced :: "u64 \<Rightarrow> 'q pipeline \<Rightarrow> 'q pipeline \<Rightarrow> bool" where
  "produced events s s' \<longleftrightarrow> pipe_inv events s' \<and>
     (work events s' < work events s \<or> s' = s \<and> pl_producer s = ProducerDone \<or>
      length (content (pl_queue s')) = cap \<and> work events s' \<le> work events s + 1)"

lemma produced_by:
  assumes "pipe_inv events s" and "pl_sink s' = pl_sink s" and "pl_sunk s' = pl_sunk s" and "pl_latencies s' = pl_latencies s"
    and "qs_dropped_events (pl_stats s') = qs_dropped_events (pl_stats s)" and "inv (pl_queue s')"
    and "queued events (taken s) (content (pl_queue s'))"
    and "source_inv events (taken s + length (content (pl_queue s'))) (pl_producer s')"
    and "source_work events (taken s + length (content (pl_queue s'))) (pl_producer s') <
        source_work events (taken s + length (content (pl_queue s))) (pl_producer s) \<or>
      length (content (pl_queue s')) = cap \<and>
      source_work events (taken s + length (content (pl_queue s'))) (pl_producer s') \<le>
        source_work events (taken s + length (content (pl_queue s))) (pl_producer s) + 1"
  shows "produced events s s'"
  using assms sink_frame [OF assms(2-4)] by (auto simp: produced_def pipe_inv_def work_def)

lemma source_work_steps:
  assumes "source_inv events j pc"
  shows "pc = Making i \<Longrightarrow> source_work events j (Pushing ev) < source_work events j pc"
    and "pc = Pushing ev \<Longrightarrow> source_work events (Suc j) (Sampling ev) < source_work events j pc"
    and "pc = Pushing ev \<Longrightarrow> source_work events j (Refused ev) \<le> source_work events j pc + 1"
    and "pc = Refused ev \<Longrightarrow> source_work events (Suc j) (Sampling ev) < source_work events j pc"
    and "pc = Refused ev \<Longrightarrow> source_work events j (Pushing ev) < source_work events j pc"
    and "pc = Sampling ev \<Longrightarrow> source_work events j (after_push ev) < source_work events j pc"
  using assms by (auto simp: source_work_def source_inv_def event_no_def after_push_def)

lemma made_event:
  assumes "source_inv events j (Making i)"
  shows "source_inv events j (Pushing (make_event events i now))"
  using assms event_no_make by (auto simp: source_inv_def)

lemma wait_producer_ok:
  assumes ok: "pipe_inv events s"
  shows "produced events s (wait_producer_step push size_of clock events s)"
proof -
  have src: "source_inv events (taken s + length (content (pl_queue s))) (pl_producer s)"
    and q: "inv (pl_queue s)" "queued events (taken s) (content (pl_queue s))" using ok by (simp_all add: pipe_inv_def)
  show ?thesis
  proof (cases "pl_producer s")
    case (Making i)
    with ok q src made_event source_work_steps(1) [OF src] show ?thesis
      by (auto simp: wait_producer_step_def intro!: produced_by)
  next
    case (Pushing ev)
    have ev: "event_no events (taken s + length (content (pl_queue s))) ev" using src Pushing by (simp add: source_inv_def)
    from q(1) show ?thesis
    proof (cases rule: push_cases [where v = ev])
      case (pushed q')
      with ok q ev Pushing source_work_steps(2) [OF src Pushing] show ?thesis
        by (auto simp: wait_producer_step_def queued_append source_inv_def intro!: produced_by)
    next
      case full
      then have "wait_producer_step push size_of clock events s = s\<lparr>pl_producer := Refused ev\<rparr>"
        using Pushing by (simp add: wait_producer_step_def)
      with full ok q ev Pushing source_work_steps(3) [OF src Pushing] show ?thesis
        by (simp only:) (rule produced_by, simp_all add: source_inv_def pipe_inv_def)
    qed
  next
    case (Refused ev)
    have ev: "event_no events (taken s + length (content (pl_queue s))) ev" using src Refused by (simp add: source_inv_def)
    from q(1) show ?thesis
    proof (cases rule: push_cases [where v = ev])
      case (pushed q')
      with ok q ev Refused source_work_steps(4) [OF src Refused] show ?thesis
        by (auto simp: wait_producer_step_def queued_append source_inv_def count_full_def intro!: produced_by)
    next
      case full
      with ok Refused show ?thesis by (simp add: wait_producer_step_def produced_def)
    qed
  next
    case (Sampling ev)
    have "source_inv events (taken s + length (content (pl_queue s))) (after_push ev)"
      using src Sampling after_push_inv [of events "taken s + length (content (pl_queue s)) - 1" ev]
      by (auto simp: source_inv_def split: producer_pc.splits)
    with ok q Sampling source_work_steps(6) [OF src Sampling] show ?thesis
      by (auto simp: wait_producer_step_def observe_def intro!: produced_by)
  next
    case ProducerDone
    with ok show ?thesis by (simp add: wait_producer_step_def produced_def)
  qed
qed

lemma spin_producer_ok:
  assumes ok: "pipe_inv events s"
  shows "produced events s (spin_producer_step push size_of clock events s)"
proof -
  have src: "source_inv events (taken s + length (content (pl_queue s))) (pl_producer s)"
    and q: "inv (pl_queue s)" "queued events (taken s) (content (pl_queue s))" using ok by (simp_all add: pipe_inv_def)
  show ?thesis
  proof (cases "pl_producer s")
    case (Pushing ev)
    have ev: "event_no events (taken s + length (content (pl_queue s))) ev" using src Pushing by (simp add: source_inv_def)
    from q(1) show ?thesis
    proof (cases rule: push_cases [where v = ev])
      case (pushed q')
      with ok q ev Pushing source_work_steps(2) [OF src Pushing] show ?thesis
        by (auto simp: spin_producer_step_def queued_append source_inv_def intro!: produced_by)
    next
      case full
      then have "spin_producer_step push size_of clock events s =
          s\<lparr>pl_stats := count_full (pl_stats s), pl_producer := Refused ev\<rparr>"
        using Pushing by (simp add: spin_producer_step_def)
      with full ok q ev Pushing source_work_steps(3) [OF src Pushing] show ?thesis
        by (simp only:) (rule produced_by, simp_all add: source_inv_def pipe_inv_def count_full_def)
    qed
  next
    case (Refused ev)
    with ok q src source_work_steps(5) [OF src Refused] show ?thesis
      by (auto simp: spin_producer_step_def observe_def source_inv_def intro!: produced_by)
  next
    case (Making i)
    with ok wait_producer_ok [OF ok, of size_of clock] show ?thesis by (simp add: spin_producer_step_def wait_producer_step_def)
  next
    case (Sampling ev)
    with ok wait_producer_ok [OF ok, of size_of clock] show ?thesis by (simp add: spin_producer_step_def wait_producer_step_def)
  next
    case ProducerDone
    with ok wait_producer_ok [OF ok, of size_of clock] show ?thesis by (simp add: spin_producer_step_def wait_producer_step_def)
  qed
qed

lemma sink_ok:
  assumes ok: "pipe_inv events s"
  shows "pipe_inv events (sink_step pop size_of clock s) \<and>
    (work events (sink_step pop size_of clock s) + 2 \<le> work events s \<or>
     sink_step pop size_of clock s = s \<and> (pl_sink s = SinkDone \<or> pl_sink s = Popping \<and> content (pl_queue s) = []))"
proof -
  have I: "inv (pl_queue s)" "queued events (taken s) (content (pl_queue s))" "sink_inv events s" using ok by (simp_all add: pipe_inv_def)
  show ?thesis
  proof (cases "pl_sink s")
    case Popping
    from I(1) show ?thesis
    proof (cases rule: pop_cases)
      case none
      with ok Popping show ?thesis by (simp add: sink_step_def)
    next
      case (popped ev q')
      then have "event_no events (taken s) ev" "queued events (Suc (taken s)) (content q')"
        using I(2) by (simp_all add: queued_Cons)
      with ok popped Popping show ?thesis
        by (auto simp: sink_step_def pipe_inv_def sink_inv_def taken_def work_def sink_work_def event_no_def)
    qed
  next
    case (SinkSampling ev)
    with ok show ?thesis
      by (auto simp: sink_step_def pipe_inv_def sink_inv_def taken_def work_def sink_work_def event_no_def observe_def)
  next
    case (Working ev)
    with ok have "done_no (length (pl_sunk s)) (ev\<lparr>pe_payload := do_stage_work (pe_payload ev) 1\<rparr>)"
      by (simp add: pipe_inv_def sink_inv_def event_no_def done_no_def)
    with ok Working show ?thesis
      by (auto simp: sink_step_def pipe_inv_def sink_inv_def taken_def work_def sink_work_def nth_append less_Suc_eq)
  next
    case SinkDone
    with ok show ?thesis by (simp add: sink_step_def)
  qed
qed

text \<open>A round of one step each makes progress until both threads are through.\<close>

lemma round_progress:
  assumes ok: "pipe_inv events s" and prod: "produced events s s1"
  shows "pipe_inv events (sink_step pop size_of clock s1) \<and>
    (work events (sink_step pop size_of clock s1) < work events s \<or> s1 = s \<and> sink_step pop size_of clock s1 = s \<and> pipeline_finished s)"
proof -
  have ok1: "pipe_inv events s1" using prod by (simp add: produced_def)
  note snk = sink_ok [OF ok1, of size_of clock]
  have le: "taken s1 + length (content (pl_queue s1)) \<le> unat events + 1" "sink_inv events s1"
    using ok1 source_inv_le by (auto simp: pipe_inv_def)
  consider (less) "work events s1 < work events s" | (through) "s1 = s" "pl_producer s = ProducerDone"
    | (full) "length (content (pl_queue s1)) = cap" "work events s1 \<le> work events s + 1"
    using prod by (auto simp: produced_def)
  then show ?thesis
  proof cases
    case less
    with snk show ?thesis by auto
  next
    case full
    have "pl_sink s1 \<noteq> SinkDone" "content (pl_queue s1) \<noteq> []"
      using le full(1) room by (auto simp: sink_inv_def taken_def)
    with snk full show ?thesis by auto
  next
    case through
    have "taken s + length (content (pl_queue s)) = unat events + 1"
      using ok through(2) by (simp add: pipe_inv_def source_inv_def)
    then have "\<not> (pl_sink s = Popping \<and> content (pl_queue s) = [])"
      using le(2) through(1) by (auto simp: sink_inv_def taken_def)
    with snk through show ?thesis by (auto simp: pipeline_finished_def)
  qed
qed

lemma pipe_sound: "pipe_inv events s \<Longrightarrow> pipeline_sound events s"
  by (auto simp: pipe_inv_def sink_inv_def pipeline_sound_def)

lemma run_keeps:
  assumes "\<And>s. pipe_inv events s \<Longrightarrow> produced events s (producer s)" and "pipe_inv events s"
  shows "pipe_inv events (run_schedule producer (sink_step pop size_of clock) sched s)"
  using assms(2)
proof (induction sched arbitrary: s)
  case (Cons b sched)
  have "pipe_inv events (if b then producer s else sink_step pop size_of clock s)"
    using assms(1) [OF Cons.prems] sink_ok [OF Cons.prems] by (auto simp: produced_def)
  from Cons.IH [OF this] show ?case by (cases b) (simp_all add: run_schedule_def)
qed (simp add: run_schedule_def)

lemma rounds_finish:
  assumes prod: "\<And>s. pipe_inv events s \<Longrightarrow> produced events s (producer s)" and "pipe_inv events s" and "work events s \<le> n"
  shows "pipeline_finished (run_schedule producer (sink_step pop size_of clock) (rounds n) s)"
  using assms(2,3)
proof (induction n arbitrary: s)
  case 0
  have "\<not> work events (sink_step pop size_of clock (producer s)) < work events s" using 0 by simp
  with round_progress [OF 0(1) prod [OF 0(1)], of size_of clock] show ?case by (auto simp: run_schedule_def rounds_def)
next
  case (Suc n)
  let ?s = "sink_step pop size_of clock (producer s)"
  note pr = round_progress [OF Suc.prems(1) prod [OF Suc.prems(1)], of size_of clock]
  have "work events ?s \<le> n"
  proof (cases "work events ?s < work events s")
    case False
    with pr have "pipeline_finished s" "?s = s" by auto
    then have "work events s = 0"
      using Suc.prems(1) by (simp add: pipeline_finished_def work_def source_work_def sink_work_def pipe_inv_def source_inv_def sink_inv_def taken_def)
    then show ?thesis using \<open>?s = s\<close> by simp
  qed (use Suc.prems(2) in simp)
  with Suc.IH [of ?s] pr show ?case by (simp add: run_schedule_def rounds_def)
qed

lemma new_run_ok:
  assumes "inv q" and "content q = []"
  shows "pipe_inv events (new_pipeline q)" and "work events (new_pipeline q) = 12 * (unat events + 1)"
  using assms by (simp_all add: pipe_inv_def new_pipeline_def sink_inv_def source_inv_def queued_def taken_def
      new_queue_stats_def work_def source_work_def sink_work_def)

end

section \<open>The two pipelines\<close>

interpretation spsc_pipe: pipeline_fifo "ring_inv (n + 2)" ring_list "usable_capacity (n + 2)" try_push ring_pop for n
  by unfold_locales (simp add: usable_capacity_def)

interpretation blocking_pipe: pipeline_fifo "bq_inv (n + 1)" bq_items "n + 1" bq_push bq_pop for n
  by unfold_locales simp

definition run_spsc :: "(nat \<Rightarrow> u64) \<Rightarrow> u64 \<Rightarrow> nat \<Rightarrow> bool list \<Rightarrow> pipeline_event ring pipeline" where
  "run_spsc clock events cap sched =
     run_schedule (spin_producer_step try_push ring_size_approx clock events) (sink_step ring_pop ring_size_approx clock)
       sched (new_pipeline (new_ring cap))"

definition run_normal :: "(nat \<Rightarrow> u64) \<Rightarrow> u64 \<Rightarrow> u64 \<Rightarrow> bool list \<Rightarrow> pipeline_event blocking_queue pipeline" where
  "run_normal clock events cap sched =
     run_schedule (wait_producer_step bq_push bq_size_approx clock events) (sink_step bq_pop bq_size_approx clock)
       sched (new_pipeline (new_blocking_queue cap))"

text \<open>Both pipelines start in the invariant with the same work to do, so they keep it and finish.\<close>

lemma spsc_start:
  assumes "cap_ok cap"
  obtains n where "cap = n + 2" and "spsc_pipe.pipe_inv n events (new_pipeline (new_ring cap))"
    and "spsc_pipe.work events (new_pipeline (new_ring cap)) = 12 * (unat events + 1)"
proof -
  obtain n where n: "cap = n + 2" using cap_ok_less [OF assms] by (metis add.commute le_Suc_ex)
  have q: "ring_inv (n + 2) (new_ring (n + 2))" "ring_list (new_ring (n + 2)) = []"
    using new_ring_rep [OF assms] ring_rep_list by (auto simp: ring_inv_def new_ring_def n)
  show ?thesis using that [OF n] spsc_pipe.new_run_ok [OF q] unfolding n by blast
qed

lemma spsc_run:
  assumes "cap_ok cap"
  obtains n where "cap = n + 2" and "spsc_pipe.pipe_inv n events (run_spsc clock events cap sched)"
    and "pipeline_finished (run_spsc clock events cap (rounds (12 * (unat events + 1))))"
proof -
  obtain n where n: "cap = n + 2" "spsc_pipe.pipe_inv n events (new_pipeline (new_ring cap))"
      "spsc_pipe.work events (new_pipeline (new_ring cap)) = 12 * (unat events + 1)"
    using spsc_start [OF assms] by blast
  show ?thesis
  proof (rule that [OF n(1)], goal_cases)
    case 1
    show ?case unfolding run_spsc_def by (rule spsc_pipe.run_keeps [OF spsc_pipe.spin_producer_ok n(2)])
  next
    case 2
    show ?case unfolding run_spsc_def
      by (rule spsc_pipe.rounds_finish [OF spsc_pipe.spin_producer_ok n(2)]) (assumption, rule eq_refl [OF n(3)])
  qed
qed

lemma normal_start:
  assumes "cap \<noteq> 0"
  obtains n where "unat cap = n + 1" and "blocking_pipe.pipe_inv n events (new_pipeline (new_blocking_queue cap))"
    and "blocking_pipe.work events (new_pipeline (new_blocking_queue cap)) = 12 * (unat events + 1)"
proof -
  have "0 < unat cap" using assms by (simp add: unat_gt_0)
  then obtain n where n: "unat cap = n + 1" by (metis Suc_eq_plus1 Suc_pred')
  have q: "bq_inv (n + 1) (new_blocking_queue cap)" "bq_items (new_blocking_queue cap) = []"
    using n by (simp_all add: bq_inv_def new_blocking_queue_def)
  show ?thesis using that [OF n] blocking_pipe.new_run_ok [OF q] by blast
qed

lemma normal_run:
  assumes "cap \<noteq> 0"
  obtains n where "unat cap = n + 1" and "blocking_pipe.pipe_inv n events (run_normal clock events cap sched)"
    and "pipeline_finished (run_normal clock events cap (rounds (12 * (unat events + 1))))"
proof -
  obtain n where n: "unat cap = n + 1" "blocking_pipe.pipe_inv n events (new_pipeline (new_blocking_queue cap))"
      "blocking_pipe.work events (new_pipeline (new_blocking_queue cap)) = 12 * (unat events + 1)"
    using normal_start [OF assms] by blast
  show ?thesis
  proof (rule that [OF n(1)], goal_cases)
    case 1
    show ?case unfolding run_normal_def by (rule blocking_pipe.run_keeps [OF blocking_pipe.wait_producer_ok n(2)])
  next
    case 2
    show ?case unfolding run_normal_def
      by (rule blocking_pipe.rounds_finish [OF blocking_pipe.wait_producer_ok n(2)]) (assumption, rule eq_refl [OF n(3)])
  qed
qed

section \<open>Properties\<close>





end
