(* ===== verification/Bench_Report.thy ===== *)
theory Bench_Report
  imports Pipeline Latency Command_Line
begin

text \<open>
  The report of \<^verbatim>\<open>bench/bench_queue_pipeline.cpp\<close>: the figures of a run (\<open>percentile\<close>,
  \<open>finalize_result\<close>), in double precision, and the texts that show them: the line on
  standard output, the two CSV files and the markdown report. Files are modelled by the text
  written to them. The lemmas show that the index of a percentile is never out of range,
  that the percentiles are ordered samples, that the average lies between the extremes, and
  that a row of the raw file splits back into its fields.
\<close>

section \<open>The figures of a run\<close>

record bench_result =
  br_approach :: string
  br_events_processed :: u64
  br_wall_seconds :: rat
  br_events_per_second :: rat
  br_average_latency_ns :: rat
  br_p50_latency_ns :: u64
  br_p99_latency_ns :: u64
  br_p999_latency_ns :: u64
  br_max_latency_ns :: u64
  br_cpu_usage_percent :: rat
  br_average_queue_occupancy :: rat
  br_max_queue_occupancy :: u64
  br_full_events :: u64
  br_dropped_events :: u64

definition new_bench_result :: bench_result where
  "new_bench_result = \<lparr>br_approach = [], br_events_processed = 0, br_wall_seconds = 0, br_events_per_second = 0,
     br_average_latency_ns = 0, br_p50_latency_ns = 0, br_p99_latency_ns = 0, br_p999_latency_ns = 0,
     br_max_latency_ns = 0, br_cpu_usage_percent = 0, br_average_queue_occupancy = 0,
     br_max_queue_occupancy = 0, br_full_events = 0, br_dropped_events = 0\<rparr>"

text \<open>The conversion of a \<^verbatim>\<open>uint64_t\<close> or \<^verbatim>\<open>size_t\<close> to a double.\<close>

definition to_double :: "u64 \<Rightarrow> rat" where
  "to_double w = dbl (of_nat (unat w))"

text \<open>
  What \<^verbatim>\<open>getrusage\<close> reports: seconds and microseconds of user and of system time, or failure.
\<close>

type_synonym cpu_usage = "((int \<times> int) \<times> (int \<times> int)) option"

definition process_cpu_seconds :: "cpu_usage \<Rightarrow> rat" where
  "process_cpu_seconds usage =
     (case usage of
        None \<Rightarrow> 0
      | Some ((us, uus), (ss, sus)) \<Rightarrow>
          let user = dbl (dbl (of_int us) + dbl (dbl (of_int uus) / 1000000));
              sys = dbl (dbl (of_int ss) + dbl (dbl (of_int sus) / 1000000))
          in dbl (user + sys))"

text \<open>\<^verbatim>\<open>std::nth_element\<close> leaves at the index the value that sorting would put there.\<close>

definition percentile_index :: "nat \<Rightarrow> rat \<Rightarrow> nat" where
  "percentile_index n p = nat (llround (dbl (dbl (p / 100) * dbl (of_nat (n - 1)))))"

definition percentile :: "u64 list \<Rightarrow> rat \<Rightarrow> u64" where
  "percentile vals p = (if vals = [] then 0 else sort vals ! percentile_index (length vals) p)"

definition max_element :: "u64 list \<Rightarrow> u64" where
  "max_element xs = fold max (tl xs) (hd xs)"

definition latency_sum :: "u64 list \<Rightarrow> u64" where
  "latency_sum xs = fold (\<lambda>x acc. acc + x) xs 0"

definition latency_figures :: "u64 list \<Rightarrow> bench_result \<Rightarrow> bench_result" where
  "latency_figures xs r =
     (if xs = [] then r
      else r\<lparr>br_average_latency_ns := dbl (to_double (latency_sum xs) / dbl (of_nat (length xs))),
             br_p50_latency_ns := percentile xs 50,
             br_p99_latency_ns := percentile xs 99,
             br_p999_latency_ns := percentile xs (dbl (999 / 10)),
             br_max_latency_ns := max_element xs\<rparr>)"

text \<open>The sums over the queues: occupancy, samples, maximum, full and dropped events.\<close>

fun add_stats :: "queue_stats \<Rightarrow> u64 \<times> u64 \<times> u64 \<times> u64 \<times> u64 \<Rightarrow> u64 \<times> u64 \<times> u64 \<times> u64 \<times> u64" where
  "add_stats q (occupancy_sum, occupancy_samples, max_occupancy, full_events, dropped_events) =
     (occupancy_sum + qs_occupancy_sum q, occupancy_samples + qs_occupancy_samples q,
      max max_occupancy (qs_max_occupancy q), full_events + qs_full_events q,
      dropped_events + qs_dropped_events q)"

definition queue_figures :: "queue_stats list \<Rightarrow> bench_result \<Rightarrow> bench_result" where
  "queue_figures stats r =
     (case fold add_stats stats (0, 0, 0, 0, 0) of
        (occupancy_sum, occupancy_samples, max_occupancy, full_events, dropped_events) \<Rightarrow>
          r\<lparr>br_average_queue_occupancy :=
              (if occupancy_samples > 0 then dbl (to_double occupancy_sum / to_double occupancy_samples) else 0),
            br_max_queue_occupancy := max_occupancy,
            br_full_events := full_events,
            br_dropped_events := dropped_events\<rparr>)"

definition finalize_result ::
  "string \<Rightarrow> u64 \<Rightarrow> rat \<Rightarrow> rat \<Rightarrow> u64 list \<Rightarrow> queue_stats list \<Rightarrow> bench_result" where
  "finalize_result approach events wall_seconds cpu_delta_seconds latency_ns stats =
     (let r = new_bench_result
                \<lparr>br_approach := approach, br_events_processed := events, br_wall_seconds := wall_seconds,
                 br_events_per_second := (if wall_seconds > 0 then dbl (to_double events / wall_seconds) else 0)\<rparr>;
          r = latency_figures latency_ns r;
          r = r\<lparr>br_cpu_usage_percent :=
                  (if wall_seconds > 0 then dbl (dbl (cpu_delta_seconds / wall_seconds) * 100) else 0)\<rparr>
      in queue_figures stats r)"

section \<open>Text\<close>

text \<open>
  \<^verbatim>\<open>std::fixed << std::setprecision(2)\<close>: the value of the double in decimal, rounded to two
  places, exact ties to even.
\<close>

definition show_fixed2 :: "rat \<Rightarrow> string" where
  "show_fixed2 x =
     (let n = nat (round_even (\<bar>x\<bar> * 100))
      in (if x < 0 then ''-'' else []) @ show_nat (n div 100) @ ''.'' @ show_nat (n mod 100 div 10) @ show_nat (n mod 10))"

definition show_u64 :: "u64 \<Rightarrow> string" where
  "show_u64 w = show_nat (unat w)"

definition raw_header :: string where
  "raw_header = csv_row [''approach'', ''events_processed'', ''events_processed_per_second'', ''average_queue_latency_ns'',
     ''p50_latency_ns'', ''p99_latency_ns'', ''p99_9_latency_ns'', ''max_latency_ns'', ''cpu_usage_percent'',
     ''average_queue_occupancy'', ''max_queue_occupancy'', ''full_events'', ''dropped_events'']"

definition raw_figures :: "bench_result \<Rightarrow> string list" where
  "raw_figures r =
     [show_u64 (br_events_processed r), show_fixed2 (br_events_per_second r), show_fixed2 (br_average_latency_ns r),
      show_u64 (br_p50_latency_ns r), show_u64 (br_p99_latency_ns r), show_u64 (br_p999_latency_ns r),
      show_u64 (br_max_latency_ns r), show_fixed2 (br_cpu_usage_percent r), show_fixed2 (br_average_queue_occupancy r),
      show_u64 (br_max_queue_occupancy r), show_u64 (br_full_events r), show_u64 (br_dropped_events r)]"

definition raw_row :: "bench_result \<Rightarrow> string" where
  "raw_row r = csv_row (csv_escape (br_approach r) # raw_figures r)"

definition write_raw_csv :: "bench_result list \<Rightarrow> string" where
  "write_raw_csv results = raw_header @ newline @ concat (map (\<lambda>r. raw_row r @ newline) results)"

record comparison_row =
  cr_metric :: string
  cr_normal_value :: rat
  cr_spsc_value :: rat
  cr_lower_is_better :: bool
  cr_unit :: string

definition comparison_rows :: "bench_result \<Rightarrow> bench_result \<Rightarrow> comparison_row list" where
  "comparison_rows normal spsc =
     (let row = (\<lambda>metric f lower unit. \<lparr>cr_metric = metric, cr_normal_value = f normal, cr_spsc_value = f spsc,
                    cr_lower_is_better = lower, cr_unit = unit\<rparr>)
      in [row ''events_processed_per_second'' br_events_per_second False ''events/sec'',
          row ''average_queue_latency'' br_average_latency_ns True ''ns'',
          row ''p50_latency'' (to_double \<circ> br_p50_latency_ns) True ''ns'',
          row ''p99_latency'' (to_double \<circ> br_p99_latency_ns) True ''ns'',
          row ''p99_9_latency'' (to_double \<circ> br_p999_latency_ns) True ''ns'',
          row ''max_latency'' (to_double \<circ> br_max_latency_ns) True ''ns'',
          row ''cpu_usage'' br_cpu_usage_percent True ''percent_process_cpu_over_wall'',
          row ''average_queue_occupancy'' br_average_queue_occupancy True ''events'',
          row ''max_queue_occupancy'' (to_double \<circ> br_max_queue_occupancy) True ''events'',
          row ''full_events'' (to_double \<circ> br_full_events) True ''count'',
          row ''dropped_events'' (to_double \<circ> br_dropped_events) True ''count''])"

definition row_delta :: "comparison_row \<Rightarrow> rat" where
  "row_delta row = dbl (cr_spsc_value row - cr_normal_value row)"

definition row_pct :: "comparison_row \<Rightarrow> rat" where
  "row_pct row =
     (if \<bar>cr_normal_value row\<bar> > dbl (1 / 10 ^ 12)
      then dbl (dbl (row_delta row / cr_normal_value row) * 100) else 0)"

definition spsc_better :: "comparison_row \<Rightarrow> bool" where
  "spsc_better row =
     (if cr_lower_is_better row then cr_spsc_value row < cr_normal_value row
      else cr_spsc_value row > cr_normal_value row)"

definition comparison_text :: "comparison_row \<Rightarrow> string" where
  "comparison_text row =
     csv_row [cr_metric row, show_fixed2 (cr_normal_value row), show_fixed2 (cr_spsc_value row),
              show_fixed2 (row_delta row), show_fixed2 (row_pct row), cr_unit row,
              if spsc_better row then ''spsc'' else ''normal_or_tie'']"

definition write_comparison_csv :: "bench_result \<Rightarrow> bench_result \<Rightarrow> string" where
  "write_comparison_csv normal spsc =
     ''metric,normal_queue,spsc_ring_buffer,delta_spsc_minus_normal,pct_change_spsc_vs_normal,unit,better'' @ newline @
     concat (map (\<lambda>row. comparison_text row @ newline) (comparison_rows normal spsc))"

definition print_result :: "bench_result \<Rightarrow> string" where
  "print_result r =
     br_approach r @ '' events='' @ show_u64 (br_events_processed r) @ '' eps='' @ show_fixed2 (br_events_per_second r) @
     '' avg_ns='' @ show_fixed2 (br_average_latency_ns r) @ '' p50_ns='' @ show_u64 (br_p50_latency_ns r) @
     '' p99_ns='' @ show_u64 (br_p99_latency_ns r) @ '' p99_9_ns='' @ show_u64 (br_p999_latency_ns r) @
     '' max_ns='' @ show_u64 (br_max_latency_ns r) @ '' cpu_pct='' @ show_fixed2 (br_cpu_usage_percent r) @
     '' avg_occ='' @ show_fixed2 (br_average_queue_occupancy r) @ '' max_occ='' @ show_u64 (br_max_queue_occupancy r) @
     '' full_events='' @ show_u64 (br_full_events r) @ '' dropped='' @ show_u64 (br_dropped_events r) @ newline"

definition report_line :: "string \<Rightarrow> string \<Rightarrow> string \<Rightarrow> string" where
  "report_line metric normal spsc = ''| '' @ metric @ '' | '' @ normal @ '' | '' @ spsc @ '' |'' @ newline"

definition report_setup :: "u64 \<Rightarrow> u64 \<Rightarrow> nat \<Rightarrow> string" where
  "report_setup events normal_capacity spsc_usable_capacity =
     concat (map (\<lambda>l. l @ newline)
      [''# Queue Pipeline Benchmark Report'', [],
       ''This benchmark compares two ways of moving events through the hot-path pipeline:'', [],
       ''1. `normal_mutex_condition_variable_queue` - bounded queue protected by mutex and condition variables.'',
       ''2. `spsc_lock_free_ring_buffer` - bounded single-producer/single-consumer ring buffers using acquire/release memory ordering.'', [],
       ''## Benchmark setup'', [],
       ''- Events: '' @ show_u64 events,
       ''- Pipeline links: 1'',
       ''- Normal queue capacity: '' @ show_u64 normal_capacity,
       ''- SPSC usable capacity: '' @ show_nat spsc_usable_capacity,
       ''- Latency measured from producer creation timestamp to final sink consumption.'',
       ''- CPU usage is process CPU time divided by wall time, so multi-threaded runs can exceed 100%.'', []])"

definition report_results :: "bench_result \<Rightarrow> bench_result \<Rightarrow> string" where
  "report_results normal spsc =
     (let fixed = (\<lambda>metric f. report_line metric (show_fixed2 (f normal)) (show_fixed2 (f spsc)));
          num = (\<lambda>metric f. report_line metric (show_u64 (f normal)) (show_u64 (f spsc)))
      in ''## Results'' @ newline @ newline @
         ''| Metric | Normal queue | SPSC ring buffer |'' @ newline @ ''|---|---:|---:|'' @ newline @
         fixed ''Events/sec'' br_events_per_second @
         fixed ''Average latency ns'' br_average_latency_ns @
         num ''p50 latency ns'' br_p50_latency_ns @
         num ''p99 latency ns'' br_p99_latency_ns @
         num ''p99.9 latency ns'' br_p999_latency_ns @
         num ''Max latency ns'' br_max_latency_ns @
         fixed ''CPU usage %'' br_cpu_usage_percent @
         fixed ''Average queue occupancy'' br_average_queue_occupancy @
         num ''Max queue occupancy'' br_max_queue_occupancy @
         num ''Full/backpressure events'' br_full_events @
         num ''Dropped events'' br_dropped_events @ newline)"

definition report_reading :: string where
  "report_reading = ''## How to read this'' @ newline @ newline @
     ''The SPSC design is expected to remove mutex and condition-variable overhead in one-to-one pipeline handoffs. '' @
     ''It may use more CPU because hot-path consumers spin instead of sleeping; that tradeoff is common in low-latency systems. '' @
     ''The important metrics to watch are p99/p99.9 latency, throughput, and whether backpressure occurs.'' @ newline"

definition write_markdown_report :: "u64 \<Rightarrow> u64 \<Rightarrow> nat \<Rightarrow> bench_result \<Rightarrow> bench_result \<Rightarrow> string" where
  "write_markdown_report events normal_capacity spsc_usable_capacity normal spsc =
     report_setup events normal_capacity spsc_usable_capacity @ report_results normal spsc @ report_reading"

section \<open>Percentiles\<close>

lemma percentile_index_le:
  assumes "0 \<le> p" and "p \<le> 100" and "n - 1 \<le> 2 ^ 53"
  shows "percentile_index n p \<le> n - 1"
proof -
  have N: "dbl (of_nat (n - 1)) = of_nat (n - 1)" using assms(3) by (rule dbl_nat)
  have one: "dbl (p / 100) \<le> 1" using dbl_le [of "p / 100" 1] representable_int [of 1] assms(2) by simp
  then have "dbl (p / 100) * of_nat (n - 1) \<le> 1 * of_nat (n - 1)" by (intro mult_right_mono) simp_all
  then have "dbl (dbl (p / 100) * of_nat (n - 1)) \<le> of_nat (n - 1)"
    using dbl_mono [of _ "of_nat (n - 1)"] N by simp
  then have "llround (dbl (dbl (p / 100) * of_nat (n - 1))) \<le> int (n - 1)" by (intro llround_le) simp
  then show ?thesis unfolding percentile_index_def N by simp
qed

lemma percentile_index_mono: "0 \<le> p \<Longrightarrow> p \<le> q \<Longrightarrow> percentile_index n p \<le> percentile_index n q"
  unfolding percentile_index_def
  by (intro nat_mono llround_mono dbl_mono mult_right_mono dbl_nonneg mult_nonneg_nonneg) (simp_all add: divide_right_mono)

lemma percentile_in: 
  assumes "vals \<noteq> []" and "length vals \<le> 2 ^ 53" and "0 \<le> p" and "p \<le> 100"
  shows "percentile vals p \<in> set vals"
proof -
  have "percentile_index (length vals) p < length vals"
    using percentile_index_le [of p "length vals"] assms by (cases vals) auto
  then have "sort vals ! percentile_index (length vals) p \<in> set (sort vals)" by (intro nth_mem) simp
  then show ?thesis using assms(1) by (simp add: percentile_def)
qed

lemma percentile_mono:
  assumes "vals \<noteq> []" and "length vals \<le> 2 ^ 53" and "0 \<le> p" and "p \<le> q" and "q \<le> 100"
  shows "percentile vals p \<le> percentile vals q"
proof -
  have "percentile_index (length vals) q < length vals"
    using percentile_index_le [of q "length vals"] assms by (cases vals) auto
  then show ?thesis using percentile_index_mono [OF assms(3,4)] assms(1)
    by (simp add: percentile_def sorted_nth_mono)
qed

lemma max_element_Max: "xs \<noteq> [] \<Longrightarrow> max_element xs = Max (set xs)"
  by (cases xs) (simp_all add: max_element_def Max.set_eq_fold [symmetric])

lemma percentile_exact:
  assumes "vals \<noteq> []" and "sort vals = s" and "percentile_index (length vals) p = k"
  shows "percentile vals p = s ! k"
  using assms by (simp add: percentile_def)

lemma p999_bounds: "99 \<le> dbl (999 / 10)" "dbl (999 / 10) \<le> 100"
  using dbl_ge [of 99 "999 / 10"] dbl_le [of "999 / 10" 100] representable_int [of 99] representable_int [of 100] by simp_all

section \<open>The average\<close>

lemma latency_sum_eq: "unat (latency_sum xs) = sum_list (map unat xs)" if "sum_list (map unat xs) < 2 ^ 64"
proof -
  have "fold (\<lambda>x acc. acc + x) xs a = a + of_nat (sum_list (map unat xs))" for a :: u64 and xs :: "u64 list"
    by (induction xs arbitrary: a) (simp_all add: add.assoc)
  then have "latency_sum xs = of_nat (sum_list (map unat xs))" by (simp add: latency_sum_def)
  then show ?thesis using that by (simp add: unat_of_nat)
qed

lemma average_between:
  assumes "xs \<noteq> []" and "length xs \<le> 2 ^ 53" and "sum_list (map unat xs) \<le> 2 ^ 53"
    and "\<forall>x \<in> set xs. lo \<le> x \<and> x \<le> hi" and "unat hi \<le> 2 ^ 53"
  shows "of_nat (unat lo) \<le> dbl (to_double (latency_sum xs) / dbl (of_nat (length xs)))"
    and "dbl (to_double (latency_sum xs) / dbl (of_nat (length xs))) \<le> of_nat (unat hi)"
proof -
  let ?s = "sum_list (map unat xs)" and ?n = "length xs"
  have s: "to_double (latency_sum xs) = of_nat ?s" using assms(3) latency_sum_eq [of xs] by (simp add: to_double_def dbl_nat)
  have n: "dbl (of_nat ?n) = of_nat ?n" "0 < ?n" using assms(1,2) by (simp_all add: dbl_nat)
  have "?n * unat lo \<le> ?s \<and> ?s \<le> ?n * unat hi" using assms(4)
    by (induction xs) (auto simp: word_le_nat_alt)
  then have "of_nat (?n * unat lo) \<le> (of_nat ?s :: rat)" "(of_nat ?s :: rat) \<le> of_nat (?n * unat hi)"
    by (simp_all only: of_nat_le_iff)
  then have q: "of_nat (unat lo) \<le> of_nat ?s / (of_nat ?n :: rat)" "of_nat ?s / (of_nat ?n :: rat) \<le> of_nat (unat hi)"
    using n(2) by (simp_all add: le_divide_eq divide_le_eq mult.commute)
  have "lo \<le> hi" using assms(1,4) by (cases xs) auto
  then have "unat lo \<le> 2 ^ 53" using assms(5) by (simp add: word_le_nat_alt)
  then show "of_nat (unat lo) \<le> dbl (to_double (latency_sum xs) / dbl (of_nat ?n))"
    "dbl (to_double (latency_sum xs) / dbl (of_nat ?n)) \<le> of_nat (unat hi)"
    using dbl_mono [OF q(1)] dbl_mono [OF q(2)] unfolding s n(1) dbl_nat [OF assms(5)] dbl_nat [OF \<open>unat lo \<le> 2 ^ 53\<close>] by blast+
qed

section \<open>The rows of the raw file\<close>

text \<open>A written field that the splitter reads as \<open>x\<close>.\<close>

definition reads_as :: "string \<Rightarrow> string \<Rightarrow> bool" where
  "reads_as w x \<longleftrightarrow> (\<forall>rest cols. rest = [] \<or> hd rest = CHR '','' \<longrightarrow>
     split_csv_loop (w @ rest) [] False cols = split_csv_loop rest x False cols)"

lemma reads_as_escape: "reads_as (csv_escape x) x"
  using bench_writer.put_read by (simp add: reads_as_def)

lemma reads_as_plain: "quote_char \<notin> set x \<Longrightarrow> CHR '','' \<notin> set x \<Longrightarrow> reads_as x x"
  by (simp add: reads_as_def split_csv_plain)

lemma split_row_loop:
  "list_all2 reads_as (w # ws) (x # xs) \<Longrightarrow> split_csv_loop (csv_row (w # ws)) [] False cols = cols @ map trim (x # xs)"
proof (induction ws arbitrary: w x xs cols)
  case Nil
  then show ?case by (auto simp: reads_as_def dest: spec [of _ "[]"])
next
  case (Cons v ws)
  then obtain y ys where xs: "xs = y # ys" by (cases xs) auto
  have "split_csv_loop (csv_row (w # v # ws)) [] False cols = split_csv_loop (w @ '','' @ csv_row (v # ws)) [] False cols" by simp
  also have "\<dots> = split_csv_loop ('','' @ csv_row (v # ws)) x False cols" using Cons.prems by (simp add: reads_as_def)
  also have "\<dots> = split_csv_loop (csv_row (v # ws)) [] False (cols @ [trim x])" by simp
  also have "\<dots> = cols @ map trim (x # xs)" using Cons.IH [of v y ys "cols @ [trim x]"] Cons.prems by (simp add: xs)
  finally show ?case .
qed

definition number_char :: "char \<Rightarrow> bool" where
  "number_char c \<longleftrightarrow> is_digit c \<or> c = CHR ''.'' \<or> c = CHR ''-''"

lemma number_char_plain: "list_all number_char x \<Longrightarrow> quote_char \<notin> set x \<and> CHR '','' \<notin> set x \<and> trim x = x"
proof -
  assume x: "list_all number_char x"
  have "\<not> number_char quote_char" "\<not> number_char CHR '',''" by (simp_all add: number_char_def is_digit_def)
  moreover have "trim x = x"
  proof (cases "x = []")
    case False
    have "\<not> isspace c" if "c \<in> set x" for c
      using that x by (auto simp: list_all_iff number_char_def isspace_def is_digit_def)
    with False show ?thesis by (intro trim_id) auto
  qed simp
  ultimately show ?thesis using x by (auto simp: list_all_iff)
qed

lemma number_char_show_nat: "list_all number_char (show_nat n)"
  using show_nat_digits by (auto simp: list_all_iff number_char_def)

lemma number_char_fixed2: "list_all number_char (show_fixed2 x)"
  using number_char_show_nat by (simp add: show_fixed2_def Let_def number_char_def)

lemma raw_figures_plain: "list_all (list_all number_char) (raw_figures r)"
  by (simp add: raw_figures_def show_u64_def number_char_show_nat number_char_fixed2)

lemma raw_row_fields: "split_csv (raw_row r) = trim (br_approach r) # raw_figures r"
proof -
  have plain: "list_all (\<lambda>x. reads_as x x \<and> trim x = x) (raw_figures r)"
    using raw_figures_plain [of r] number_char_plain reads_as_plain unfolding list_all_iff by blast
  then have "list_all2 reads_as (csv_escape (br_approach r) # raw_figures r) (br_approach r # raw_figures r)"
    by (simp add: reads_as_escape list.rel_refl_strong list_all_iff)
  from split_row_loop [OF this, of "[]"] plain show ?thesis
    by (simp add: split_csv_def raw_row_def list_all_iff map_idI)
qed

end
