(* ===== verification/Queue_Bench.thy ===== *)
theory Queue_Bench
  imports Bench_Report
begin

text \<open>
  The queue benchmark as a program: \<open>run_normal_queue_pipeline\<close> and \<open>run_spsc_pipeline\<close> run the
  threads of a pipeline until both have ended and sum up the run; \<open>main\<close> reads its
  arguments, runs both and reports. The schedules of the threads, the readings of the clock
  and of the processor time, and the file system are arguments.
\<close>

section \<open>The program\<close>

definition elapsed_seconds :: "u64 \<Rightarrow> u64 \<Rightarrow> rat" where
  "elapsed_seconds wall_start wall_end = dbl (to_double (wall_end - wall_start) / 1000000000)"

text \<open>What is done when both threads have joined; \<open>None\<close> while one is still running.\<close>

definition joined_result :: "string \<Rightarrow> (nat \<Rightarrow> u64) \<Rightarrow> cpu_usage \<Rightarrow> cpu_usage \<Rightarrow> u64 \<Rightarrow> 'q pipeline \<Rightarrow> bench_result option" where
  "joined_result approach clock cpu_before cpu_after events s =
     (if pl_producer s = ProducerDone \<and> pl_sink s = SinkDone
      then Some (finalize_result approach events (elapsed_seconds (clock 0) (clock (Suc (pl_ticks s))))
             (dbl (process_cpu_seconds cpu_after - process_cpu_seconds cpu_before)) (pl_latencies s) [pl_stats s])
      else None)"

definition run_normal_queue_pipeline ::
  "(nat \<Rightarrow> u64) \<Rightarrow> cpu_usage \<Rightarrow> cpu_usage \<Rightarrow> bool list \<Rightarrow> u64 \<Rightarrow> u64 \<Rightarrow> bench_result option" where
  "run_normal_queue_pipeline clock cpu_before cpu_after sched events capacity =
     joined_result ''normal_mutex_condition_variable_queue'' clock cpu_before cpu_after events
       (run_normal (\<lambda>n. clock (Suc n)) events capacity sched)"

definition run_spsc_pipeline ::
  "(nat \<Rightarrow> u64) \<Rightarrow> cpu_usage \<Rightarrow> cpu_usage \<Rightarrow> bool list \<Rightarrow> nat \<Rightarrow> u64 \<Rightarrow> bench_result option" where
  "run_spsc_pipeline clock cpu_before cpu_after sched capacity events =
     joined_result ''spsc_lock_free_ring_buffer'' clock cpu_before cpu_after events
       (run_spsc (\<lambda>n. clock (Suc n)) events capacity sched)"

text \<open>\<^verbatim>\<open>operator/\<close> and \<^verbatim>\<open>operator<<\<close> of \<^verbatim>\<open>std::filesystem::path\<close>.\<close>

definition path_join :: "string \<Rightarrow> string \<Rightarrow> string" where
  "path_join dir file = (if dir = [] \<or> last dir = CHR ''/'' then dir @ file else dir @ ''/'' @ file)"

definition quoted :: "string \<Rightarrow> string" where
  "quoted p = [quote_char] @ concat (map (\<lambda>c. if c = quote_char \<or> c = CHR 0x5C then [CHR 0x5C, c] else [c]) p) @ [quote_char]"

definition kSpscRawCapacity :: nat where
  "kSpscRawCapacity = 8192"

record bench_env =
  be_mkdir :: "string \<Rightarrow> bool"
  be_normal_clock :: "nat \<Rightarrow> u64"
  be_spsc_clock :: "nat \<Rightarrow> u64"
  be_cpu :: "nat \<Rightarrow> cpu_usage"
  be_normal_schedule :: "bool list"
  be_spsc_schedule :: "bool list"

datatype bench_outcome = Bad_Argument parse_error | No_Directory | Running | Reported string "(string \<times> string) list"

definition bench_output :: "string \<Rightarrow> u64 \<Rightarrow> u64 \<Rightarrow> bench_result \<Rightarrow> bench_result \<Rightarrow> bench_outcome" where
  "bench_output out_dir events normal_capacity normal spsc =
     (let raw_csv = path_join out_dir ''queue_pipeline_benchmark.csv'';
          comparison_csv = path_join out_dir ''queue_pipeline_comparison.csv'';
          report_md = path_join out_dir ''queue_pipeline_benchmark_report.md''
      in Reported
           (''Running normal mutex/condition-variable pipeline...'' @ newline @ print_result normal @
            ''Running SPSC ring-buffer pipeline...'' @ newline @ print_result spsc @
            ''Wrote '' @ quoted raw_csv @ newline @ ''Wrote '' @ quoted comparison_csv @ newline @
            ''Wrote '' @ quoted report_md @ newline)
           [(raw_csv, write_raw_csv [normal, spsc]),
            (comparison_csv, write_comparison_csv normal spsc),
            (report_md, write_markdown_report events normal_capacity (usable_capacity kSpscRawCapacity) normal spsc)])"

definition queue_bench_main :: "bench_env \<Rightarrow> string list \<Rightarrow> bench_outcome" where
  "queue_bench_main env argv =
     (case parse_u64_arg argv ''--events'' 500000 of
        Inl e \<Rightarrow> Bad_Argument e
      | Inr events \<Rightarrow>
     (case parse_u64_arg argv ''--normal-capacity'' 8192 of
        Inl e \<Rightarrow> Bad_Argument e
      | Inr normal_capacity \<Rightarrow>
          let out_dir = parse_string_arg argv ''--out'' ''data/out/queue_benchmark'' in
          if \<not> be_mkdir env out_dir then No_Directory
          else case run_normal_queue_pipeline (be_normal_clock env) (be_cpu env 0) (be_cpu env 1)
                      (be_normal_schedule env) events normal_capacity of
                 None \<Rightarrow> Running
               | Some normal \<Rightarrow>
                   (case run_spsc_pipeline (be_spsc_clock env) (be_cpu env 2) (be_cpu env 3)
                           (be_spsc_schedule env) kSpscRawCapacity events of
                      None \<Rightarrow> Running
                    | Some spsc \<Rightarrow> bench_output out_dir events normal_capacity normal spsc)))"

section \<open>Occupancy\<close>

text \<open>The largest occupancy seen is one that a queue had.\<close>

lemma wait_producer_observes:
  "qs_max_occupancy (pl_stats (wait_producer_step push size_of clock events s)) \<le> max (qs_max_occupancy (pl_stats s)) (size_of (pl_queue s))"
  by (auto simp: wait_producer_step_def observe_def count_full_def split: producer_pc.splits prod.splits bool.splits)

lemma spin_producer_observes:
  "qs_max_occupancy (pl_stats (spin_producer_step push size_of clock events s)) \<le> max (qs_max_occupancy (pl_stats s)) (size_of (pl_queue s))"
  by (auto simp: spin_producer_step_def observe_def count_full_def split: producer_pc.splits prod.splits bool.splits)

lemma sink_observes:
  "qs_max_occupancy (pl_stats (sink_step pop size_of clock s)) \<le> max (qs_max_occupancy (pl_stats s)) (size_of (pl_queue s))"
  by (auto simp: sink_step_def observe_def split: sink_pc.splits prod.splits option.splits)

context pipeline_fifo
begin

lemma run_occupancy:
  assumes prod: "\<And>s. pipe_inv events s \<Longrightarrow> produced events s (producer s)"
    and obs: "\<And>s. qs_max_occupancy (pl_stats (producer s)) \<le> max (qs_max_occupancy (pl_stats s)) (size_of (pl_queue s))"
    and size: "\<And>q. inv q \<Longrightarrow> unat (size_of q) \<le> cap"
    and "pipe_inv events s" and "unat (qs_max_occupancy (pl_stats s)) \<le> cap"
  shows "unat (qs_max_occupancy (pl_stats (run_schedule producer (sink_step pop size_of clock) sched s))) \<le> cap"
  using assms(4,5)
proof (induction sched arbitrary: s)
  case (Cons b sched)
  let ?s = "if b then producer s else sink_step pop size_of clock s"
  have ok: "pipe_inv events ?s" using prod [OF Cons.prems(1)] sink_ok [OF Cons.prems(1)] by (auto simp: produced_def)
  have "unat (size_of (pl_queue s)) \<le> cap" using size Cons.prems(1) by (simp add: pipe_inv_def)
  moreover have "qs_max_occupancy (pl_stats ?s) \<le> max (qs_max_occupancy (pl_stats s)) (size_of (pl_queue s))"
    using obs [of s] sink_observes [of pop size_of clock s] by simp
  ultimately have "unat (qs_max_occupancy (pl_stats ?s)) \<le> cap"
    using Cons.prems(2) by (auto simp: word_le_nat_alt max_def split: if_splits)
  from Cons.IH [OF ok this] show ?case by (cases b) (simp_all add: run_schedule_def)
qed (simp add: run_schedule_def)

end

lemma spsc_occupancy:
  assumes "cap_ok cap"
  shows "unat (qs_max_occupancy (pl_stats (run_spsc clock events cap sched))) \<le> usable_capacity cap"
proof -
  obtain n where n: "cap = n + 2" "spsc_pipe.pipe_inv n events (new_pipeline (new_ring cap))"
    using spsc_start [OF assms] by blast
  have size: "unat (ring_size_approx q) \<le> usable_capacity (n + 2)" if "ring_inv (n + 2) q" for q :: "pipeline_event ring"
    using spsc.bound [OF that] by (simp add: ring_list_def)
  show ?thesis unfolding run_spsc_def n(1)
    by (rule spsc_pipe.run_occupancy [OF spsc_pipe.spin_producer_ok spin_producer_observes size n(2) [unfolded n(1)]])
      (simp_all add: new_pipeline_def new_queue_stats_def)
qed

lemma normal_occupancy:
  assumes "cap \<noteq> 0"
  shows "unat (qs_max_occupancy (pl_stats (run_normal clock events cap sched))) \<le> unat cap"
proof -
  obtain n where n: "unat cap = n + 1" "blocking_pipe.pipe_inv n events (new_pipeline (new_blocking_queue cap))"
    using normal_start [OF assms] by blast
  have size: "unat (bq_size_approx q) \<le> n + 1" if "bq_inv (n + 1) q" for q :: "pipeline_event blocking_queue"
  proof -
    have "unat (of_nat k :: u64) \<le> k" for k by (simp add: unat_of_nat)
    then show ?thesis using that by (simp add: bq_inv_def bq_size_approx_def) (meson le_trans)
  qed
  show ?thesis unfolding run_normal_def n(1)
    by (rule blocking_pipe.run_occupancy [OF blocking_pipe.wait_producer_ok wait_producer_observes size n(2)])
      (simp_all add: new_pipeline_def new_queue_stats_def)
qed

section \<open>A queue without room\<close>

text \<open>With capacity zero the producer waits for ever at its first event.\<close>

definition stuck :: "pipeline_event blocking_queue pipeline \<Rightarrow> bool" where
  "stuck s \<longleftrightarrow> pl_queue s = new_blocking_queue 0 \<and> pl_sink s = Popping \<and> (\<exists>i ev. pl_producer s \<in> {Making i, Pushing ev, Refused ev})"

lemma stuck_steps:
  assumes "stuck s"
  shows "stuck (wait_producer_step bq_push size_of clock events s)" and "stuck (sink_step bq_pop size_of clock s)"
  using assms by (auto simp: stuck_def wait_producer_step_def sink_step_def bq_push_def bq_pop_def bq_full_def new_blocking_queue_def)

lemma no_room_never_ends: "stuck (run_normal clock events 0 sched)"
proof -
  have "stuck (run_schedule (wait_producer_step bq_push bq_size_approx clock events) (sink_step bq_pop bq_size_approx clock) sched s)"
    if "stuck s" for s
    using that by (induction sched arbitrary: s) (simp_all add: run_schedule_def stuck_steps)
  moreover have "stuck (new_pipeline (new_blocking_queue 0))" by (simp add: stuck_def new_pipeline_def)
  ultimately show ?thesis by (simp add: run_normal_def)
qed

section \<open>The figures are sound\<close>

text \<open>
  The figures \<open>r\<close> of a run of \<open>events\<close> events with latencies \<open>xs\<close> through a queue of capacity \<open>K\<close>.
\<close>

definition figures_sound :: "nat \<Rightarrow> u64 \<Rightarrow> u64 list \<Rightarrow> bench_result \<Rightarrow> bool" where
  "figures_sound K events xs r \<longleftrightarrow>
     length xs = unat events \<and> br_events_processed r = events \<and> br_dropped_events r = 0 \<and>
     unat (br_max_queue_occupancy r) \<le> K \<and>
     br_p50_latency_ns r \<le> br_p99_latency_ns r \<and> br_p99_latency_ns r \<le> br_p999_latency_ns r \<and>
     br_p999_latency_ns r \<le> br_max_latency_ns r \<and>
     (xs \<noteq> [] \<longrightarrow> {br_p50_latency_ns r, br_p99_latency_ns r, br_p999_latency_ns r} \<subseteq> set xs \<and>
        br_max_latency_ns r = Max (set xs)) \<and>
     (xs \<noteq> [] \<and> sum_list (map unat xs) \<le> 2 ^ 53 \<longrightarrow>
        of_nat (unat (Min (set xs))) \<le> br_average_latency_ns r \<and> br_average_latency_ns r \<le> of_nat (unat (Max (set xs))))"

lemma finalize_fields:
  "br_events_processed (finalize_result a events w c xs [st]) = events"
  "br_dropped_events (finalize_result a events w c xs [st]) = qs_dropped_events st"
  "br_max_queue_occupancy (finalize_result a events w c xs [st]) = qs_max_occupancy st"
  "br_p50_latency_ns (finalize_result a events w c xs [st]) = (if xs = [] then 0 else percentile xs 50)"
  "br_p99_latency_ns (finalize_result a events w c xs [st]) = (if xs = [] then 0 else percentile xs 99)"
  "br_p999_latency_ns (finalize_result a events w c xs [st]) = (if xs = [] then 0 else percentile xs (dbl (999 / 10)))"
  "br_max_latency_ns (finalize_result a events w c xs [st]) = (if xs = [] then 0 else max_element xs)"
  "xs \<noteq> [] \<Longrightarrow> br_average_latency_ns (finalize_result a events w c xs [st]) =
     dbl (to_double (latency_sum xs) / dbl (of_nat (length xs)))"
  by (simp_all add: finalize_result_def latency_figures_def queue_figures_def new_bench_result_def Let_def max_def)

lemma element_le_sum: "x \<in> set xs \<Longrightarrow> unat x \<le> sum_list (map unat xs)"
  by (induction xs) auto

lemma finalize_sound:
  assumes len: "length xs = unat events" "unat events \<le> 2 ^ 53" and "qs_dropped_events st = 0" and "unat (qs_max_occupancy st) \<le> K"
  shows "figures_sound K events xs (finalize_result a events w c xs [st])"
proof (cases "xs = []")
  case False
  have n: "length xs \<le> 2 ^ 53" using len by simp
  note mono = percentile_mono [OF False n] and member = percentile_in [OF False n]
  have p: "percentile xs 50 \<le> percentile xs 99" "percentile xs 99 \<le> percentile xs (dbl (999 / 10))"
    using p999_bounds by (auto intro!: mono)
  have m: "percentile xs 50 \<in> set xs" "percentile xs 99 \<in> set xs" "percentile xs (dbl (999 / 10)) \<in> set xs"
    using p999_bounds by (auto intro!: member)
  have mx: "max_element xs = Max (set xs)" using False by (rule max_element_Max)
  have top: "percentile xs (dbl (999 / 10)) \<le> Max (set xs)" using m(3) by simp
  have "unat (Max (set xs)) \<le> sum_list (map unat xs)" using False by (intro element_le_sum) simp
  then have "of_nat (unat (Min (set xs))) \<le> dbl (to_double (latency_sum xs) / dbl (of_nat (length xs))) \<and>
      dbl (to_double (latency_sum xs) / dbl (of_nat (length xs))) \<le> of_nat (unat (Max (set xs)))"
    if "sum_list (map unat xs) \<le> 2 ^ 53"
    using average_between [OF False n that, of "Min (set xs)" "Max (set xs)"] that by auto
  with p m mx top False assms show ?thesis unfolding figures_sound_def finalize_fields finalize_fields(8) [OF False] by simp
qed (use assms in \<open>simp add: figures_sound_def finalize_fields\<close>)

lemma joined_sound:
  assumes "pipeline_sound events s" and "unat (qs_max_occupancy (pl_stats s)) \<le> K" and "unat events \<le> 2 ^ 53"
    and "joined_result a clock c1 c2 events s = Some r"
  shows "\<exists>xs. figures_sound K events xs r"
proof -
  have "pl_sink s = SinkDone" and r: "r = finalize_result a events (elapsed_seconds (clock 0) (clock (Suc (pl_ticks s))))
      (dbl (process_cpu_seconds c2 - process_cpu_seconds c1)) (pl_latencies s) [pl_stats s]"
    using assms(4) by (auto simp: joined_result_def split: if_splits)
  then have "length (pl_latencies s) = unat events" "qs_dropped_events (pl_stats s) = 0"
    using assms(1) by (auto simp: pipeline_sound_def)
  from finalize_sound [OF this(1) assms(3) this(2) assms(2)] show ?thesis unfolding r by blast
qed

lemma joined_iff: "joined_result a clock c1 c2 events s \<noteq> None \<longleftrightarrow> pipeline_finished s"
  by (simp add: joined_result_def pipeline_finished_def)

lemma normal_result:
  assumes "unat events \<le> 2 ^ 53" and "run_normal_queue_pipeline clock c1 c2 sched events cap = Some r"
  shows "cap \<noteq> 0 \<and> (\<exists>xs. figures_sound (unat cap) events xs r)"
proof
  let ?s = "run_normal (\<lambda>n. clock (Suc n)) events cap sched"
  have j: "joined_result ''normal_mutex_condition_variable_queue'' clock c1 c2 events ?s = Some r"
    using assms(2) by (simp add: run_normal_queue_pipeline_def)
  show cap: "cap \<noteq> 0"
  proof
    assume "cap = 0"
    then have "stuck ?s" using no_room_never_ends by simp
    moreover have "pipeline_finished ?s" using j joined_iff by (metis option.distinct(1))
    ultimately show False by (auto simp: stuck_def pipeline_finished_def)
  qed
  from cap obtain n where "blocking_pipe.pipe_inv n events ?s" by (rule normal_run)
  then have "pipeline_sound events ?s" by (rule blocking_pipe.pipe_sound)
  from joined_sound [OF this normal_occupancy [OF cap] assms(1) j] show "\<exists>xs. figures_sound (unat cap) events xs r" .
qed

lemma spsc_result:
  assumes "unat events \<le> 2 ^ 53" and "cap_ok cap" and "run_spsc_pipeline clock c1 c2 sched cap events = Some r"
  shows "\<exists>xs. figures_sound (usable_capacity cap) events xs r"
proof -
  let ?s = "run_spsc (\<lambda>n. clock (Suc n)) events cap sched"
  from assms(2) obtain n where "spsc_pipe.pipe_inv n events ?s" by (rule spsc_run)
  then have "pipeline_sound events ?s" by (rule spsc_pipe.pipe_sound)
  from joined_sound [OF this spsc_occupancy [OF assms(2)] assms(1)] assms(3) show ?thesis
    by (simp add: run_spsc_pipeline_def)
qed

lemma fair_runs_end:
  "cap \<noteq> 0 \<Longrightarrow> run_normal_queue_pipeline clock c1 c2 (rounds (12 * (unat events + 1))) events cap \<noteq> None"
  "cap_ok c \<Longrightarrow> run_spsc_pipeline clock c1 c2 (rounds (12 * (unat events + 1))) c events \<noteq> None"
  unfolding run_normal_queue_pipeline_def run_spsc_pipeline_def joined_iff
  by (erule normal_run, assumption) (erule spsc_run, assumption)

lemma raw_capacity_ok: "cap_ok kSpscRawCapacity"
  unfolding cap_ok_def kSpscRawCapacity_def by (rule exI [of _ 13]) simp

section \<open>Properties\<close>



end
