(* ===== verification/Pipeline_Bench.thy ===== *)
theory Pipeline_Bench
  imports Book_Manager Strategy Latency
begin

text \<open>
  \<^verbatim>\<open>bench/bench_pipeline.cpp\<close>: ten thousand rounds of book update and strategy, timed with
  \<open>StageTimer\<close>. The clock is an argument, a reading per call. \<open>None\<close> is the exception of
  \<^verbatim>\<open>value()\<close> on a quote that is not there. The program drops its decisions; the model keeps them in
  the history \<open>pb_decisions\<close>, so that the property can say what is timed.
\<close>

section \<open>The program\<close>

record pipeline_bench =
  pb_books :: book_manager
  pb_latency :: latency_data
  pb_ticks :: nat
  pb_decisions :: "strategy_decision list"

text \<open>A block under a \<open>StageTimer\<close>: the constructor and the destructor read the clock.\<close>

definition stage_timer ::
  "(nat \<Rightarrow> u64) \<Rightarrow> string \<Rightarrow> (pipeline_bench \<Rightarrow> pipeline_bench) \<Rightarrow> pipeline_bench \<Rightarrow> pipeline_bench" where
  "stage_timer clock stage body w =
     (let start = clock (pb_ticks w);
          w1 = body (w\<lparr>pb_ticks := Suc (pb_ticks w)\<rparr>);
          ns = clock (pb_ticks w1) - start
      in w1\<lparr>pb_ticks := Suc (pb_ticks w1), pb_latency := lr_record stage ns (pb_latency w1)\<rparr>)"

definition bench_costs :: cost_model where
  "bench_costs = \<lparr>cm_fees_paise_per_share = 5, cm_taxes_paise_per_share = 5, cm_slippage_buffer_paise = 5,
     cm_latency_buffer_paise = 5, cm_hedge_risk_buffer_paise = 10, cm_min_net_edge_paise = 5\<rparr>"

definition bench_ts :: "nat \<Rightarrow> u64" where
  "bench_ts i = 1000000000 + of_nat i * 1000"

definition bench_event :: "nat \<Rightarrow> venue \<Rightarrow> u32 \<Rightarrow> nat \<Rightarrow> side \<Rightarrow> i64 \<Rightarrow> book_event" where
  "bench_event i v token oid sd px =
     \<lparr>be_ts_exchange_ns = bench_ts i, be_ts_ingest_ns = bench_ts i, be_venue = v, be_instrument_id = 1,
      be_native_token = token, be_event_type = EvAdd, be_order_id = of_nat (oid + i), be_side = sd,
      be_price_paise = px, be_qty = 10, be_native_payload = []\<rparr>"

definition bench_events :: "nat \<Rightarrow> book_event list" where
  "bench_events i =
     [bench_event i NSE 1594 100000 Buy 110050, bench_event i NSE 1594 200000 Sell 110080,
      bench_event i BSE 500209 300000 Buy 109950, bench_event i BSE 500209 400000 Sell 110000]"

definition bench_iteration :: "(nat \<Rightarrow> u64) \<Rightarrow> nat \<Rightarrow> pipeline_bench \<Rightarrow> pipeline_bench option" where
  "bench_iteration clock i w =
     (let w1 = stage_timer clock ''book_update'' (\<lambda>w. w\<lparr>pb_books := bm_replay (bench_events i) (pb_books w)\<rparr>) w
      in case (bm_quote NSE 1 (bench_ts i) (pb_books w1), bm_quote BSE 1 (bench_ts i) (pb_books w1)) of
           (Some nse, Some bse) \<Rightarrow>
             Some (stage_timer clock ''strategy''
               (\<lambda>w. w\<lparr>pb_decisions := pb_decisions w @ [evaluate default_strategy_config nse bse bench_costs (bench_ts i)]\<rparr>) w1)
         | _ \<Rightarrow> None)"

fun bench_loop :: "(nat \<Rightarrow> u64) \<Rightarrow> nat list \<Rightarrow> pipeline_bench \<Rightarrow> pipeline_bench option" where
  "bench_loop clock [] w = Some w"
| "bench_loop clock (i # is) w =
     (case bench_iteration clock i w of None \<Rightarrow> None | Some w' \<Rightarrow> bench_loop clock is w')"

definition new_pipeline_bench :: pipeline_bench where
  "new_pipeline_bench = \<lparr>pb_books = new_book_manager, pb_latency = lr_clear [], pb_ticks = 0, pb_decisions = []\<rparr>"

definition pipeline_bench_main :: "(latency_data \<Rightarrow> latency_data) \<Rightarrow> (nat \<Rightarrow> u64) \<Rightarrow> string option" where
  "pipeline_bench_main ho clock =
     (case bench_loop clock [0..<10000] new_pipeline_bench of
        None \<Rightarrow> None
      | Some w \<Rightarrow> Some (summary_csv ho (pb_latency w)))"

section \<open>The books\<close>

text \<open>
  A book that has seen \<open>n\<close> bids at \<open>bp\<close> with ids from \<open>b0\<close> on and \<open>m\<close> asks at \<open>ap\<close> with ids from \<open>a0\<close> on.
\<close>

definition stacked :: "i64 \<Rightarrow> nat \<Rightarrow> i64 \<Rightarrow> nat \<Rightarrow> nat \<Rightarrow> nat \<Rightarrow> order_book \<Rightarrow> bool" where
  "stacked bp b0 ap a0 n m b \<longleftrightarrow>
     ob_bids b = (if n = 0 then [] else [(bp, 10 * int n)]) \<and>
     ob_asks b = (if m = 0 then [] else [(ap, 10 * int m)]) \<and>
     (\<forall>oid. map_of (ob_orders b) oid \<noteq> None \<longrightarrow> (\<exists>j < n. oid = of_nat (b0 + j)) \<or> (\<exists>j < m. oid = of_nat (a0 + j)))"

definition book_params :: "i64 \<Rightarrow> nat \<Rightarrow> i64 \<Rightarrow> nat \<Rightarrow> bool" where
  "book_params bp b0 ap a0 \<longleftrightarrow> 0 < bp \<and> 0 < ap \<and> 0 < b0 \<and> b0 + 10000 \<le> a0 \<and> a0 \<le> 500000"

lemma small_id_eq: "x < 600000 \<Longrightarrow> y < 600000 \<Longrightarrow> (of_nat x :: u64) = of_nat y \<longleftrightarrow> x = y"
  by (simp add: word_unat_eq_iff unat_of_nat)

lemma of_nat_id_pos: "0 < x \<Longrightarrow> x < 600000 \<Longrightarrow> (of_nat x :: u64) \<noteq> 0"
  using small_id_eq [of x 0] by simp

lemma fresh_add:
  assumes "map_of (ob_orders b) oid = None" and "oid \<noteq> 0" and "0 < px" and "sd = Buy \<or> sd = Sell"
  shows "book_add oid sd px 10 b = add_to_level sd px 10
    (b\<lparr>ob_orders := AList.update oid \<lparr>ro_side = sd, ro_price_paise = px, ro_qty = 10\<rparr> (ob_orders b)\<rparr>)"
  using assms by (auto simp: book_add_def Let_def)

lemma stacked_fresh:
  assumes "stacked bp b0 ap a0 n m b" and "book_params bp b0 ap a0" and "n \<le> 10000" and "m \<le> 10000"
  shows "n < 10000 \<Longrightarrow> map_of (ob_orders b) (of_nat (b0 + n)) = None" and "m < 10000 \<Longrightarrow> map_of (ob_orders b) (of_nat (a0 + m)) = None"
proof -
  have used: "(\<exists>j < n. oid = of_nat (b0 + j)) \<or> (\<exists>j < m. oid = of_nat (a0 + j))" if "map_of (ob_orders b) oid \<noteq> None" for oid
    using assms(1) that unfolding stacked_def by blast
  have "\<not> ((\<exists>j < n. (of_nat (b0 + n) :: u64) = of_nat (b0 + j)) \<or> (\<exists>j < m. (of_nat (b0 + n) :: u64) = of_nat (a0 + j)))" if "n < 10000"
    using that assms(2-4) by (auto simp: book_params_def small_id_eq simp del: of_nat_add)
  then show "n < 10000 \<Longrightarrow> map_of (ob_orders b) (of_nat (b0 + n)) = None" using used by blast
  have "\<not> ((\<exists>j < n. (of_nat (a0 + m) :: u64) = of_nat (b0 + j)) \<or> (\<exists>j < m. (of_nat (a0 + m) :: u64) = of_nat (a0 + j)))" if "m < 10000"
    using that assms(2-4) by (auto simp: book_params_def small_id_eq simp del: of_nat_add)
  then show "m < 10000 \<Longrightarrow> map_of (ob_orders b) (of_nat (a0 + m)) = None" using used by blast
qed

lemma ten_more: "k < 10000 \<Longrightarrow> wrap64 (10 * int k + 10) = 10 * int (Suc k)"
  by (intro trans [OF wrap64_id]) (simp_all add: in_i64_def)

lemmas bench_add_simps = stacked_def book_params_def book_apply_def bench_event_def Let_def fresh_add add_to_level_def
  lvl_add_def lvl_qty_def alist_simps less_Suc_eq

lemma stacked_bid:
  assumes "stacked bp b0 ap a0 n m b" and "book_params bp b0 ap a0" and "n < 10000" and "m \<le> 10000"
  shows "stacked bp b0 ap a0 (Suc n) m (book_apply (bench_event n v tok b0 Buy bp) b)"
proof -
  have "(of_nat (b0 + n) :: u64) \<noteq> 0" using assms(2,3) by (intro of_nat_id_pos) (simp_all add: book_params_def)
  then show ?thesis using assms stacked_fresh(1) [OF assms(1,2)] ten_more [OF assms(3)]
    by (auto simp: bench_add_simps simp del: of_nat_add split: if_splits)
qed

lemma stacked_ask:
  assumes "stacked bp b0 ap a0 n m b" and "book_params bp b0 ap a0" and "n \<le> 10000" and "m < 10000"
  shows "stacked bp b0 ap a0 n (Suc m) (book_apply (bench_event m v tok a0 Sell ap) b)"
proof -
  have "(of_nat (a0 + m) :: u64) \<noteq> 0" using assms(2,4) by (intro of_nat_id_pos) (simp_all add: book_params_def)
  then show ?thesis using assms stacked_fresh(2) [OF assms(1,2)] ten_more [OF assms(4)]
    by (auto simp: bench_add_simps simp del: of_nat_add split: if_splits)
qed

lemma bench_event_head:
  "ob_venue (book_apply (bench_event i v tok oid sd px) b) = v"
  "ob_instrument_id (book_apply (bench_event i v tok oid sd px) b) = 1"
  "ob_last_update_ns (book_apply (bench_event i v tok oid sd px) b) = bench_ts i"
  by (auto simp: book_apply_def bench_event_def Let_def book_add_def add_to_level_def book_cancel_def
      remove_from_level_def split: option.splits)

definition book_of :: "venue \<Rightarrow> book_manager \<Rightarrow> order_book" where
  "book_of v bm = (case bm_book v 1 bm of None \<Rightarrow> new_book v 1 | Some b \<Rightarrow> b)"

definition books_stacked :: "nat \<Rightarrow> book_manager \<Rightarrow> bool" where
  "books_stacked n bm \<longleftrightarrow> stacked 110050 100000 110080 200000 n n (book_of NSE bm) \<and>
     stacked 109950 300000 110000 400000 n n (book_of BSE bm)"

definition bench_quote :: "nat \<Rightarrow> venue \<Rightarrow> i64 \<Rightarrow> i64 \<Rightarrow> best_quote" where
  "bench_quote n v bp ap = \<lparr>q_venue = v, q_instrument_id = 1, q_bid_px_paise = bp, q_bid_qty = 10 * int n,
     q_ask_px_paise = ap, q_ask_qty = 10 * int n, q_book_age_us = 0\<rparr>"

lemma books_step:
  assumes "books_stacked n bm" and "n < 10000"
  shows "books_stacked (Suc n) (bm_replay (bench_events n) bm)"
    and "bm_quote NSE 1 (bench_ts n) (bm_replay (bench_events n) bm) = Some (bench_quote (Suc n) NSE 110050 110080)"
    and "bm_quote BSE 1 (bench_ts n) (bm_replay (bench_events n) bm) = Some (bench_quote (Suc n) BSE 109950 110000)"
proof -
  let ?bm = "bm_replay (bench_events n) bm"
  define nse bse where "nse = book_apply (bench_event n NSE 1594 200000 Sell 110080) (book_apply (bench_event n NSE 1594 100000 Buy 110050) (book_of NSE bm))"
    and "bse = book_apply (bench_event n BSE 500209 400000 Sell 110000) (book_apply (bench_event n BSE 500209 300000 Buy 109950) (book_of BSE bm))"
  have books: "bm_book NSE 1 ?bm = Some nse" "bm_book BSE 1 ?bm = Some bse"
    by (simp_all add: bm_book_replay bench_events_def bench_event_def nse_def bse_def book_of_def)
  have "book_params 110050 100000 110080 200000" "book_params 109950 300000 110000 400000" by (simp_all add: book_params_def)
  then have st: "stacked 110050 100000 110080 200000 (Suc n) (Suc n) nse" "stacked 109950 300000 110000 400000 (Suc n) (Suc n) bse"
    using assms unfolding nse_def bse_def books_stacked_def
    by (auto intro!: stacked_ask [OF stacked_bid])
  then show "books_stacked (Suc n) ?bm" by (simp add: books_stacked_def book_of_def books)
  have top: "ob_venue nse = NSE" "ob_instrument_id nse = 1" "ob_last_update_ns nse = bench_ts n"
    "ob_venue bse = BSE" "ob_instrument_id bse = 1" "ob_last_update_ns bse = bench_ts n"
    unfolding nse_def bse_def by (simp_all add: bench_event_head)
  show "bm_quote NSE 1 (bench_ts n) ?bm = Some (bench_quote (Suc n) NSE 110050 110080)"
    "bm_quote BSE 1 (bench_ts n) ?bm = Some (bench_quote (Suc n) BSE 109950 110000)"
    using st top by (simp_all add: bm_quote_def books book_best_quote_def stacked_def bench_quote_def empty_quote_def book_age_def)
qed

section \<open>The rounds\<close>

text \<open>What the strategy finds in round \<open>i\<close>: buy at BSE, sell at NSE, ten paise after costs.\<close>

definition bench_trade :: "nat \<Rightarrow> strategy_decision" where
  "bench_trade i =
     \<lparr>sd_should_trade = True,
      sd_opportunity = \<lparr>ao_parent_arb_id = [], ao_ts_decision_ns = bench_ts i, ao_instrument_id = 1,
        ao_buy_venue = BSE, ao_sell_venue = NSE, ao_buy_price_paise = 110000, ao_sell_price_paise = 110050,
        ao_gross_spread_paise = 50, ao_net_edge_paise = 10, ao_qty = min (10 * (int i + 1)) 100,
        ao_reason = ''NET_EDGE_POSITIVE''\<rparr>,
      sd_reason = ''NET_EDGE_POSITIVE'', sd_best_gross_spread_paise = 50, sd_best_net_edge_paise = 10\<rparr>"

lemma bench_evaluate:
  "evaluate default_strategy_config (bench_quote (Suc i) NSE 110050 110080) (bench_quote (Suc i) BSE 109950 110000)
     bench_costs (bench_ts i) = bench_trade i"
proof -
  have "wrap64 50 = 50" "wrap64 10 = 10" "wrap64 20 = 20" "wrap64 40 = 40" "wrap64 (- 130) = - 130" "wrap64 (- 170) = - 170"
    by (simp_all add: wrap64_id in_i64_def)
  then show ?thesis
    by (simp add: evaluate_def bench_quote_def quote_valid_def default_strategy_config_def try_direction_def Let_def bench_costs_def
        all_in_cost_paise_def round_trip_paise_def buffers_paise_def bench_trade_def add.commute)
qed

definition rounds_done :: "nat \<Rightarrow> pipeline_bench \<Rightarrow> bool" where
  "rounds_done n w \<longleftrightarrow> books_stacked n (pb_books w) \<and> pb_decisions w = map bench_trade [0..<n] \<and>
     (\<exists>xs ys. length xs = n \<and> length ys = n \<and>
        pb_latency w = (if n = 0 then [] else [(''book_update'', xs), (''strategy'', ys)]))"

lemma rounds_done_start: "rounds_done 0 new_pipeline_bench"
  by (simp add: rounds_done_def new_pipeline_bench_def lr_clear_def books_stacked_def book_of_def bm_book_def new_book_manager_def
      stacked_def new_book_def)

lemma round_done:
  assumes "rounds_done n w" and "n < 10000"
  shows "\<exists>w'. bench_iteration clock n w = Some w' \<and> rounds_done (Suc n) w'"
proof -
  obtain xs ys where l: "length xs = n" "length ys = n"
      "pb_latency w = (if n = 0 then [] else [(''book_update'', xs), (''strategy'', ys)])"
    using assms(1) by (auto simp: rounds_done_def)
  have b: "books_stacked n (pb_books w)" and d: "pb_decisions w = map bench_trade [0..<n]" using assms(1) by (simp_all add: rounds_done_def)
  note bs = books_step [OF b assms(2)]
  have lat: "\<exists>xs' ys'. length xs' = Suc n \<and> length ys' = Suc n \<and>
      lr_record ''strategy'' u (lr_record ''book_update'' v (pb_latency w)) = [(''book_update'', xs'), (''strategy'', ys')]" for u v
    using l by (intro exI [of _ "(if n = 0 then [] else xs) @ [v]"] exI [of _ "(if n = 0 then [] else ys) @ [u]"])
      (simp add: lr_record_def)
  show ?thesis using bs lat d by (simp add: bench_iteration_def stage_timer_def Let_def rounds_done_def bench_evaluate)
qed

lemma bench_loop_done:
  assumes "rounds_done n w" and "n + k \<le> 10000"
  shows "\<exists>w'. bench_loop clock [n..<n + k] w = Some w' \<and> rounds_done (n + k) w'"
  using assms
proof (induction k arbitrary: n w)
  case (Suc k)
  then obtain w1 where w1: "bench_iteration clock n w = Some w1" "rounds_done (Suc n) w1" using round_done [of n w clock] by auto
  have "[n..<n + Suc k] = n # [Suc n..<Suc n + k]" using upt_conv_Cons [of n "n + Suc k"] by simp
  with Suc.IH [OF w1(2)] Suc.prems(2) show ?case by (simp only:) (simp add: w1(1))
qed simp

section \<open>Properties\<close>

text \<open>
  C22: what the pipeline benchmark times. For any clock, none of its ten thousand rounds misses
  a quote; in round \<open>i\<close> the strategy finds, in books that hold ten shares more at each of
  their prices every round, the same trade of ten paise a share after costs, for the shares
  shown but at most a hundred; and the summary it prints is over exactly ten thousand samples
  of each of the two stages.
\<close>

theorem pipeline_bench_completes:
  "\<exists>w xs ys. bench_loop clock [0..<10000] new_pipeline_bench = Some w \<and> pb_decisions w = map bench_trade [0..<10000] \<and>
     length xs = 10000 \<and> length ys = 10000 \<and>
     pipeline_bench_main ho clock = Some (summary_csv ho [(''book_update'', xs), (''strategy'', ys)])"
proof -
  from bench_loop_done [OF rounds_done_start, of 10000 clock]
  obtain w where w: "bench_loop clock [0..<10000] new_pipeline_bench = Some w" "rounds_done 10000 w" by auto
  then obtain xs ys where "length xs = 10000" "length ys = 10000" "pb_latency w = [(''book_update'', xs), (''strategy'', ys)]"
      "pb_decisions w = map bench_trade [0..<10000]"
    by (auto simp: rounds_done_def simp del: upt.simps)
  with w(1) show ?thesis by (auto simp: pipeline_bench_main_def)
qed

end
