(* ===== verification/Book_Types.thy ===== *)
theory Book_Types
  imports Matching
begin

text \<open>
  The prices and quantities of a book are 64-bit integers, modelled as integers with the
  wrap-around written out. Here the model is shown to respect the type: from events whose
  numbers fit the type, no operation ever produces a number that does not, whether or not
  the sums overflow.
\<close>

definition levels_typed :: "levels \<Rightarrow> bool" where
  "levels_typed xs \<longleftrightarrow> (\<forall>(p, q) \<in> set xs. in_i64 p \<and> in_i64 q)"

definition order_typed :: "resting_order \<Rightarrow> bool" where
  "order_typed ro \<longleftrightarrow> in_i64 (ro_price_paise ro) \<and> in_i64 (ro_qty ro)"

definition index_typed :: "order_index \<Rightarrow> bool" where
  "index_typed xs \<longleftrightarrow> (\<forall>(oid, ro) \<in> set xs. order_typed ro)"

definition book_typed :: "order_book \<Rightarrow> bool" where
  "book_typed b \<longleftrightarrow> levels_typed (ob_bids b) \<and> levels_typed (ob_asks b) \<and> index_typed (ob_orders b)"

definition event_typed :: "book_event \<Rightarrow> bool" where
  "event_typed ev \<longleftrightarrow> in_i64 (be_price_paise ev) \<and> in_i64 (be_qty ev)"

section \<open>Levels and index\<close>

lemma set_lvl_put: "set (lvl_put lt px q xs) \<subseteq> insert (px, q) (set xs)"
  by (induction xs rule: lvl_put.induct [of _ lt px q]) auto

lemma set_alist_update: "set (AList.update k v xs) \<subseteq> insert (k, v) (set xs)"
  by (induction xs) auto

lemma set_alist_delete: "set (AList.delete k xs) \<subseteq> set xs"
  by (auto simp: AList.delete_eq)

lemma levels_typed_put: "levels_typed xs \<Longrightarrow> in_i64 px \<Longrightarrow> in_i64 q \<Longrightarrow> levels_typed (lvl_put lt px q xs)"
  using set_lvl_put [of lt px q xs] unfolding levels_typed_def by blast

lemma levels_typed_add: "levels_typed xs \<Longrightarrow> in_i64 px \<Longrightarrow> levels_typed (lvl_add lt px q xs)"
  by (simp add: lvl_add_def levels_typed_put)

lemma levels_typed_remove:
  assumes "levels_typed xs"
  shows "levels_typed (lvl_remove lt px q xs)"
proof (cases "map_of xs px")
  case (Some l)
  then have "in_i64 px" using map_of_SomeD [OF Some] assms by (auto simp: levels_typed_def)
  moreover have "levels_typed (AList.delete px xs)"
    using assms set_alist_delete [of px xs] unfolding levels_typed_def by blast
  ultimately show ?thesis using assms Some by (simp add: lvl_remove_def levels_typed_put Let_def)
qed (use assms in \<open>simp add: lvl_remove_def\<close>)

lemma index_typed_update: "index_typed xs \<Longrightarrow> order_typed ro \<Longrightarrow> index_typed (AList.update oid ro xs)"
  using set_alist_update [of oid ro xs] unfolding index_typed_def by blast

lemma index_typed_delete: "index_typed xs \<Longrightarrow> index_typed (AList.delete oid xs)"
  using set_alist_delete [of oid xs] unfolding index_typed_def by blast

lemma index_typed_lookup: "index_typed xs \<Longrightarrow> map_of xs oid = Some ro \<Longrightarrow> order_typed ro"
  by (auto simp: index_typed_def dest: map_of_SomeD)

lemma index_typed_Cons: "index_typed ((oid, ro) # xs) \<longleftrightarrow> order_typed ro \<and> index_typed xs"
  by (simp add: index_typed_def)

lemma index_typed_deletes: "index_typed xs \<Longrightarrow> index_typed (fold AList.delete ids xs)"
  by (induction ids arbitrary: xs) (simp_all add: index_typed_delete)

lemma book_typed_remove: "book_typed b \<Longrightarrow> book_typed (remove_from_level sd px q b)"
  by (simp add: book_typed_def remove_from_level_def levels_typed_remove)

lemma book_typed_add_level: "book_typed b \<Longrightarrow> in_i64 px \<Longrightarrow> book_typed (add_to_level sd px q b)"
  by (simp add: book_typed_def add_to_level_def levels_typed_add)

lemma book_typed_orders: "book_typed b \<Longrightarrow> index_typed xs \<Longrightarrow> book_typed (b\<lparr>ob_orders := xs\<rparr>)"
  by (simp add: book_typed_def)

lemma book_typed_index: "book_typed b \<Longrightarrow> index_typed (ob_orders b)"
  by (simp add: book_typed_def)

lemmas typed_intros = book_typed_remove book_typed_add_level book_typed_orders index_typed_update index_typed_delete book_typed_index

section \<open>Events\<close>

lemma book_typed_cancel: "book_typed b \<Longrightarrow> book_typed (book_cancel oid b)"
  by (simp add: book_cancel_def Let_def typed_intros split: option.splits)

lemma book_typed_add: "book_typed b \<Longrightarrow> in_i64 px \<Longrightarrow> in_i64 q \<Longrightarrow> book_typed (book_add oid sd px q b)"
  by (auto simp: book_add_def Let_def order_typed_def intro!: typed_intros book_typed_cancel)

lemma book_typed_modify: "book_typed b \<Longrightarrow> in_i64 px \<Longrightarrow> in_i64 q \<Longrightarrow> book_typed (book_modify oid sd px q b)"
  by (auto simp: book_modify_def Let_def order_typed_def split: option.splits intro!: typed_intros book_typed_add)

lemma book_typed_trade: "book_typed b \<Longrightarrow> book_typed (book_trade oid sd px q b)"
  using index_typed_lookup [of "ob_orders b" oid]
  by (auto simp: book_trade_def Let_def order_typed_def book_typed_index split: option.splits intro!: typed_intros)

lemma book_typed_stamp: "book_typed (b\<lparr>ob_venue := v, ob_instrument_id := i, ob_last_update_ns := t\<rparr>) = book_typed b"
  by (simp add: book_typed_def)

lemma book_typed_apply: "book_typed b \<Longrightarrow> event_typed ev \<Longrightarrow> book_typed (book_apply ev b)"
  by (simp add: book_apply_def Let_def book_typed_stamp event_typed_def book_typed_add book_typed_modify book_typed_cancel
      book_typed_trade split: event_type.splits)
    (simp add: book_clear_def book_typed_def levels_typed_def index_typed_def)

lemma book_typed_events: "book_typed b \<Longrightarrow> list_all event_typed evs \<Longrightarrow> book_typed (apply_events evs b)"
  unfolding apply_events_def by (induction evs arbitrary: b) (simp_all add: book_typed_apply)

section \<open>Matching\<close>

lemma consume_loop_typed:
  assumes "consume_loop rs px todo orders remaining ids = (orders', remaining', ids')"
    and "index_typed todo" and "index_typed orders"
  shows "index_typed orders'"
  using assms
  by (induction rs px todo orders remaining ids rule: consume_loop.induct)
    (auto simp: Let_def index_typed_Cons order_typed_def index_typed_update split: if_splits)

lemma consume_typed:
  assumes "book_typed b" and "iteration_ok h"
  shows "book_typed (consume_orders_at_price h rs px q b)"
proof -
  obtain orders remaining ids where l: "consume_loop rs px (h (ob_orders b)) (ob_orders b) q [] = (orders, remaining, ids)"
    by (metis prod_cases3)
  have "set (h (ob_orders b)) = set (ob_orders b)"
    using assms(2) unfolding iteration_ok_def by (metis set_mset_mset)
  then have "index_typed orders"
    using consume_loop_typed [OF l] assms(1) by (simp add: index_typed_def book_typed_def)
  with assms(1) show ?thesis
    by (simp add: consume_orders_at_price_def l Let_def typed_intros index_typed_deletes)
qed

definition fills_typed :: "level_fill list \<Rightarrow> bool" where
  "fills_typed fs \<longleftrightarrow> list_all (\<lambda>f. in_i64 (lf_price_paise f) \<and> in_i64 (lf_qty f)) fs"

lemma side_level_typed:
  assumes "side_levels sd b = lvl # rest" and "book_typed b"
  shows "in_i64 (fst lvl) \<and> in_i64 (snd lvl)"
proof -
  have "lvl \<in> set (ob_bids b) \<union> set (ob_asks b)"
    using assms(1) by (cases sd) (auto simp: side_levels_def split: if_splits)
  with assms(2) show ?thesis by (auto simp: book_typed_def levels_typed_def)
qed

lemma match_loop_typed:
  assumes "match_loop h a lim q fs0 b = Some r"
  shows "iteration_ok h \<longrightarrow> book_typed b \<longrightarrow> in_i64 q \<longrightarrow> fills_typed fs0 \<longrightarrow> fills_typed (fst r) \<and> book_typed (snd r)"
proof (rule match_loop.raw_induct [OF _ assms, of "\<lambda>h a lim q fs0 b r. iteration_ok h \<longrightarrow> book_typed b \<longrightarrow> in_i64 q \<longrightarrow>
    fills_typed fs0 \<longrightarrow> fills_typed (fst r) \<and> book_typed (snd r)"], goal_cases)
  case (1 loop h a lim q fs0 b r)
  show ?case
  proof (cases "side_levels (opposite a) b")
    case Nil
    with 1(2) show ?thesis by (auto split: if_splits)
  next
    case (Cons lvl rest)
    show ?thesis
    proof (intro impI)
      assume h: "iteration_ok h" and b: "book_typed b" and q: "in_i64 q" and f: "fills_typed fs0"
      note l = side_level_typed [OF Cons b]
      have "in_i64 (min q (snd lvl))" using q l by (simp add: min_def)
      moreover have "in_i64 (q - min q (snd lvl)) \<or> True" by simp
      ultimately show "fills_typed (fst r) \<and> book_typed (snd r)"
        using 1 Cons h b q f l by (auto simp: fills_typed_def consume_typed Let_def split: if_splits)
    qed
  qed
qed

lemma match_ioc_typed:
  assumes "match_ioc h a lim q b = Some (fs, b')" and "iteration_ok h" and "book_typed b" and "in_i64 q"
  shows "fills_typed fs \<and> book_typed b'"
  using assms match_loop_typed [of h a lim q "[]" b "(fs, b')"]
  by (auto simp: match_ioc_def fills_typed_def split: if_splits)

section \<open>Properties\<close>



end
