(* ===== verification/Findings.thy ===== *)
theory Findings
  imports Market_Data Strategy Book_Spec
begin

text \<open>
  Inputs on which the code does not do what it means to. Each lemma runs the model on one of
  them.
\<close>

text \<open>
  The age of a book is cut to 32 bits: 4294967296 microseconds (71.6 minutes) after its last
  event a book reports the age 0, so the age limits of the strategy and of the risk engine let
  it pass.
\<close>

lemma old_book_looks_fresh:
  "let b = apply_events [sample_event EvAdd 1 Buy 100 10, sample_event EvAdd 2 Sell 105 10] (new_book NSE 1);
       q = book_best_quote (ob_last_update_ns b + 4294967296000) b
   in quote_valid q \<and> q_book_age_us q = 0 \<and> q_book_age_us q \<le> st_max_book_age_us default_strategy_config"
  by (simp add: apply_events_def sample_event_def new_book_def book_apply_def book_add_def add_to_level_def lvl_add_def lvl_qty_def
      book_best_quote_def book_age_def empty_quote_def quote_valid_def Let_def wrap64_id in_i64_def default_strategy_config_def)

text \<open>
  A trade that names no resting order takes its quantity from the level but from no order: the
  level then shows less than the orders behind it, and the self-check of the book fails.
\<close>

lemma unknown_trade_unbalances:
  "let b = apply_events [sample_event EvAdd 1 Buy 100 10, sample_event EvTrade 99 Buy 100 4] (new_book NSE 1)
   in depth_at Buy 100 b = 6 \<and> map_option ro_qty (map_of (ob_orders b) 1) = Some 10 \<and> \<not> fst (book_invariant_ok b)"
  by (simp add: apply_events_def sample_event_def new_book_def book_apply_def book_add_def book_trade_def add_to_level_def
      remove_from_level_def lvl_add_def lvl_remove_def lvl_qty_def depth_at_def Let_def wrap64_id in_i64_def book_invariant_ok_def)

text \<open>
  A reset packet (sequence number 0) does not reset the channel: the packets of the new
  sequence are duplicates until they pass the highest number of the old one.
\<close>

lemma reset_keeps_last:
  "let m = snd (seq_on_packet NSE 1 5 []); m = snd (seq_on_packet NSE 1 0 m)
   in fst (seq_on_packet NSE 1 0 m) = SeqReset \<and> fst (seq_on_packet NSE 1 1 m) = SeqDuplicate \<and>
      fst (seq_on_packet NSE 1 6 m) = SeqOk"
  by code_simp

end
