(* ===== verification/Pair_Accounts.thy ===== *)
theory Pair_Accounts
  imports Pair_Hedge
begin

text \<open>
  The money side of \<^verbatim>\<open>src/hedge\<close>: what a pair has paid and received, as sums over its fills in
  unbounded integers, and the fields of \<^verbatim>\<open>PairTrade\<close> that count it in 64 bits. The invariant
  \<open>hedged\<close> follows the value of a pair through its hedges, and \<open>hedged_value\<close> bounds from below
  what it is worth.
\<close>

section \<open>Sums over fills\<close>

definition side_qty :: "side \<Rightarrow> fill list \<Rightarrow> int" where
  "side_qty sd fs = (\<Sum>f\<leftarrow>fs. if fl_side f = sd then fl_fill_qty f else 0)"

definition side_value :: "side \<Rightarrow> fill list \<Rightarrow> int" where
  "side_value sd fs = (\<Sum>f\<leftarrow>fs. if fl_side f = sd then fl_fill_qty f * fl_fill_px_paise f else 0)"

text \<open>What the fills brought in, in paise.\<close>

definition gain :: "fill list \<Rightarrow> int" where
  "gain fs = side_value Sell fs - side_value Buy fs"

lemma side_sums [simp]:
  "side_qty sd [] = 0" "side_qty sd (f # fs) = (if fl_side f = sd then fl_fill_qty f else 0) + side_qty sd fs"
  "side_qty sd (fs @ gs) = side_qty sd fs + side_qty sd gs"
  "side_value sd [] = 0"
  "side_value sd (f # fs) = (if fl_side f = sd then fl_fill_qty f * fl_fill_px_paise f else 0) + side_value sd fs"
  "side_value sd (fs @ gs) = side_value sd fs + side_value sd gs"
  by (simp_all add: side_qty_def side_value_def)

text \<open>A price between one paisa and ten trillion rupees, and fills of positive quantity at such prices.\<close>

definition fair_price :: "i64 \<Rightarrow> bool" where
  "fair_price px \<longleftrightarrow> 0 < px \<and> px \<le> 1000000000000000"

definition fair_fills :: "fill list \<Rightarrow> bool" where
  "fair_fills fs \<longleftrightarrow> (\<forall>f \<in> set fs. 0 < fl_fill_qty f \<and> fair_price (fl_fill_px_paise f))"

lemma fair_fills_simps [simp]:
  "fair_fills []" "fair_fills (f # fs) \<longleftrightarrow> 0 < fl_fill_qty f \<and> fair_price (fl_fill_px_paise f) \<and> fair_fills fs"
  "fair_fills (fs @ gs) \<longleftrightarrow> fair_fills fs \<and> fair_fills gs"
  by (auto simp: fair_fills_def)

lemma fair_value:
  assumes "0 < q" and "fair_price px"
  shows "q \<le> q * px" and "q * px \<le> q * 1000000000000000"
  using assms mult_left_mono [of 1 px q] mult_left_mono [of px 1000000000000000 q]
  by (simp_all add: fair_price_def)

lemma side_bounds:
  assumes "fair_fills fs"
  shows "0 \<le> side_qty sd fs" and "side_qty sd fs \<le> side_value sd fs"
    and "side_value sd fs \<le> side_qty sd fs * 1000000000000000"
proof -
  have "0 \<le> side_qty sd fs \<and> side_qty sd fs \<le> side_value sd fs \<and> side_value sd fs \<le> side_qty sd fs * 1000000000000000"
    using assms by (induction fs) (auto dest: fair_value simp: algebra_simps)
  then show "0 \<le> side_qty sd fs" and "side_qty sd fs \<le> side_value sd fs"
    and "side_value sd fs \<le> side_qty sd fs * 1000000000000000" by simp_all
qed

section \<open>The fields of the pair are these sums\<close>

definition accounts :: "pair_trade \<Rightarrow> fill list \<Rightarrow> bool" where
  "accounts p fs \<longleftrightarrow> pt_bought_qty p = side_qty Buy fs \<and> pt_sold_qty p = side_qty Sell fs \<and>
     pt_bought_notional_paise p = side_value Buy fs \<and> pt_sold_notional_paise p = side_value Sell fs"

text \<open>Few enough shares that no sum leaves 64 bits.\<close>

definition small_lot :: "fill list \<Rightarrow> bool" where
  "small_lot fs \<longleftrightarrow> side_qty Buy fs \<le> 1000 \<and> side_qty Sell fs \<le> 1000"

lemma small_values:
  assumes "fair_fills fs" and "small_lot fs" and "sd \<noteq> SUnknown"
  shows "wrap64 (side_qty sd fs) = side_qty sd fs" and "wrap64 (side_value sd fs) = side_value sd fs"
proof -
  have q: "0 \<le> side_qty sd fs" "side_qty sd fs \<le> 1000" "0 \<le> side_value sd fs" "side_value sd fs \<le> 1000000000000000000"
    using side_bounds [OF assms(1), of sd] assms(2,3) by (cases sd; simp add: small_lot_def)+
  then show "wrap64 (side_qty sd fs) = side_qty sd fs" and "wrap64 (side_value sd fs) = side_value sd fs"
    by (intro wrap64_bounded; simp)+
qed

lemma pair_apply_fill_notional:
  "pt_bought_notional_paise (pair_apply_fill f p) = (if fl_side f = Buy
     then wrap64 (pt_bought_notional_paise p + fl_fill_qty f * fl_fill_px_paise f) else pt_bought_notional_paise p)"
  "pt_sold_notional_paise (pair_apply_fill f p) = (if fl_side f = Sell
     then wrap64 (pt_sold_notional_paise p + fl_fill_qty f * fl_fill_px_paise f) else pt_sold_notional_paise p)"
  by (simp_all add: pair_apply_fill_def Let_def wrap_simps)

lemma accounts_fills:
  assumes "accounts p fs" and "fair_fills (fs @ gs)" and "small_lot (fs @ gs)"
  shows "accounts (fold pair_apply_fill gs p) (fs @ gs)"
  using assms(2,3)
proof (induction gs rule: rev_induct)
  case Nil
  then show ?case using assms(1) by simp
next
  case (snoc g gs)
  have nn: "0 \<le> side_qty sd [g]" for sd using side_bounds(1) [of "[g]" sd] snoc.prems(1) by simp
  then have "side_qty sd (fs @ gs) \<le> side_qty sd (fs @ gs @ [g])" for sd by simp
  then have "small_lot (fs @ gs)" using snoc.prems(2) unfolding small_lot_def by (meson order_trans)
  with snoc have acc: "accounts (fold pair_apply_fill gs p) (fs @ gs)" by simp
  note w = small_values [OF snoc.prems]
  show ?case
    using acc w [of Buy] w [of Sell]
    by (cases "fl_side g") (simp_all add: accounts_def pair_apply_fill_notional wrap_simps add.assoc)
qed

lemma accounts_update [simp]:
  "accounts (p\<lparr>pt_state := s\<rparr>) = accounts p" "accounts (p\<lparr>pt_last_error := e\<rparr>) = accounts p"
  "accounts (p\<lparr>pt_hedge_attempts := n\<rparr>) = accounts p" "accounts (p\<lparr>pt_ts_last_update_ns := t\<rparr>) = accounts p"
  "accounts (mark_leg_failed r t p) = accounts p"
  by (simp_all add: accounts_def fun_eq_iff mark_leg_failed_def Let_def)

lemma accounts_residual:
  assumes "accounts p fs" and "fair_fills fs" and "small_lot fs"
  shows "residual p = side_qty Buy fs - side_qty Sell fs"
proof -
  have "0 \<le> side_qty sd fs" for sd using side_bounds(1) [OF assms(2)] .
  then show ?thesis
    using assms(1,3) unfolding residual_def accounts_def small_lot_def
    by (simp, intro wrap64_bounded) (smt (verit))+
qed

lemma accounts_avg:
  assumes "accounts p fs" and "fair_fills fs" and "small_lot fs"
  shows "avg_buy_px p = side_value Buy fs div side_qty Buy fs" and "avg_sell_px p = side_value Sell fs div side_qty Sell fs"
    and "sane_money (avg_buy_px p)" and "sane_money (avg_sell_px p)"
proof -
  have d: "0 \<le> side_value sd fs div side_qty sd fs \<and> side_value sd fs div side_qty sd fs \<le> 1000000000000000" for sd
  proof (cases "side_qty sd fs = 0")
    case False
    then have q: "0 < side_qty sd fs" using side_bounds(1) [OF assms(2), of sd] by simp
    have "side_value sd fs div side_qty sd fs \<le> side_qty sd fs * 1000000000000000 div side_qty sd fs"
      using side_bounds(3) [OF assms(2), of sd] q by (intro zdiv_mono1)
    with q side_bounds(1,2) [OF assms(2), of sd] show ?thesis by (simp add: pos_imp_zdiv_nonneg_iff)
  qed simp
  have e: "(if side_qty sd fs = 0 then 0 else wrap64 (side_value sd fs sdiv side_qty sd fs)) = side_value sd fs div side_qty sd fs" for sd
  proof -
    have "0 \<le> side_qty sd fs" "0 \<le> side_value sd fs" using side_bounds [OF assms(2), of sd] by simp_all
    then have "side_value sd fs sdiv side_qty sd fs = side_value sd fs div side_qty sd fs"
      by (auto simp: signed_divide_int_def sgn_if)
    moreover have "wrap64 (side_value sd fs div side_qty sd fs) = side_value sd fs div side_qty sd fs"
      using d [of sd] by (intro wrap64_bounded) auto
    ultimately show ?thesis by simp
  qed
  show b: "avg_buy_px p = side_value Buy fs div side_qty Buy fs"
    using e [of Buy] assms(1) by (auto simp: avg_buy_px_def accounts_def split: if_splits)
  show s: "avg_sell_px p = side_value Sell fs div side_qty Sell fs"
    using e [of Sell] assms(1) by (auto simp: avg_sell_px_def accounts_def split: if_splits)
  show "sane_money (avg_buy_px p)" and "sane_money (avg_sell_px p)"
    using d [of Buy] d [of Sell] by (simp_all add: b s sane_money_def)
qed

section \<open>Hedging costs at most the loss limit\<close>

text \<open>
  How the sums stand while a pair is hedged. The legs bought \<open>B\<close> shares for \<open>NB\<close> and sold \<open>S\<close>
  for \<open>NS\<close>; the shorter leg is completed at a price that is worse than the average of the
  longer one by at most \<open>L\<close> in each of \<open>k\<close> attempts.
\<close>

definition hedged :: "int \<Rightarrow> int \<Rightarrow> fill list \<Rightarrow> fill list \<Rightarrow> bool" where
  "hedged L k legs fs \<longleftrightarrow>
     (let B = side_qty Buy legs; S = side_qty Sell legs; NB = side_value Buy legs; NS = side_value Sell legs in
      if S \<le> B
      then side_qty Buy fs = B \<and> side_value Buy fs = NB \<and> S \<le> side_qty Sell fs \<and> side_qty Sell fs \<le> B \<and>
        NS + (side_qty Sell fs - S) * (NB div B) - k * L \<le> side_value Sell fs
      else side_qty Sell fs = S \<and> side_value Sell fs = NS \<and> B \<le> side_qty Buy fs \<and> side_qty Buy fs \<le> S \<and>
        side_value Buy fs \<le> NB + (side_qty Buy fs - B) * (NS div S) + k * L)"

lemma hedged_start: "hedged L 0 legs legs"
  by (simp add: hedged_def Let_def)

lemma hedged_mono:
  assumes "hedged L k legs fs" and "k \<le> k'" and "0 \<le> L"
  shows "hedged L k' legs fs"
proof -
  have "k * L \<le> k' * L" using assms(2,3) by (rule mult_right_mono)
  with assms(1) show ?thesis unfolding hedged_def Let_def by (auto split: if_splits)
qed

lemma hedged_small: "hedged L k legs fs \<Longrightarrow> small_lot legs \<Longrightarrow> small_lot fs"
  by (auto simp: hedged_def small_lot_def Let_def split: if_splits)

text \<open>Fills of one order, all on one side, within its limit and its quantity.\<close>

lemma one_sided:
  assumes "list_all (fill_matches i cid) gs" and "oi_side i \<noteq> SUnknown"
  shows "side_qty sd gs = (if sd = oi_side i then fills_qty gs else 0)"
    and "sd \<noteq> oi_side i \<Longrightarrow> side_value sd gs = 0"
    and "oi_side i = Buy \<Longrightarrow> side_value Buy gs \<le> side_qty Buy gs * oi_price_paise i"
    and "oi_side i = Sell \<Longrightarrow> side_qty Sell gs * oi_price_paise i \<le> side_value Sell gs"
  using assms
  by (induction gs)
    (auto simp: fill_matches_def fills_qty_def beyond_limit_def distrib_right intro!: add_mono mult_left_mono)

lemma capped_loss:
  assumes "0 \<le> n" and "n \<le> (q :: int)" and "max 0 (d * q) \<le> L"
  shows "n * d \<le> L"
proof (cases "0 \<le> d")
  case True
  then have "n * d \<le> q * d" using assms(2) by (intro mult_right_mono)
  with assms(3) show ?thesis by (simp add: mult.commute)
next
  case False
  then have "n * d \<le> 0" using assms(1) by (simp add: mult_nonneg_nonpos)
  with assms(3) show ?thesis by linarith
qed

lemma hedged_step:
  assumes acc: "accounts p fs" "fair_fills fs" "small_lot fs" "hedged L k legs fs" "fair_fills legs"
    and h: "hedges cfg p q v i" "\<not> rc_force_flatten_on_max_loss cfg" "rc_max_hedge_loss_paise cfg = L"
    and gs: "list_all (fill_matches i cid) gs" "fills_qty gs \<le> oi_qty i" "fair_fills gs"
  shows "hedged L (k + 1) legs (fs @ gs)"
proof -
  note r = accounts_residual [OF acc(1-3)] and avg = accounts_avg(1,2) [OF acc(1-3)]
  have loss: "true_loss p i \<le> L" and side: "oi_side i = (if residual p > 0 then Sell else Buy)"
    and qty: "0 < oi_qty i" "oi_qty i \<le> \<bar>residual p\<bar>"
    using h by (simp_all add: hedges_def)
  have sd: "oi_side i \<noteq> SUnknown" by (simp add: side)
  note one = one_sided [OF gs(1) sd]
  have n: "0 \<le> fills_qty gs" using side_bounds(1) [OF gs(3), of "oi_side i"] one(1) [of "oi_side i"] by simp
  show ?thesis
  proof (cases "residual p > 0")
    case True
    with side have sell: "oi_side i = Sell" by simp
    with acc(4) True r have lt: "side_qty Sell legs \<le> side_qty Buy legs"
      by (auto simp: hedged_def Let_def split: if_splits)
    let ?ref = "side_value Buy legs div side_qty Buy legs"
    have "max 0 ((?ref - oi_price_paise i) * oi_qty i) \<le> L"
      using loss sell avg(1) acc(4) lt by (simp add: true_loss_def hedged_def Let_def)
    from capped_loss [OF n gs(2) this] one(4) [OF sell] one(1) [of Sell] sell
    have "fills_qty gs * ?ref \<le> side_value Sell gs + L" by (simp add: algebra_simps)
    moreover have "fills_qty gs \<le> side_qty Buy fs - side_qty Sell fs" using gs(2) qty(2) r True by simp
    ultimately show ?thesis
      using acc(4) lt one(1,2) [of Buy] one(1) [of Sell] sell n
      by (simp add: hedged_def Let_def algebra_simps)
  next
    case False
    with side have buy: "oi_side i = Buy" by simp
    have neg: "side_qty Buy fs < side_qty Sell fs" using False qty r by simp
    with acc(4) have lt: "\<not> side_qty Sell legs \<le> side_qty Buy legs"
      by (auto simp: hedged_def Let_def split: if_splits)
    let ?ref = "side_value Sell legs div side_qty Sell legs"
    have ref: "avg_sell_px p = ?ref" using avg(2) acc(4) lt by (simp add: hedged_def Let_def)
    have "side_qty Sell legs \<le> side_value Sell legs"
      using side_bounds(2) [OF acc(2), of Sell] acc(4) lt by (simp add: hedged_def Let_def)
    then have "0 < ?ref" using side_bounds(1) [OF acc(5), of Buy] lt by (simp add: pos_imp_zdiv_pos_iff)
    with loss buy ref have "max 0 ((oi_price_paise i - ?ref) * oi_qty i) \<le> L" by (simp add: true_loss_def)
    from capped_loss [OF n gs(2) this] one(3) [OF buy] one(1) [of Buy] buy
    have "side_value Buy gs \<le> fills_qty gs * ?ref + L" by (simp add: algebra_simps)
    moreover have "fills_qty gs \<le> side_qty Sell fs - side_qty Buy fs" using gs(2) qty(2) r neg by simp
    ultimately show ?thesis
      using acc(4) lt one(1,2) [of Sell] one(1) [of Buy] buy n
      by (simp add: hedged_def Let_def algebra_simps)
  qed
qed

text \<open>What is still open counts at the average price of the leg that left it open.\<close>

definition open_value :: "pair_trade \<Rightarrow> int" where
  "open_value p = residual p * (if residual p > 0 then avg_buy_px p else avg_sell_px p)"

lemma hedged_value:
  assumes acc: "accounts p fs" "fair_fills fs" "small_lot fs" "hedged L k legs fs" "fair_fills legs"
    and px: "side_value Buy legs \<le> side_qty Buy legs * b" "side_qty Sell legs * s \<le> side_value Sell legs"
  shows "min (side_qty Buy legs) (side_qty Sell legs) * (s - b) - k * L
      - (if side_qty Sell legs < side_qty Buy legs then side_qty Buy legs else 0) \<le> gain fs + open_value p"
proof -
  define B S NB NS where d: "B = side_qty Buy legs" "S = side_qty Sell legs" "NB = side_value Buy legs" "NS = side_value Sell legs"
  note r = accounts_residual [OF acc(1-3)] and avg = accounts_avg(1,2) [OF acc(1-3)]
  have nn: "0 \<le> B" "0 \<le> S" using side_bounds(1) [OF acc(5)] by (simp_all add: d)
  show ?thesis
  proof (cases "S \<le> B")
    case True
    define R where "R = NB div B"
    have h: "side_qty Buy fs = B" "side_value Buy fs = NB" "S \<le> side_qty Sell fs" "side_qty Sell fs \<le> B"
      "NS + (side_qty Sell fs - S) * R - k * L \<le> side_value Sell fs"
      using acc(4) True by (simp_all add: hedged_def Let_def d R_def)
    have "open_value p = (B - side_qty Sell fs) * R"
      using h(1,2,4) r avg(1) by (simp add: open_value_def R_def)
    then have "NS + (B - S) * R - k * L - NB \<le> gain fs + open_value p"
      using h(2,5) by (simp add: gain_def algebra_simps)
    moreover have "NB \<le> B * R + B" "S * R \<le> S * b"
    proof -
      have "NB mod B \<le> B"
      proof (cases "B = 0")
        case False
        with nn(1) show ?thesis by (intro order_less_imp_le pos_mod_bound) simp
      qed (use side_bounds(3) [OF acc(5), of Buy] d in simp)
      then show "NB \<le> B * R + B" using mult_div_mod_eq [of B NB] unfolding R_def by linarith
      show "S * R \<le> S * b"
      proof (cases "S = 0")
        case False
        then have "0 < B" using True nn by linarith
        have "NB div B \<le> B * b div B" using px(1) \<open>0 < B\<close> by (intro zdiv_mono1) (simp_all add: d)
        then show ?thesis using \<open>0 < B\<close> nn(2) unfolding R_def by (intro mult_left_mono) simp_all
      qed simp
    qed
    moreover have "NB \<le> B * b" using px(1) by (simp add: d)
    ultimately show ?thesis
      using px(2) True by (cases "S = B") (simp_all add: d [symmetric] min_def algebra_simps)
  next
    case False
    define R where "R = NS div S"
    have h: "side_qty Sell fs = S" "side_value Sell fs = NS" "B \<le> side_qty Buy fs" "side_qty Buy fs \<le> S"
      "side_value Buy fs \<le> NB + (side_qty Buy fs - B) * R + k * L"
      using acc(4) False by (simp_all add: hedged_def Let_def d R_def)
    have S: "0 < S" using False nn by linarith
    have "open_value p = (side_qty Buy fs - S) * R"
      using h(1,2,4) r avg(2) by (simp add: open_value_def R_def)
    then have "NS - NB + (B - S) * R - k * L \<le> gain fs + open_value p"
      using h(2,5) by (simp add: gain_def algebra_simps)
    moreover have "S * R \<le> NS" using S mult_div_mod_eq [of S NS] pos_mod_sign [of S NS] unfolding R_def by linarith
    moreover have "B * s \<le> B * R"
    proof -
      have "S * s div S \<le> NS div S" using px(2) S by (intro zdiv_mono1) (simp_all add: d)
      then show ?thesis using S nn(1) unfolding R_def by (intro mult_left_mono) simp_all
    qed
    ultimately show ?thesis
      using px(1) False nn by (simp add: d [symmetric] min_def algebra_simps)
  qed
qed

end
