(* ===== verification/Priced_Matching.thy ===== *)
theory Priced_Matching
  imports Matching Pair_Accounts
begin

text \<open>
  At which prices the simulated exchange trades: as long as every level of every book has a
  fair price, so has every fill, and matching keeps the books so. The gateway contract of
  the order manager is extended by this law, and the matching engine provides it.
\<close>

section \<open>Books with fair prices\<close>

definition book_prices :: "order_book \<Rightarrow> i64 set" where
  "book_prices b = fst ` set (ob_bids b) \<union> fst ` set (ob_asks b)"

definition fair_book :: "order_book \<Rightarrow> bool" where
  "fair_book b \<longleftrightarrow> (\<forall>px \<in> book_prices b. fair_price px)"

lemma book_prices_depth:
  assumes "levels_ok b"
  shows "px \<in> book_prices b \<longleftrightarrow> (\<exists>sd. depth_at sd px b \<noteq> 0)"
proof -
  have "px \<in> fst ` set xs \<longleftrightarrow> lvl_qty xs px \<noteq> 0" if "\<forall>px q. map_of xs px = Some q \<longrightarrow> 0 < q" for xs :: levels
    using that map_of_eq_None_iff [of xs px] by (auto simp: lvl_qty_def simp del: map_of_eq_Some_iff split: option.splits)
  then have "px \<in> book_prices b \<longleftrightarrow> depth_at Buy px b \<noteq> 0 \<or> depth_at Sell px b \<noteq> 0"
    using assms by (simp add: book_prices_def levels_ok_def lvl_ok_def depth_at_def)
  also have "\<dots> \<longleftrightarrow> (\<exists>sd. depth_at sd px b \<noteq> 0)" by (metis depth_at_SUnknown side.exhaust)
  finally show ?thesis .
qed

definition fair_books :: "book_manager \<Rightarrow> bool" where
  "fair_books bm \<longleftrightarrow> (\<forall>k b. map_of (bm_books bm) k = Some b \<longrightarrow> fair_book b)"

lemma fair_sane: "fair_price px \<Longrightarrow> sane_money px"
  by (simp add: fair_price_def sane_money_def)

lemma fair_books_put: "fair_books bm \<Longrightarrow> fair_book b \<Longrightarrow> fair_books (bm_put_book v i b bm)"
  by (auto simp: fair_books_def bm_put_book_def alist_simps simp del: map_of_eq_Some_iff split: if_splits)

lemma fair_books_book: "fair_books bm \<Longrightarrow> bm_book v i bm = Some b \<Longrightarrow> fair_book b"
  by (simp add: fair_books_def bm_book_def del: map_of_eq_Some_iff)

lemma fair_empty [simp]: "fair_books new_book_manager"
  by (simp add: fair_books_def new_book_manager_def)

lemma fair_quote:
  assumes "fair_book b"
  shows "sane_quote (book_best_quote now b)"
proof -
  have "sane_money px" if "ob_bids b = (px, q) # ls \<or> ob_asks b = (px, q) # ls" for px q ls
    using that assms by (auto simp: fair_book_def book_prices_def fair_sane)
  moreover have "sane_money 0" by (simp add: sane_money_def)
  ultimately show ?thesis
    by (auto simp: sane_quote_def book_best_quote_def empty_quote_def Let_def split: list.split)
qed

lemma ioc_fair:
  assumes "ioc_spec a lim q b fs b'" and "book_ok b" and "book_ok b'" and "fair_book b"
  shows "fair_book b'" and "\<forall>f \<in> set fs. fair_price (lf_price_paise f)"
proof -
  have pos: "\<forall>f \<in> set fs. 0 < lf_qty f" using ioc_specD(1) [OF assms(1)] .
  have d: "depth_at sd px b' = depth_at sd px b - (if sd = opposite a then fills_at px fs else 0)" for sd px
    using ioc_specD(5) [OF assms(1)] .
  have lv: "levels_ok b" "levels_ok b'" using assms(2,3) by (simp_all add: book_ok_def book_agrees_def)
  have nn: "0 \<le> depth_at sd px b'" for sd px using depth_at_nonneg [OF lv(2)] .
  have n: "0 \<le> fills_at px fs" for px using fills_at_nonneg [OF pos] .
  have "depth_at sd px b \<noteq> 0" if "depth_at sd px b' \<noteq> 0" for sd px
    using that d [of sd px] nn [of sd px] n [of px] by (auto split: if_splits)
  then have "book_prices b' \<subseteq> book_prices b" 
    unfolding subset_iff book_prices_depth [OF lv(1)] book_prices_depth [OF lv(2)] by blast
  with assms(4) show "fair_book b'" unfolding fair_book_def by blast
  show "\<forall>f \<in> set fs. fair_price (lf_price_paise f)"
  proof
    fix f assume f: "f \<in> set fs"
    have "0 < fills_at (lf_price_paise f) fs" using f by (intro fills_at_pos [OF pos]) simp
    then have "depth_at (opposite a) (lf_price_paise f) b \<noteq> 0"
      using d [of "opposite a"] nn [of "opposite a" "lf_price_paise f"] by (auto split: if_splits)
    then have "lf_price_paise f \<in> book_prices b" unfolding book_prices_depth [OF lv(1)] by blast
    with assms(4) show "fair_price (lf_price_paise f)" by (simp add: fair_book_def)
  qed
qed

lemma match_ioc_fair:
  assumes "book_ok b" and "fair_book b" and "iteration_ok h" and "sd \<noteq> SUnknown" and "0 < lim" and "q \<le> i64_max"
    and m: "match_ioc h sd lim q b = Some (fs, b')"
  shows "fair_book b'" and "\<forall>f \<in> set fs. fair_price (lf_price_paise f)"
proof -
  have "fair_book b' \<and> (\<forall>f \<in> set fs. fair_price (lf_price_paise f))"
  proof (cases "0 < q")
    case True
    have "sd = Buy \<or> sd = Sell" using assms(4) by (cases sd) simp_all
    from weak.match_ioc_spec [OF assms(1) [unfolded book_ok_def] assms(3) this True assms(6,5)] m
    have "ioc_spec sd lim q b fs b'" "book_ok b'" by (auto simp: book_ok_def)
    from ioc_fair [OF this(1) assms(1) this(2) assms(2)] show ?thesis by blast
  next
    case False
    with m assms(2) show ?thesis by (auto simp: match_ioc_def)
  qed
  then show "fair_book b'" and "\<forall>f \<in> set fs. fair_price (lf_price_paise f)" by blast+
qed

section \<open>Events at fair prices\<close>

text \<open>
  A modification may bring any price into the book, an addition only a positive one: the
  code checks it.
\<close>

definition fair_event :: "book_event \<Rightarrow> bool" where
  "fair_event ev \<longleftrightarrow> (be_event_type ev = EvAdd \<longrightarrow> be_price_paise ev \<le> 1000000000000000) \<and>
     (be_event_type ev = EvModify \<longrightarrow> fair_price (be_price_paise ev))"

lemma lvl_keys:
  "fst ` set (lvl_put lt px q xs) = insert px (fst ` set xs)" "fst ` set (lvl_add lt px q xs) = insert px (fst ` set xs)"
  "fst ` set (lvl_remove lt px q xs) \<subseteq> fst ` set xs"
proof -
  show p: "fst ` set (lvl_put lt px q xs) = insert px (fst ` set xs)" for q
    by (induction lt px q xs rule: lvl_put.induct) auto
  then show "fst ` set (lvl_add lt px q xs) = insert px (fst ` set xs)" by (simp add: lvl_add_def)
  show "fst ` set (lvl_remove lt px q xs) \<subseteq> fst ` set xs"
  proof (cases "map_of xs px")
    case (Some l)
    then have "px \<in> fst ` set xs" by (force dest: map_of_SomeD)
    with Some p dom_delete_subset [of px xs] show ?thesis by (simp add: lvl_remove_def Let_def insert_absorb)
  qed (simp add: lvl_remove_def)
qed

lemma book_prices_simps [simp]: "book_prices (b\<lparr>ob_orders := xs\<rparr>) = book_prices b" "book_prices (stamp ev b) = book_prices b"
  "book_prices (add_to_level sd px q b) = insert px (book_prices b)"
  by (auto simp: book_prices_def stamp_def add_to_level_def lvl_keys)

lemma book_prices_remove: "book_prices (remove_from_level sd px q b) \<subseteq> book_prices b"
  unfolding book_prices_def remove_from_level_def
  using lvl_keys(3) [of "(>)" px q "ob_bids b"] lvl_keys(3) [of "(<)" px q "ob_asks b"] by auto

lemma fair_book_simps [simp]: "fair_book (b\<lparr>ob_orders := xs\<rparr>) = fair_book b" "fair_book (stamp ev b) = fair_book b"
  "fair_book (add_to_level sd px q b) \<longleftrightarrow> fair_price px \<and> fair_book b" "fair_book (new_book v i)"
  by (simp_all add: fair_book_def) (simp add: book_prices_def new_book_def)

lemma fair_book_remove: "fair_book b \<Longrightarrow> fair_book (remove_from_level sd px q b)"
  using book_prices_remove unfolding fair_book_def by blast

lemma fair_book_cancel: "fair_book b \<Longrightarrow> fair_book (book_cancel oid b)"
  by (simp add: book_cancel_def Let_def fair_book_remove split: option.split)

lemma fair_book_add: "fair_book b \<Longrightarrow> px \<le> 1000000000000000 \<Longrightarrow> fair_book (book_add oid sd px q b)"
  by (simp add: book_add_def Let_def fair_book_cancel fair_price_def)

lemma fair_book_modify: "fair_book b \<Longrightarrow> fair_price px \<Longrightarrow> fair_book (book_modify oid sd px q b)"
  by (simp add: book_modify_def Let_def fair_book_remove fair_book_add fair_price_def split: option.split)

lemma fair_book_trade: "fair_book b \<Longrightarrow> fair_book (book_trade oid sd px q b)"
  by (simp add: book_trade_def Let_def fair_book_remove split: option.split)

lemma fair_book_apply:
  assumes "fair_book b" and "fair_event ev"
  shows "fair_book (book_apply ev b)"
proof -
  have "fair_book (book_clear (stamp ev b))" by (simp add: book_clear_def fair_book_def book_prices_def)
  then show ?thesis
    using assms by (cases "be_event_type ev")
      (simp_all add: book_apply_stamp fair_event_def fair_book_add fair_book_modify fair_book_cancel fair_book_trade)
qed

lemma fair_book_events: "fair_book b \<Longrightarrow> list_all fair_event evs \<Longrightarrow> fair_book (apply_events evs b)"
  unfolding apply_events_def by (induction evs arbitrary: b) (simp_all add: fair_book_apply)

lemma fair_books_event:
  assumes "fair_books bm" and "fair_event ev"
  shows "fair_books (snd (bm_on_event ev bm))"
proof -
  have "fair_book (case map_of (bm_books bm) k of None \<Rightarrow> new_book v i | Some b \<Rightarrow> b)" for k v i
    using assms(1) by (simp add: fair_books_def del: map_of_eq_Some_iff split: option.split)
  then show ?thesis
    using assms(1) fair_book_apply [OF _ assms(2)]
    by (auto simp: fair_books_def bm_on_event_def Let_def alist_simps simp del: map_of_eq_Some_iff)
qed

section \<open>A gateway that trades at fair prices\<close>

locale priced_gateway = order_gateway +
  fixes fair :: "i64 \<Rightarrow> bool"
  assumes send_fair: "good g \<Longrightarrow> sendable (or_intent o1) \<Longrightarrow> send o1 g = Some (rs, g') \<Longrightarrow>
      good g' \<and> (\<forall>r \<in> set rs. is_fill r \<longrightarrow> fair (er_price_paise r))"
begin

lemma reports_prices:
  assumes "\<forall>r \<in> set rs. is_fill r \<longrightarrow> fair (er_price_paise r)"
  shows "\<exists>fs. om_fills (fst (fold om_on_report rs s)) = om_fills (fst s) @ fs \<and> (\<forall>f \<in> set fs. fair (fl_fill_px_paise f))"
  using assms
proof (induction rs arbitrary: s)
  case (Cons r rs)
  obtain om pos where s: "s = (om, pos)" by force
  have "\<exists>fs. om_fills (fst (om_on_report r s)) = om_fills om @ fs \<and> (\<forall>f \<in> set fs. fair (fl_fill_px_paise f))"
    using Cons.prems on_report_known [of om r _ pos]
    by (cases "map_of (om_orders om) (er_client_order_id r)")
      (auto simp: s om_on_report_def [of r] is_fill_def fill_of_report_def simp del: map_of_eq_Some_iff)
  moreover have "\<forall>r \<in> set rs. is_fill r \<longrightarrow> fair (er_price_paise r)" using Cons.prems by simp
  ultimately show ?case using Cons.IH [of "om_on_report r s"] by (fastforce simp: s)
qed simp

lemma submit_fair:
  assumes "ids_ok om" and "ig_order_seq (om_ids om) \<noteq> - 1" and "good g" and "sendable i"
    and "om_submit send i now (om, pos) g = Some (o1, s', g')"
  shows "good g' \<and> (\<exists>fs. om_fills (fst s') = om_fills om @ fs \<and> (\<forall>f \<in> set fs. fair (fl_fill_px_paise f)))"
proof -
  let ?cid = "next_cid i om"
  let ?o = "sent_order i ?cid now"
  have new: "map_of (om_orders om) ?cid = None" unfolding next_cid_def by (rule fresh_id [OF assms(1,2)])
  let ?om = "om\<lparr>om_ids := (om_ids om)\<lparr>ig_order_seq := ig_order_seq (om_ids om) + 1\<rparr>,
    om_orders := AList.update ?cid ?o (om_orders om)\<rparr>"
  obtain rs where rs: "send ?o g = Some (rs, g')"
    "s' = fold (\<lambda>r. om_on_report (complete_report ?cid i r)) rs (?om, pos)"
    using assms(5) new
    by (auto simp: om_submit_def next_order_def Let_def next_cid_def [symmetric] sent_order_def [of i] split: option.splits)
  from send_fair [OF assms(3) _ rs(1)] assms(4)
  have f: "good g'" "\<forall>r \<in> set (map (complete_report ?cid i) rs). is_fill r \<longrightarrow> fair (er_price_paise r)"
    by (simp_all add: sent_order_def)
  have "fold om_on_report (map (complete_report ?cid i) rs) (?om, pos) = s'"
    unfolding rs(2) by (simp add: fold_map comp_def)
  with reports_prices [OF f(2), of "(?om, pos)"] f(1) show ?thesis by simp
qed

end

interpretation fair_matching: priced_gateway "matching_send h clock" "\<lambda>g. engine_ok h V g \<and> fair_books (me_books g)" fair_price
  for h clock V
proof
  fix g :: matching_engine and o1 :: order and rs g'
  let ?i = "or_intent o1"
  let ?cap = "cap_fill_qty (oi_role ?i) (oi_qty ?i) (snd (should_reject (oi_role ?i) (me_scenario g)))"
  assume g: "engine_ok h V g \<and> fair_books (me_books g)" and o1: "sendable ?i"
  show fair: "(engine_ok h V g' \<and> fair_books (me_books g')) \<and> (\<forall>r \<in> set rs. is_fill r \<longrightarrow> fair_price (er_price_paise r))"
    if m: "matching_send h clock o1 g = Some (rs, g')" for rs g'
  proof -
    have "engine_ok h V g'" using matching.send_ok [of h V g o1 clock] g o1 m by auto
    moreover have "fair_books (me_books g') \<and> (\<forall>r \<in> set rs. is_fill r \<longrightarrow> fair_price (er_price_paise r))"
    proof (cases "\<exists>b fs b'. bm_book (oi_venue ?i) (oi_instrument_id ?i) (me_books g) = Some b \<and>
        match_ioc h (oi_side ?i) (oi_price_paise ?i) ?cap b = Some (fs, b') \<and>
        me_books g' = bm_put_book (oi_venue ?i) (oi_instrument_id ?i) b' (me_books g) \<and>
        (\<exists>ts d. rs = match_reports o1 ts d fs)")
      case True
      then obtain b fs b' ts d where b: "bm_book (oi_venue ?i) (oi_instrument_id ?i) (me_books g) = Some b"
        "match_ioc h (oi_side ?i) (oi_price_paise ?i) ?cap b = Some (fs, b')"
        "me_books g' = bm_put_book (oi_venue ?i) (oi_instrument_id ?i) b' (me_books g)" "rs = match_reports o1 ts d fs"
        by blast
      have ok: "book_ok b" "fair_book b" "iteration_ok h"
        using g b(1) books_ok_book fair_books_book by (auto simp: engine_ok_def)
      have q: "?cap \<le> i64_max"
        using o1 order_trans [OF cap_le] by (simp add: sendable_def)
      have f: "fair_book b'" "\<forall>f \<in> set fs. fair_price (lf_price_paise f)"
        using match_ioc_fair [OF ok _ _ q b(2)] o1 by (simp_all add: sendable_def)
      then show ?thesis
        using g b(3) fair_books_put by (auto simp: b(4) match_reports_def make_report_def is_fill_def Let_def)
    next
      case False
      with m g show ?thesis
        by (auto simp: matching_send_def Let_def make_report_def is_fill_def split: if_splits prod.splits option.splits)
    qed
    ultimately show ?thesis by blast
  qed
  obtain rs g' where "matching_send h clock o1 g = Some (rs, g')" "report_protocol o1 rs"
    using matching.send_ok [of h V g o1 clock] g o1 by blast
  with fair show "\<exists>rs g'. matching_send h clock o1 g = Some (rs, g') \<and> (engine_ok h V g' \<and> fair_books (me_books g')) \<and> report_protocol o1 rs"
    by blast
qed

end
