(* ===== verification/Sim_Profit.thy ===== *)
theory Sim_Profit
  imports Sim_Replay Priced_Matching
begin

text \<open>
  What an opportunity can cost. Books, gateway, order manager, risk engine, pair and hedge
  policy together bound the result of a pair from below: the gross spread on every share
  both legs traded, less the hedge loss limit for each hedge attempt, less one paisa a share.
\<close>

section \<open>One order\<close>

text \<open>The fills of an order name an order of one of the given roles in the order table.\<close>

definition filled_as :: "order_role set \<Rightarrow> order_manager \<Rightarrow> fill list \<Rightarrow> bool" where
  "filled_as R om fs \<longleftrightarrow> (\<forall>f \<in> set fs. \<exists>o1. (fl_client_order_id f, o1) \<in> set (om_orders om) \<and> oi_role (or_intent o1) \<in> R)"

definition traded :: "order_intent \<Rightarrow> order_manager \<Rightarrow> fill list \<Rightarrow> order_manager \<Rightarrow> bool" where
  "traded i om fs om' \<longleftrightarrow> om_fills om' = om_fills om @ fs \<and> (\<exists>o1 cid. om_orders om' = om_orders om @ [(cid, o1)] \<and>
     or_intent o1 = i \<and> list_all (fill_matches i cid) fs) \<and> fills_qty fs \<le> oi_qty i \<and> fair_fills fs"

lemma traded_filled_as: "traded i om fs om' \<Longrightarrow> oi_role i \<in> R \<Longrightarrow> filled_as R om' fs"
  unfolding traded_def filled_as_def list_all_iff fill_matches_def by fastforce

lemma filled_as_later: "filled_as R om fs \<Longrightarrow> set (om_orders om) \<subseteq> set (om_orders om') \<Longrightarrow> filled_as R om' fs"
  unfolding filled_as_def by blast

lemma filled_as_mono: "filled_as R om fs \<Longrightarrow> R \<subseteq> R' \<Longrightarrow> filled_as R' om fs"
  unfolding filled_as_def by blast

lemma filled_as_append [simp]: "filled_as R om (fs @ gs) \<longleftrightarrow> filled_as R om fs \<and> filled_as R om gs"
  "filled_as R om []"
  by (auto simp: filled_as_def)

lemma trade_fills:
  assumes ok: "sim_ok h V cfg K w" and K: "K < 2 ^ 64 - 1" and cfg: "limits_sane cfg" and fair: "fair_books (w_books w)"
    and chk: "check_order i q now (w_positions w) (w_risk w) = (rd, risk)" "rd_approved rd"
    and i: "oi_side i \<noteq> SUnknown" "oi_parent_arb_id i = pt_parent_id p"
    and w1: "w_oms w1 = w_oms w" "w_positions w1 = w_positions w" "w_books w1 = w_books w"
    and sub: "submit_world h clock i now w1 = Some (o1, w2)" "collect_fills o1 p w2 = (p', w3)"
  shows "\<exists>fs. traded i (w_oms w) fs (w_oms w3) \<and> p' = fold pair_apply_fill fs p \<and> fair_books (w_books w3)"
proof -
  let ?om = "w_oms w" and ?pos = "w_positions w"
  have inv: "engine_ok h V (w_engine w1)" "ids_ok ?om" "om_consumed ?om = length (om_fills ?om)"
    "ig_order_seq (om_ids ?om) \<noteq> - 1" "fair_books (me_books (w_engine w1))"
    using ok w1(3) fair order_seq_room [OF ok K]
    by (auto simp: sim_ok_def engine_ok_def om_inv_def)
  have "rk_cfg (w_risk w) = cfg" "\<bar>pos_net (oi_instrument_id i) ?pos\<bar> \<le> rc_max_position_qty cfg"
    using ok by (simp_all add: sim_ok_def)
  with approved_safe(1) [OF chk _ _ i(1)] cfg have snd: "sendable i" by simp
  obtain s' e where s: "om_submit (matching_send h clock) i now (?om, ?pos) (w_engine w1) = Some (o1, s', e)"
    "w2 = w1\<lparr>w_oms := fst s', w_positions := snd s', w_engine := e\<rparr>"
    using sub(1) w1(1,2) by (auto simp: submit_world_def split: option.splits prod.splits)
  obtain fs where fs: "om_fills (fst s') = om_fills ?om @ fs" "list_all (fill_matches i (next_cid i ?om)) fs"
    "fills_qty fs = or_filled_qty o1" "om_consumed (fst s') = om_consumed ?om" "settled o1" "or_intent o1 = i"
    "om_orders (fst s') = om_orders ?om @ [(next_cid i ?om, o1)]"
    using matching.submit_ok [OF inv(2,4,1) snd, of clock now ?pos] s(1) by (auto simp: submitted_def)
  from fair_matching.submit_fair [OF inv(2,4) _ snd s(1)] inv(1,5) fs(1)
  have f: "fair_books (me_books e)" "\<forall>f \<in> set fs. fair_price (fl_fill_px_paise f)" by auto
  with fs(2) have "fair_fills fs" by (auto simp: fair_fills_def list_all_iff fill_matches_def)
  moreover have "list_all (\<lambda>f. fl_parent_arb_id f = pt_parent_id p) fs"
    using fs(2) i(2) by (auto simp: list_all_iff fill_matches_def)
  note apply_fills_pair(1) [OF this]
  ultimately show ?thesis
    using sub(2) fs f(1) inv(3) unfolding traded_def
    by (intro exI [of _ fs]) (auto simp: s(2) collect_fills_def om_take_new_fills_def settled_def)
qed

section \<open>A leg\<close>

text \<open>The pair's fields account for exactly the fills recorded since the fills \<open>F\<close>, all in instrument \<open>ins\<close>.\<close>

definition settling :: "u32 \<Rightarrow> fill list \<Rightarrow> fill list \<Rightarrow> pair_trade \<Rightarrow> sim_world \<Rightarrow> bool" where
  "settling ins F fs p w \<longleftrightarrow> om_fills (w_oms w) = F @ fs \<and> accounts p fs \<and> fair_fills fs \<and> fair_books (w_books w) \<and>
     (\<forall>f \<in> set fs. fl_instrument_id f = ins)"

lemma settling_cong:
  assumes "settling ins F fs p w" and "accounts p' = accounts p" and "w_oms w' = w_oms w" and "w_books w' = w_books w"
  shows "settling ins F fs p' w'"
  using assms by (simp add: settling_def)

definition leg_fills :: "order_intent \<Rightarrow> order_manager \<Rightarrow> fill list \<Rightarrow> order_manager \<Rightarrow> bool" where
  "leg_fills i om gs om' \<longleftrightarrow> (\<exists>cid. list_all (fill_matches i cid) gs) \<and> fills_qty gs \<le> 1000 \<and>
     filled_as {oi_role i} om' gs \<and> set (om_orders om) \<subseteq> set (om_orders om')"

lemma leg_fills_Nil: "leg_fills i om [] om"
  by (simp add: leg_fills_def fills_qty_def)

lemma traded_leg: "traded i om gs om' \<Longrightarrow> oi_qty i \<le> 1000 \<Longrightarrow> leg_fills i om gs om'"
  using traded_filled_as [of i om gs om' "{oi_role i}"] by (auto simp: leg_fills_def traded_def)

lemma traded_settling:
  assumes "settling ins F fs p w" and "traded i (w_oms w) gs (w_oms w')" and "small_lot (fs @ gs)" and "fair_books (w_books w')"
    and "oi_instrument_id i = ins"
  shows "settling ins F (fs @ gs) (fold pair_apply_fill gs p) w'"
  using assms accounts_fills [of p fs gs] by (auto simp: settling_def traded_def list_all_iff fill_matches_def)

lemma send_one_fills:
  assumes ok: "sim_ok h V cfg K w" and K: "K < 2 ^ 64 - 1" and cfg: "limits_sane cfg" "rc_max_order_qty cfg \<le> 1000"
    and i: "oi_side i \<noteq> SUnknown" "oi_parent_arb_id i = pt_parent_id p" and ins: "oi_instrument_id i = ins"
    and st: "settling ins F fs p w" "small_lot fs" "side_qty (oi_side i) fs = 0"
    and snd: "send_one h clock q now i (p, w) = Some (p', w')"
  shows "\<exists>gs. settling ins F (fs @ gs) p' w' \<and> leg_fills i (w_oms w) gs (w_oms w') \<and> small_lot (fs @ gs)"
proof -
  obtain rd risk where chk: "check_order i q now (w_positions w) (w_risk w) = (rd, risk)" by force
  define w2 where "w2 = timer_stop clock ''risk'' (clock (me_ticks (w_engine w))) ((tick w)\<lparr>w_risk := risk\<rparr>)"
  have w2: "w_oms w2 = w_oms w" "w_positions w2 = w_positions w" "w_books w2 = w_books w" by (simp_all add: w2_def)
  show ?thesis
  proof (cases "rd_approved rd")
    case False
    then have "accounts p' = accounts p" "w_oms w' = w_oms w" "w_books w' = w_books w"
      using snd chk w2 by (auto simp: send_one_def timer_start_def w2_def [symmetric] Let_def)
    then show ?thesis using st settling_cong [OF st(1)] leg_fills_Nil by (intro exI [of _ "[]"]) simp
  next
    case True
    obtain o1 w4 p1 w5 where s: "submit_world h clock i now (tick w2) = Some (o1, w4)" "collect_fills o1 p w4 = (p1, w5)"
      "accounts p' = accounts p1" "w_oms w' = w_oms w5" "w_books w' = w_books w5"
      using snd chk True
      by (auto simp: send_one_def timer_start_def w2_def [symmetric] Let_def split: option.splits prod.splits)
    obtain gs where gs: "traded i (w_oms w) gs (w_oms w5)" "p1 = fold pair_apply_fill gs p" "fair_books (w_books w5)"
      using trade_fills [OF ok K cfg(1) _ chk True i _ _ _ s(1,2)] st(1) w2 by (auto simp: settling_def)
    have q: "oi_qty i \<le> 1000" using check_order_approved [OF chk True] ok cfg(2) by (simp add: sim_ok_def)
    have "small_lot (fs @ gs)"
      using one_sided(1) [OF _ i(1), of _ gs] gs(1) q st(2,3)
      by (auto simp: traded_def small_lot_def)
    with traded_settling [OF st(1) gs(1) _ gs(3) ins] traded_leg [OF gs(1) q] gs(2) s show ?thesis
      by (intro exI [of _ gs]) (auto intro: settling_cong)
  qed
qed

section \<open>Hedging\<close>

lemma fair_value_or:
  assumes "fair_books (w_books w)"
  shows "sane_quote (value_or (bm_quote v i now (w_books w)))"
proof (cases "bm_book v i (w_books w)")
  case None
  then show ?thesis by (simp add: value_or_def bm_quote_def sane_quote_def empty_quote_def sane_money_def)
next
  case (Some b)
  with fair_books_book [OF assms Some] show ?thesis
    by (simp add: value_or_def bm_quote_def fair_quote)
qed

text \<open>Limits under which the loss of a hedge is computed exactly and enforced.\<close>

definition loss_limited :: "risk_config \<Rightarrow> bool" where
  "loss_limited cfg \<longleftrightarrow> limits_sane cfg \<and> rc_max_order_qty cfg \<le> 1000 \<and> 0 \<le> rc_max_hedge_loss_paise cfg \<and>
     \<not> rc_force_flatten_on_max_loss cfg"

lemma hedge_step_fills:
  assumes ok: "sim_ok h V cfg K w" and K: "K < 2 ^ 64 - 1" and cfg: "loss_limited cfg"
    and att: "0 \<le> pt_hedge_attempts p" "pt_hedge_attempts p < 2147483647"
    and st: "settling ins F fs p w" and ins: "pt_instrument_id p = ins" and legs: "fair_fills legs" "small_lot legs"
    and hg: "hedged (rc_max_hedge_loss_paise cfg) (pt_hedge_attempts p) legs fs"
    and step: "hedge_step h clock cfg now p w = Some (go, p', w')"
  shows "\<exists>gs. settling ins F (fs @ gs) p' w' \<and> hedged (rc_max_hedge_loss_paise cfg) (pt_hedge_attempts p') legs (fs @ gs) \<and>
    filled_as {Hedge} (w_oms w') gs \<and> set (om_orders (w_oms w)) \<subseteq> set (om_orders (w_oms w')) \<and>
    pt_hedge_attempts p + (if gs = [] then 0 else 1) \<le> pt_hedge_attempts p' \<and>
    pt_hedge_attempts p' \<le> pt_hedge_attempts p + 1"
proof -
  define nse where "nse = value_or (bm_quote NSE (pt_instrument_id p) now (w_books w))"
  define bse where "bse = value_or (bm_quote BSE (pt_instrument_id p) now (w_books w))"
  define d where "d = hedge_next_order cfg p nse bse"
  define p1 where "p1 = p\<lparr>pt_hedge_attempts := wrap32 (pt_hedge_attempts p + 1)\<rparr>"
  define L where "L = rc_max_hedge_loss_paise cfg"
  have p1: "pt_hedge_attempts p1 = pt_hedge_attempts p + 1" "pt_parent_id p1 = pt_parent_id p" "accounts p1 = accounts p"
    using att by (simp_all add: p1_def wrap32_def)
  have small: "small_lot fs" using hedged_small [OF hg legs(2)] .
  note acc = st [unfolded settling_def]
  note defs = hedge_step_def Let_def nse_def [symmetric] bse_def [symmetric] d_def [symmetric] p1_def [symmetric]
  have keep: ?thesis if "w_oms w' = w_oms w" "w_books w' = w_books w" "accounts p' = accounts p"
    "pt_hedge_attempts p' \<in> {pt_hedge_attempts p, pt_hedge_attempts p + 1}"
    using that st cfg hedged_mono [OF hg, of "pt_hedge_attempts p'"]
    by (intro exI [of _ "[]"]) (auto simp: loss_limited_def intro: settling_cong)
  show ?thesis
  proof (cases "hd_kill d \<or> \<not> hd_should_send d")
    case True
    with step have "w_oms w' = w_oms w \<and> w_books w' = w_books w \<and> accounts p' = accounts p \<and> pt_hedge_attempts p' = pt_hedge_attempts p"
      by (auto simp: defs split: if_splits)
    then show ?thesis by (intro keep) simp_all
  next
    case send: False
    let ?i = "hd_intent d" and ?q = "if oi_venue (hd_intent d) = NSE then nse else bse"
    obtain rd risk where chk: "check_order ?i ?q now (w_positions w) (w_risk w) = (rd, risk)" by force
    show ?thesis
    proof (cases "rd_approved rd")
      case False
      with step send chk have "w_oms w' = w_oms w \<and> w_books w' = w_books w \<and> accounts p' = accounts p1 \<and>
          pt_hedge_attempts p' = pt_hedge_attempts p1"
        by (auto simp: defs split: if_splits)
      then show ?thesis using p1 by (intro keep) simp_all
    next
      case True
      obtain o1 w2 w3 where s: "submit_world h clock ?i now (w\<lparr>w_risk := risk\<rparr>) = Some (o1, w2)"
        "collect_fills o1 p1 w2 = (p', w3)" "w_oms w' = w_oms w3" "w_books w' = w_books w3"
        using step send chk True by (auto simp: defs split: if_splits option.splits prod.splits)
      have "hedge_sane cfg p nse" "hedge_sane cfg p bse"
        using fair_value_or [of w] acc accounts_avg [of p fs] accounts_residual [of p fs] small cfg
          side_bounds(1) [of fs Buy] side_bounds(1) [of fs Sell]
        by (auto simp: hedge_sane_def nse_def bse_def loss_limited_def small_lot_def)
      then obtain v where hd: "hedges cfg p (quote_of v nse bse) v ?i"
        using next_order_hedges [of cfg p nse bse] send by (auto simp: d_def)
      then have i: "oi_side ?i \<noteq> SUnknown" "oi_parent_arb_id ?i = pt_parent_id p1" "oi_role ?i = Hedge" "oi_instrument_id ?i = ins"
        using p1(2) ins by (auto simp: hedges_def split: if_splits)
      obtain gs where gs: "traded ?i (w_oms w) gs (w_oms w3)" "p' = fold pair_apply_fill gs p1" "fair_books (w_books w3)"
        using trade_fills [OF ok K _ _ chk True i(1,2) _ _ _ s(1,2)] cfg acc by (auto simp: loss_limited_def)
      then obtain cid where m: "list_all (fill_matches ?i cid) gs" "fills_qty gs \<le> oi_qty ?i" "fair_fills gs"
        by (auto simp: traded_def)
      have "hedged L (pt_hedge_attempts p + 1) legs (fs @ gs)"
        using hedged_step [OF _ _ small hg [folded L_def] legs(1) hd _ _ m] acc cfg by (simp add: loss_limited_def L_def)
      moreover have "same_pair p1 p'"
      proof -
        have "list_all (\<lambda>f. fl_parent_arb_id f = pt_parent_id p1) gs"
          using m(1) i(2) by (auto simp: list_all_iff fill_matches_def)
        from apply_fills_pair(1,2) [OF this] show ?thesis by (simp add: gs(2))
      qed
      moreover have "settling ins F (fs @ gs) p' w3"
        using traded_settling [OF settling_cong [OF st p1(3) refl refl] gs(1) _ gs(3) i(4)] hedged_small [OF calculation(1) legs(2)]
        by (simp add: gs(2))
      moreover have "filled_as {Hedge} (w_oms w3) gs" using traded_filled_as [OF gs(1)] i(3) by simp
      moreover have "set (om_orders (w_oms w)) \<subseteq> set (om_orders (w_oms w3))" using gs(1) by (auto simp: traded_def)
      ultimately show ?thesis
        using p1(1) s(3,4) by (intro exI [of _ gs]) (auto simp: same_pair_def L_def intro: settling_cong)
    qed
  qed
qed


lemma hedge_loop_fills:
  assumes "sim_ok h V cfg K w" and "exposed n0 p w" and cfg: "loss_limited cfg" and "0 \<le> pt_hedge_attempts p"
    and "K + attempts_left cfg p < 2 ^ 64" and "residual p \<noteq> 0 \<longrightarrow> pt_state p = PsHedging"
    and "settling ins F fs p w" and "pt_instrument_id p = ins" and legs: "fair_fills legs" "small_lot legs"
    and "hedged (rc_max_hedge_loss_paise cfg) (pt_hedge_attempts p) legs fs"
    and "hedge_loop h clock cfg now p w = Some (p', w')"
  shows "\<exists>gs. settling ins F (fs @ gs) p' w' \<and> hedged (rc_max_hedge_loss_paise cfg) (pt_hedge_attempts p') legs (fs @ gs) \<and>
    filled_as {Hedge} (w_oms w') gs \<and> set (om_orders (w_oms w)) \<subseteq> set (om_orders (w_oms w')) \<and>
    pt_hedge_attempts p + (if gs = [] then 0 else 1) \<le> pt_hedge_attempts p' \<and>
    pt_hedge_attempts p' \<le> max (pt_hedge_attempts p) (rc_max_hedge_attempts cfg)"
  using assms(1,2,4-8,11,12)
proof (induction "attempts_left cfg p" arbitrary: p w K fs)
  case 0
  then have "\<not> pt_hedge_attempts p < rc_max_hedge_attempts cfg" by (simp add: attempts_left_def)
  with 0 show ?case by (intro exI [of _ "[]"]) (auto simp: hedge_loop.simps [of h clock cfg now p w])
next
  case (Suc n)
  note fx = hedge_loop.simps [of h clock cfg now p w]
  show ?case
  proof (cases "residual p = 0")
    case True
    with Suc show ?thesis by (intro exI [of _ "[]"]) (auto simp: fx)
  next
    case False
    have lt: "pt_hedge_attempts p < rc_max_hedge_attempts cfg" using Suc(2) by (simp add: attempts_left_def)
    have K: "K < 2 ^ 64 - 1" using Suc.prems(4) Suc(2) by simp
    have lim: "limits_sane cfg" using cfg by (simp add: loss_limited_def)
    then have max: "pt_hedge_attempts p < 2147483647" using lt by (simp add: limits_sane_def)
    obtain go p1 w1 where st: "hedge_step h clock cfg now p w = Some (go, p1, w1)" "step_ok h V cfg (Suc K) n0 (p, w) (p1, w1)"
      "go \<longrightarrow> pt_hedge_attempts p1 = pt_hedge_attempts p + 1 \<and> (residual p1 \<noteq> 0 \<longrightarrow> pt_state p1 = PsHedging)"
      using hedge_step_ok [OF Suc.prems(1) K lim Suc.prems(2,3) max, of clock now] Suc.prems(5) False by auto
    obtain gs where gs: "settling ins F (fs @ gs) p1 w1"
      "hedged (rc_max_hedge_loss_paise cfg) (pt_hedge_attempts p1) legs (fs @ gs)" "filled_as {Hedge} (w_oms w1) gs"
      "set (om_orders (w_oms w)) \<subseteq> set (om_orders (w_oms w1))"
      "pt_hedge_attempts p + (if gs = [] then 0 else 1) \<le> pt_hedge_attempts p1" "pt_hedge_attempts p1 \<le> pt_hedge_attempts p + 1"
      using hedge_step_fills [OF Suc.prems(1) K cfg Suc.prems(3) max Suc.prems(6,7) legs Suc.prems(8) st(1)] by blast
    show ?thesis
    proof (cases go)
      case False
      with Suc.prems(9) st(1) lt \<open>residual p \<noteq> 0\<close> have "p' = p1 \<and> w' = w1" by (simp add: fx)
      with gs lt show ?thesis by (intro exI [of _ gs]) auto
    next
      case True
      have n: "n = attempts_left cfg p1" using st(3) True Suc(2) by (simp add: attempts_left_def)
      have pre: "sim_ok h V cfg (Suc K) w1" "exposed n0 p1 w1" using st(2) by (simp_all add: step_ok_def)
      have run: "hedge_loop h clock cfg now p1 w1 = Some (p', w')"
        using Suc.prems(9) st(1) lt True \<open>residual p \<noteq> 0\<close> by (simp add: fx)
      have "0 \<le> pt_hedge_attempts p1" "Suc K + attempts_left cfg p1 < 2 ^ 64" "residual p1 \<noteq> 0 \<longrightarrow> pt_state p1 = PsHedging"
        "pt_instrument_id p1 = ins"
        using st(2,3) True Suc.prems(3,4,7) n Suc(2) by (simp_all add: step_ok_def)
      from Suc(1) [OF n pre this(1-3) gs(1) this(4) gs(2) run] obtain gs' where gs': "settling ins F ((fs @ gs) @ gs') p' w'"
        "hedged (rc_max_hedge_loss_paise cfg) (pt_hedge_attempts p') legs ((fs @ gs) @ gs')" "filled_as {Hedge} (w_oms w') gs'"
        "set (om_orders (w_oms w1)) \<subseteq> set (om_orders (w_oms w'))"
        "pt_hedge_attempts p1 + (if gs' = [] then 0 else 1) \<le> pt_hedge_attempts p'"
        "pt_hedge_attempts p' \<le> max (pt_hedge_attempts p1) (rc_max_hedge_attempts cfg)"
        by blast
      moreover have "filled_as {Hedge} (w_oms w') gs" using filled_as_later [OF gs(3) gs'(4)] .
      ultimately show ?thesis
        using gs(4) st(3) True lt by (intro exI [of _ "gs @ gs'"]) (auto split: if_splits)
    qed
  qed
qed

section \<open>The whole opportunity\<close>

lemma execute_parts:
  assumes "execute_opportunity h clock sim opp now w = Some r"
  obtains f s q1 q2 p1 w1 p2 w2 p3 w3 where "{f, s} = {buy_intent opp, sell_intent opp}" and "oi_side f \<noteq> oi_side s"
    and "send_one h clock q1 now f (from_opportunity opp, w) = Some (p1, w1)"
    and "send_one h clock q2 now s (p1, w1) = Some (p2, w2)"
    and "(if residual p2 \<noteq> 0 then hedge_until_flat h clock (si_risk_cfg sim) now (p2\<lparr>pt_state := PsHedging\<rparr>) w2
      else Some (p2, w2)) = Some (p3, w3)"
    and "r = finish_pair (p3, w3)"
proof -
  define nse where "nse = value_or (bm_quote NSE (ao_instrument_id opp) now (w_books w))"
  define bse where "bse = value_or (bm_quote BSE (ao_instrument_id opp) now (w_books w))"
  obtain f s where fs: "(f, s) = (if sn_send_sell_first (si_scenario sim) then (sell_intent opp, buy_intent opp)
      else (buy_intent opp, sell_intent opp))"
    by (metis surj_pair)
  then have roles: "{f, s} = {buy_intent opp, sell_intent opp}" "oi_side f \<noteq> oi_side s"
    by (auto simp: buy_intent_def sell_intent_def split: if_splits)
  from assms obtain p1 w1 p2 w2 p3 w3 where
    st: "send_one h clock (if oi_venue f = NSE then nse else bse) now f (from_opportunity opp, w) = Some (p1, w1)"
    "send_one h clock (if oi_venue s = NSE then nse else bse) now s (p1, w1) = Some (p2, w2)"
    "(if residual p2 \<noteq> 0 then hedge_until_flat h clock (si_risk_cfg sim) now (p2\<lparr>pt_state := PsHedging\<rparr>) w2
      else Some (p2, w2)) = Some (p3, w3)"
    unfolding execute_opportunity_def Let_def fs [symmetric] nse_def [symmetric] bse_def [symmetric]
    by (auto split: option.splits prod.splits)
  from execute_stages [OF nse_def bse_def fs st] assms have "r = finish_pair (p3, w3)" by simp
  from that [OF roles st this] show ?thesis .
qed


definition is_leg :: "arb_opportunity \<Rightarrow> order_intent \<Rightarrow> bool" where
  "is_leg opp i \<longleftrightarrow> i = buy_intent opp \<or> i = sell_intent opp"

lemma is_leg_simps:
  assumes "is_leg opp i"
  shows "oi_side i \<noteq> SUnknown" and "oi_parent_arb_id i = ao_parent_arb_id opp" and "oi_instrument_id i = ao_instrument_id opp"
    and "oi_role i \<in> {AlphaBuy, AlphaSell}"
  using assms by (auto simp: is_leg_def buy_intent_def sell_intent_def)

text \<open>Bought at most at the limit of the buy leg, sold at least at that of the sell leg.\<close>

definition leg_prices :: "arb_opportunity \<Rightarrow> fill list \<Rightarrow> bool" where
  "leg_prices opp ls \<longleftrightarrow> side_value Buy ls \<le> side_qty Buy ls * ao_buy_price_paise opp \<and>
     side_qty Sell ls * ao_sell_price_paise opp \<le> side_value Sell ls"

lemma leg_fills_prices:
  assumes "is_leg opp i" and "leg_fills i om gs om'"
  shows "leg_prices opp gs" and "sd \<noteq> oi_side i \<Longrightarrow> side_qty sd gs = 0"
    and "filled_as {AlphaBuy, AlphaSell} om' gs"
proof -
  obtain cid where m: "list_all (fill_matches i cid) gs" using assms(2) by (auto simp: leg_fills_def)
  note one = one_sided [OF m is_leg_simps(1) [OF assms(1)]]
  show "leg_prices opp gs"
    using one assms(1) by (auto simp: leg_prices_def is_leg_def buy_intent_def sell_intent_def)
  show "side_qty sd gs = 0" if "sd \<noteq> oi_side i" using one(1) that by simp
  show "filled_as {AlphaBuy, AlphaSell} om' gs"
    using assms(2) is_leg_simps(4) [OF assms(1)] filled_as_mono [of "{oi_role i}"] by (simp add: leg_fills_def)
qed

lemma leg_prices_append: "leg_prices opp xs \<Longrightarrow> leg_prices opp ys \<Longrightarrow> leg_prices opp (xs @ ys)"
  by (simp add: leg_prices_def distrib_right)

text \<open>One leg more: the state of the pair between the legs, \<open>legs_ok\<close>, is kept.\<close>

definition legs_ok ::
  "iteration_order \<Rightarrow> int \<Rightarrow> risk_config \<Rightarrow> nat \<Rightarrow> arb_opportunity \<Rightarrow> position_book \<Rightarrow> fill list \<Rightarrow> fill list \<Rightarrow>
   pair_trade \<Rightarrow> sim_world \<Rightarrow> bool" where
  "legs_ok h V cfg K opp n0 F ls p w \<longleftrightarrow> sim_ok h V cfg K w \<and> exposed n0 p w \<and> pt_hedge_attempts p = 0 \<and>
     pt_parent_id p = ao_parent_arb_id opp \<and> pt_instrument_id p = ao_instrument_id opp \<and>
     settling (ao_instrument_id opp) F ls p w \<and> small_lot ls \<and> leg_prices opp ls \<and>
     filled_as {AlphaBuy, AlphaSell} (w_oms w) ls"

lemma leg_step:
  assumes lg: "legs_ok h V cfg K opp n0 F ls p w" and K: "K < 2 ^ 64 - 1" and cfg: "loss_limited cfg"
    and i: "is_leg opp i" "side_qty (oi_side i) ls = 0" and snd: "send_one h clock q now i (p, w) = Some (p', w')"
  obtains gs where "legs_ok h V cfg (Suc K) opp n0 F (ls @ gs) p' w'" and "\<And>sd. sd \<noteq> oi_side i \<Longrightarrow> side_qty sd gs = 0"
proof -
  note l = lg [unfolded legs_ok_def] and i' = is_leg_simps [OF i(1)]
  have c: "limits_sane cfg" "rc_max_order_qty cfg \<le> 1000" using cfg by (simp_all add: loss_limited_def)
  obtain gs where gs: "settling (ao_instrument_id opp) F (ls @ gs) p' w'" "leg_fills i (w_oms w) gs (w_oms w')" "small_lot (ls @ gs)"
    using send_one_fills [OF _ K c i'(1) _ i'(3) _ _ i(2) snd] l i'(2) by auto
  have "step_ok h V cfg (Suc K) n0 (p, w) (p', w') \<and> pt_hedge_attempts p' = pt_hedge_attempts p"
    using send_one_ok [OF _ K c(1) i'(1), of h V w p n0 clock q now] l i'(2,3) snd by auto
  moreover have "leg_prices opp (ls @ gs)" using l leg_fills_prices(1) [OF i(1) gs(2)] by (simp add: leg_prices_append)
  moreover have "filled_as {AlphaBuy, AlphaSell} (w_oms w') (ls @ gs)"
    using l gs(2) leg_fills_prices(3) [OF i(1) gs(2)] by (auto simp: leg_fills_def intro: filled_as_later)
  ultimately have "legs_ok h V cfg (Suc K) opp n0 F (ls @ gs) p' w'"
    using l gs(1,3) by (simp add: legs_ok_def step_ok_def)
  with that leg_fills_prices(2) [OF i(1) gs(2)] show ?thesis by blast
qed

lemma legs_start:
  assumes "sim_ok h V cfg K w" and "limits_sane cfg" and "fair_books (w_books w)"
  shows "legs_ok h V cfg K opp (w_positions w) (om_fills (w_oms w)) [] (from_opportunity opp) w"
proof -
  have "accounts (from_opportunity opp) []" by (simp add: accounts_def from_opportunity_def)
  with assms show ?thesis
    by (simp add: legs_ok_def exposed_def settling_def small_lot_def leg_prices_def pos_in_range)
qed

text \<open>Hedging, if any is needed, ends with the value of the pair bounded.\<close>

lemma hedging_fills:
  assumes lg: "legs_ok h V cfg K opp n0 F ls p w" and cfg: "loss_limited cfg"
    and K: "K + nat (rc_max_hedge_attempts cfg) < 2 ^ 64"
    and run: "(if residual p \<noteq> 0 then hedge_until_flat h clock cfg now (p\<lparr>pt_state := PsHedging\<rparr>) w else Some (p, w)) = Some (p', w')"
  obtains hs where "settling (ao_instrument_id opp) F (ls @ hs) p' w'"
    and "hedged (rc_max_hedge_loss_paise cfg) (pt_hedge_attempts p') ls (ls @ hs)" and "filled_as {Hedge} (w_oms w') hs"
    and "filled_as {AlphaBuy, AlphaSell} (w_oms w') ls"
    and "pt_hedge_attempts p' \<le> max 0 (rc_max_hedge_attempts cfg)" and "pt_hedge_attempts p' = 0 \<longrightarrow> hs = []"
proof (cases "residual p = 0")
  case True
  with run lg hedged_start show ?thesis by (intro that [of "[]"]) (auto simp: legs_ok_def)
next
  case False
  let ?p = "p\<lparr>pt_state := PsHedging\<rparr>"
  note l = lg [unfolded legs_ok_def]
  have e: "exposed n0 ?p w" "settling (ao_instrument_id opp) F ls ?p w" "attempts_left cfg ?p = nat (rc_max_hedge_attempts cfg)"
    using l by (simp_all add: exposed_def settling_def attempts_left_def)
  obtain p1 where r: "hedge_loop h clock cfg now ?p w = Some (p1, w')" "accounts p' = accounts p1"
    "pt_hedge_attempts p' = pt_hedge_attempts p1"
    using run False by (auto simp: hedge_until_flat_def split: option.splits if_splits)
  obtain hs where hs: "settling (ao_instrument_id opp) F (ls @ hs) p1 w'"
    "hedged (rc_max_hedge_loss_paise cfg) (pt_hedge_attempts p1) ls (ls @ hs)" "filled_as {Hedge} (w_oms w') hs"
    "set (om_orders (w_oms w)) \<subseteq> set (om_orders (w_oms w'))"
    "(if hs = [] then 0 else 1) \<le> pt_hedge_attempts p1" "pt_hedge_attempts p1 \<le> max 0 (rc_max_hedge_attempts cfg)"
    using hedge_loop_fills [OF _ e(1) cfg _ _ _ e(2) _ _ _ _ r(1), where V = V and K = K and legs = ls] l K e(3) hedged_start
    by (auto simp: settling_def)
  have "filled_as {AlphaBuy, AlphaSell} (w_oms w') ls" using l filled_as_later [OF _ hs(4)] by blast
  with hs r settling_cong [OF hs(1)] show ?thesis by (intro that [of hs]) (auto split: if_splits)
qed

lemma gain_cash:
  assumes "\<forall>f \<in> set fs. fl_instrument_id f = ins"
  shows "cash_of ins (map pos_of_fill fs) = gain fs"
  using assms by (induction fs) (auto simp: cash_of_def gain_def pos_of_fill_def signed_qty_def)

lemma settled_cash:
  assumes "sim_ok h V cfg K w" and "sim_ok h V cfg K' w'" and "om_fills (w_oms w') = om_fills (w_oms w) @ fs"
    and "\<forall>f \<in> set fs. fl_instrument_id f = ins"
  shows "pos_cash ins (w_positions w') = wrap64 (pos_cash ins (w_positions w) + gain fs)"
proof -
  have p: "w_positions w = apply_fills (map pos_of_fill (om_fills (w_oms w))) []"
    "w_positions w' = apply_fills (map pos_of_fill (om_fills (w_oms w'))) []"
    using assms(1,2) by (simp_all add: sim_ok_def om_inv_def)
  have "in_i64 (pos_cash ins [])" by (simp add: pos_cash_def pos_position_def empty_position_def in_i64_def)
  from apply_fills_cash [OF this, of "map pos_of_fill (om_fills (w_oms w))"]
  have "in_i64 (pos_cash ins (w_positions w))" by (simp add: p(1))
  from apply_fills_cash [OF this, of "map pos_of_fill fs"] show ?thesis
    by (simp add: p assms(3) apply_fills_append gain_cash [OF assms(4)])
qed

definition pair_result :: "risk_config \<Rightarrow> arb_opportunity \<Rightarrow> order_manager \<Rightarrow> fill list \<Rightarrow> fill list \<Rightarrow> pair_trade \<Rightarrow> bool" where
  "pair_result cfg opp om ls hs p \<longleftrightarrow> filled_as {AlphaBuy, AlphaSell} om ls \<and> filled_as {Hedge} om hs \<and>
     (\<forall>f \<in> set (ls @ hs). fl_instrument_id f = ao_instrument_id opp) \<and> fair_fills ls \<and> small_lot ls \<and>
     min (side_qty Buy ls) (side_qty Sell ls) * (ao_sell_price_paise opp - ao_buy_price_paise opp)
      - pt_hedge_attempts p * rc_max_hedge_loss_paise cfg
      - (if side_qty Sell ls < side_qty Buy ls then side_qty Buy ls else 0)
      \<le> gain (ls @ hs) + open_value p \<and>
     pt_hedge_attempts p \<le> max 0 (rc_max_hedge_attempts cfg) \<and> (pt_hedge_attempts p = 0 \<longrightarrow> hs = [])"

lemma execute_result:
  assumes "sim_ok h V cfg K w" and "K + orders_per_trade cfg < 2 ^ 64" and "si_risk_cfg sim = cfg"
    and "loss_limited cfg" and "fair_books (w_books w)"
    and ex: "execute_opportunity h clock sim opp now w = Some (p', w')"
  shows "\<exists>ls hs. om_fills (w_oms w') = om_fills (w_oms w) @ ls @ hs \<and> pair_result cfg opp (w_oms w') ls hs p' \<and>
    fair_books (w_books w')"
proof -
  let ?F = "om_fills (w_oms w)" and ?n0 = "w_positions w"
  have lim: "limits_sane cfg" using assms(4) by (simp add: loss_limited_def)
  have K: "K < 2 ^ 64 - 1" "Suc K < 2 ^ 64 - 1" "Suc (Suc K) + nat (rc_max_hedge_attempts cfg) < 2 ^ 64"
    using assms(2) by (simp_all add: orders_per_trade_def)
  obtain f s q1 q2 p1 w1 p2 w2 p3 w3 where fs: "{f, s} = {buy_intent opp, sell_intent opp}" "oi_side f \<noteq> oi_side s"
    and 1: "send_one h clock q1 now f (from_opportunity opp, w) = Some (p1, w1)"
    and 2: "send_one h clock q2 now s (p1, w1) = Some (p2, w2)"
    and 3: "(if residual p2 \<noteq> 0 then hedge_until_flat h clock cfg now (p2\<lparr>pt_state := PsHedging\<rparr>) w2
      else Some (p2, w2)) = Some (p3, w3)" and r: "(p', w') = finish_pair (p3, w3)"
    using execute_parts [OF ex, unfolded assms(3)] by metis
  have leg: "is_leg opp f" "is_leg opp s" using fs(1) unfolding is_leg_def by blast+
  obtain xs where xs: "legs_ok h V cfg (Suc K) opp ?n0 ?F ([] @ xs) p1 w1" "\<And>sd. sd \<noteq> oi_side f \<Longrightarrow> side_qty sd xs = 0"
    using leg_step [OF legs_start [OF assms(1) lim assms(5)] K(1) assms(4) leg(1) _ 1] by auto
  obtain ys where ls: "legs_ok h V cfg (Suc (Suc K)) opp ?n0 ?F (xs @ ys) p2 w2"
    using leg_step [OF xs(1) K(2) assms(4) leg(2) _ 2] xs(2) [of "oi_side s"] fs(2) by auto
  define ls where "ls = xs @ ys"
  obtain hs where hs: "settling (ao_instrument_id opp) ?F (ls @ hs) p3 w3"
    "hedged (rc_max_hedge_loss_paise cfg) (pt_hedge_attempts p3) ls (ls @ hs)" "filled_as {Hedge} (w_oms w3) hs"
    "filled_as {AlphaBuy, AlphaSell} (w_oms w3) ls" "pt_hedge_attempts p3 \<le> max 0 (rc_max_hedge_attempts cfg)"
    "pt_hedge_attempts p3 = 0 \<longrightarrow> hs = []"
    using hedging_fills [OF ls assms(4) K(3) 3] unfolding ls_def by metis
  have fin: "accounts p' = accounts p3" "pt_hedge_attempts p' = pt_hedge_attempts p3" "w_oms w' = w_oms w3" "open_value p' = open_value p3"
    using r by (simp_all add: finish_pair.simps Let_def open_value_def avg_buy_px_def avg_sell_px_def split: if_splits)
  note l = ls [folded ls_def, unfolded legs_ok_def] and h = hs(1) [unfolded settling_def]
  have fair: "fair_fills ls" "small_lot ls" "small_lot (ls @ hs)"
    using l h hedged_small [OF hs(2)] by simp_all
  have "min (side_qty Buy ls) (side_qty Sell ls) * (ao_sell_price_paise opp - ao_buy_price_paise opp)
      - pt_hedge_attempts p3 * rc_max_hedge_loss_paise cfg
      - (if side_qty Sell ls < side_qty Buy ls then side_qty Buy ls else 0) \<le> gain (ls @ hs) + open_value p3"
    using hedged_value [OF _ _ fair(3) hs(2) fair(1), of p3] l h unfolding leg_prices_def by blast
  then show ?thesis
    using hs(3-6) h fin fair r unfolding pair_result_def
    by (intro exI [of _ ls] exI [of _ hs]) (auto simp: finish_pair.simps Let_def)
qed

text \<open>
  C8: what an opportunity can cost. When prices in the books are fair and flattening is not
  forced, executing an opportunity records the fills \<open>ls\<close> of its two legs and then the fills
  \<open>hs\<close> of its hedges; the cash of its instrument moves by what they bring in. That, with the
  shares still open at their average price, is at least the gross spread on every share both
  legs traded, less the loss limit for each hedge attempt, less one paisa a share when more
  was bought than sold (the average is rounded down). Without a hedge attempt there is no
  hedge fill.
\<close>

theorem opportunity_loss_bounded:
  assumes "sim_ok h V cfg K w" and "K + orders_per_trade cfg < 2 ^ 64" and "si_risk_cfg sim = cfg"
    and "loss_limited cfg" and "fair_books (w_books w)"
  shows "\<exists>p' w' ls hs. execute_opportunity h clock sim opp now w = Some (p', w') \<and>
    om_fills (w_oms w') = om_fills (w_oms w) @ ls @ hs \<and>
    filled_as {AlphaBuy, AlphaSell} (w_oms w') ls \<and> filled_as {Hedge} (w_oms w') hs \<and>
    pos_cash (ao_instrument_id opp) (w_positions w')
      = wrap64 (pos_cash (ao_instrument_id opp) (w_positions w) + gain (ls @ hs)) \<and>
    min (side_qty Buy ls) (side_qty Sell ls) * (ao_sell_price_paise opp - ao_buy_price_paise opp)
      - pt_hedge_attempts p' * rc_max_hedge_loss_paise cfg
      - (if side_qty Sell ls < side_qty Buy ls then side_qty Buy ls else 0)
      \<le> gain (ls @ hs) + open_value p' \<and>
    pt_hedge_attempts p' \<le> max 0 (rc_max_hedge_attempts cfg) \<and> (pt_hedge_attempts p' = 0 \<longrightarrow> hs = [])"
proof -
  have lim: "limits_sane cfg" using assms(4) by (simp add: loss_limited_def)
  obtain p' w' where ex: "execute_opportunity h clock sim opp now w = Some (p', w')" "sim_ok h V cfg (K + orders_per_trade cfg) w'"
    using execute_opportunity_ok [OF assms(1,2) lim assms(3)] by blast
  obtain ls hs where r: "om_fills (w_oms w') = om_fills (w_oms w) @ ls @ hs" "pair_result cfg opp (w_oms w') ls hs p'"
    using execute_result [OF assms ex(1)] by blast
  with settled_cash [OF assms(1) ex(2) r(1), of "ao_instrument_id opp"] ex(1) show ?thesis
    unfolding pair_result_def by blast
qed


lemma sample_loss_limited: "loss_limited default_risk_config"
  by (simp add: loss_limited_def limits_sane_def default_risk_config_def)

lemma sample_world_fair: "fair_books (w_books sample_world)"
proof -
  have "list_all fair_event sample_stream"
    by (simp add: sample_stream_def sample_event_def fair_event_def fair_price_def)
  then show ?thesis by (simp add: sample_world_def sample_engine_def fair_books_put fair_book_events)
qed

theorem opportunity_loss_bounded_witness:
  "\<exists>p' w' ls hs. execute_opportunity rev (\<lambda>n. of_nat n) sample_sim sample_opportunity 7 sample_world = Some (p', w') \<and>
     om_fills (w_oms w') = om_fills (w_oms sample_world) @ ls @ hs \<and>
     min (side_qty Buy ls) (side_qty Sell ls) * 15 - pt_hedge_attempts p' * 2000
       - (if side_qty Sell ls < side_qty Buy ls then side_qty Buy ls else 0) \<le> gain (ls @ hs) + open_value p'"
proof -
  have c: "0 + orders_per_trade default_risk_config < 2 ^ 64" "si_risk_cfg sample_sim = default_risk_config"
    by (simp_all add: orders_per_trade_def sample_sim_def default_risk_config_def)
  from opportunity_loss_bounded [OF sample_world_ok c sample_loss_limited sample_world_fair,
      of "\<lambda>n. of_nat n" sample_opportunity 7]
  obtain p' w' ls hs where
    "execute_opportunity rev (\<lambda>n. of_nat n) sample_sim sample_opportunity 7 sample_world = Some (p', w')"
    "om_fills (w_oms w') = om_fills (w_oms sample_world) @ ls @ hs"
    "min (side_qty Buy ls) (side_qty Sell ls) * (ao_sell_price_paise sample_opportunity - ao_buy_price_paise sample_opportunity)
      - pt_hedge_attempts p' * rc_max_hedge_loss_paise default_risk_config
      - (if side_qty Sell ls < side_qty Buy ls then side_qty Buy ls else 0) \<le> gain (ls @ hs) + open_value p'"
    by blast
  then show ?thesis
    by (intro exI [of _ p'] exI [of _ w'] exI [of _ ls] exI [of _ hs])
      (simp add: sample_opportunity_def default_risk_config_def)
qed

end
