(* ===== verification/Sim_Loss.thy ===== *)
theory Sim_Loss
  imports Sim_Profit
begin

text \<open>
  What a whole replay can cost. The pairs traded are those of the pair log, one row each; for
  every instrument the cash its fills brought in, with the shares its pairs left open at
  their average price, is at least minus a fixed amount for each of its pairs.
\<close>

section \<open>The pair log\<close>

lemma pairs_frames [simp]:
  "lg_pairs (w_logs (tick w)) = lg_pairs (w_logs w)" "lg_pairs (w_logs (timer_stop clock s t w)) = lg_pairs (w_logs w)"
  by simp_all

lemma submit_pairs: "submit_world h clock i now w = Some (o1, w') \<Longrightarrow> lg_pairs (w_logs w') = lg_pairs (w_logs w)"
  by (auto simp: submit_world_def split: option.splits prod.splits)

lemma collect_pairs: "collect_fills o1 p w = (p', w') \<Longrightarrow> lg_pairs (w_logs w') = lg_pairs (w_logs w)"
  by (auto simp: collect_fills_def split: prod.splits)

lemma send_one_pairs:
  assumes "send_one h clock q now i (p, w) = Some (p', w')"
  shows "lg_pairs (w_logs w') = lg_pairs (w_logs w)"
  using assms
  by (auto simp: send_one_def timer_start_def Let_def dest!: submit_pairs collect_pairs split: prod.splits option.splits if_splits)

lemma hedge_step_pairs:
  assumes "hedge_step h clock cfg now p w = Some (go, p', w')"
  shows "lg_pairs (w_logs w') = lg_pairs (w_logs w)"
  using assms
  by (auto simp: hedge_step_def Let_def dest!: submit_pairs collect_pairs split: prod.splits option.splits if_splits)

lemma hedge_loop_pairs: "hedge_loop h clock cfg now p w = Some (p', w') \<Longrightarrow> lg_pairs (w_logs w') = lg_pairs (w_logs w)"
proof (rule hedge_loop.raw_induct [of "\<lambda>h clock cfg now p w r. lg_pairs (w_logs (snd r)) = lg_pairs (w_logs w)", of h clock cfg now p w "(p', w')", simplified])
  show "lg_pairs (w_logs (snd r)) = lg_pairs (w_logs w)"
    if IH: "\<And>h clock cfg now p w r. rec h clock cfg now p w = Some r \<Longrightarrow> lg_pairs (w_logs (snd r)) = lg_pairs (w_logs w)"
      and run: "(if residual p \<noteq> 0 \<and> pt_hedge_attempts p < rc_max_hedge_attempts cfg
        then case hedge_step h clock cfg now p w of None \<Rightarrow> None
          | Some r \<Rightarrow> if fst r then rec h clock cfg now (fst (snd r)) (snd (snd r)) else Some (snd r)
        else Some (p, w)) = Some r"
    for rec h clock cfg now p w r
  proof (cases "residual p \<noteq> 0 \<and> pt_hedge_attempts p < rc_max_hedge_attempts cfg")
    case True
    then obtain go p1 w1 where st: "hedge_step h clock cfg now p w = Some (go, p1, w1)"
      "if go then rec h clock cfg now p1 w1 = Some r else r = (p1, w1)"
      using run by (auto split: option.splits if_splits)
    then show ?thesis using hedge_step_pairs [OF st(1)] IH [of h clock cfg now p1 w1 r] by (simp split: if_splits)
  qed (use run in auto)
qed


lemma execute_pairs:
  assumes "execute_opportunity h clock sim opp now w = Some (p', w')"
  shows "lg_pairs (w_logs w') = lg_pairs (log_pair p' (w_logs w))"
proof (rule execute_parts [OF assms])
  fix f s q1 q2 p1 w1 p2 w2 p3 w3
  assume st: "send_one h clock q1 now f (from_opportunity opp, w) = Some (p1, w1)" "send_one h clock q2 now s (p1, w1) = Some (p2, w2)"
    "(if residual p2 \<noteq> 0 then hedge_until_flat h clock (si_risk_cfg sim) now (p2\<lparr>pt_state := PsHedging\<rparr>) w2
      else Some (p2, w2)) = Some (p3, w3)" and r: "(p', w') = finish_pair (p3, w3)"
  have "lg_pairs (w_logs w3) = lg_pairs (w_logs w2)"
    using st(3) hedge_loop_pairs by (fastforce simp: hedge_until_flat_def split: if_splits option.splits)
  then have "lg_pairs (w_logs w3) = lg_pairs (w_logs w)" using send_one_pairs [OF st(1)] send_one_pairs [OF st(2)] by simp
  with r show ?thesis by (simp add: finish_pair.simps Let_def log_pair_def)
qed

section \<open>The loss of a replay\<close>

definition fills_in :: "u32 \<Rightarrow> fill list \<Rightarrow> fill list" where
  "fills_in i fs = filter (\<lambda>f. fl_instrument_id f = i) fs"

definition pairs_in :: "u32 \<Rightarrow> pair_trade list \<Rightarrow> pair_trade list" where
  "pairs_in i ps = filter (\<lambda>p. pt_instrument_id p = i) ps"

text \<open>What one pair can lose, in paise: every hedge attempt at its limit, and rounding.\<close>

definition pair_risk :: "risk_config \<Rightarrow> int" where
  "pair_risk cfg = max 0 (rc_max_hedge_attempts cfg) * rc_max_hedge_loss_paise cfg + 1000"

definition loss_ok :: "risk_config \<Rightarrow> pair_trade list \<Rightarrow> sim_world \<Rightarrow> bool" where
  "loss_ok cfg ps w \<longleftrightarrow> fair_books (w_books w) \<and> int (length ps) = sr_trades (w_result w) \<and>
     lg_pairs (w_logs w) = lg_pairs (fold log_pair ps open_logs) \<and>
     (\<forall>i. - (int (length (pairs_in i ps)) * pair_risk cfg)
        \<le> gain (fills_in i (om_fills (w_oms w))) + (\<Sum>p\<leftarrow>pairs_in i ps. open_value p))"

lemma pairs_local: "lg_pairs lg = lg_pairs lg' \<Longrightarrow> lg_pairs (log_pair p lg) = lg_pairs (log_pair p lg')"
  by (simp add: log_pair_def)

lemma gain_append: "gain (xs @ ys) = gain xs + gain ys" "gain [] = 0"
  by (simp_all add: gain_def)

text \<open>A pair decided with a spread that is not negative risks at most \<open>pair_risk\<close>.\<close>

lemma result_risk:
  assumes "pair_result cfg opp om ls hs p" and "loss_limited cfg" and "ao_buy_price_paise opp \<le> ao_sell_price_paise opp"
  shows "- pair_risk cfg \<le> gain (ls @ hs) + open_value p"
proof -
  note r = assms(1) [unfolded pair_result_def]
  have nn: "0 \<le> side_qty Buy ls" "0 \<le> side_qty Sell ls" using r side_bounds(1) by blast+
  have "0 \<le> min (side_qty Buy ls) (side_qty Sell ls) * (ao_sell_price_paise opp - ao_buy_price_paise opp)"
    using nn assms(3) by (intro mult_nonneg_nonneg) simp_all
  moreover have "pt_hedge_attempts p * rc_max_hedge_loss_paise cfg
      \<le> max 0 (rc_max_hedge_attempts cfg) * rc_max_hedge_loss_paise cfg"
    using r assms(2) by (intro mult_right_mono) (auto simp: loss_limited_def)
  moreover have "(if side_qty Sell ls < side_qty Buy ls then side_qty Buy ls else 0) \<le> 1000"
    using r by (simp add: small_lot_def)
  ultimately show ?thesis using r unfolding pair_risk_def by linarith
qed

lemma loss_ok_trade:
  assumes ok: "loss_ok cfg ps w" and res: "pair_result cfg opp om ls hs p" and "loss_limited cfg"
    and "ao_buy_price_paise opp \<le> ao_sell_price_paise opp" and p: "pt_instrument_id p = ao_instrument_id opp"
    and w': "om_fills (w_oms w') = om_fills (w_oms w) @ ls @ hs" "fair_books (w_books w')"
      "lg_pairs (w_logs w') = lg_pairs (log_pair p (w_logs w))" "sr_trades (w_result w') = sr_trades (w_result w) + 1"
  shows "loss_ok cfg (ps @ [p]) w'"
proof -
  have risk: "- pair_risk cfg \<le> gain (ls @ hs) + open_value p" using result_risk [OF res assms(3,4)] .
  have ins: "fills_in i (ls @ hs) = (if i = pt_instrument_id p then ls @ hs else [])" for i
    using res p by (auto simp: pair_result_def fills_in_def filter_id_conv filter_empty_conv)
  have "- (int (length (pairs_in i (ps @ [p]))) * pair_risk cfg)
      \<le> gain (fills_in i (om_fills (w_oms w'))) + (\<Sum>p\<leftarrow>pairs_in i (ps @ [p]). open_value p)" for i
  proof -
    have "fills_in i (om_fills (w_oms w')) = fills_in i (om_fills (w_oms w)) @ fills_in i (ls @ hs)"
      by (simp add: w'(1) fills_in_def)
    moreover have "- (int (length (pairs_in i ps)) * pair_risk cfg)
        \<le> gain (fills_in i (om_fills (w_oms w))) + (\<Sum>p\<leftarrow>pairs_in i ps. open_value p)"
      using ok by (simp add: loss_ok_def)
    ultimately show ?thesis
      using risk unfolding ins by (auto simp: pairs_in_def gain_append algebra_simps)
  qed
  moreover have "lg_pairs (w_logs w') = lg_pairs (fold log_pair (ps @ [p]) open_logs)"
    using w'(3) pairs_local [of "w_logs w" "fold log_pair ps open_logs" p] ok by (simp add: loss_ok_def)
  ultimately show ?thesis using ok w' by (simp add: loss_ok_def)
qed

text \<open>The strategy proposes no trade with a negative spread when the costs are valid.\<close>

lemma proposed_spread:
  assumes "proposed sim ev w opp" and "fair_books (w_books w)" and "sane_costs (si_costs sim)" and "0 \<le> true_cost (si_costs sim)"
    and "fst (cost_validate (si_costs sim))"
  shows "ao_buy_price_paise opp \<le> ao_sell_price_paise opp"
proof -
  obtain nse bse pid d where q: "bm_quote NSE (be_instrument_id ev) (be_ts_ingest_ns ev) (w_books w) = Some nse"
      "bm_quote BSE (be_instrument_id ev) (be_ts_ingest_ns ev) (w_books w) = Some bse"
    and d: "d = evaluate (si_strategy_cfg sim) nse bse (si_costs sim) (be_ts_ingest_ns ev)" "sd_should_trade d"
      "opp = (sd_opportunity d)\<lparr>ao_parent_arb_id := pid\<rparr>"
    using assms(1) by (auto simp: proposed_def Let_def)
  have sane: "sane_quote nse" "sane_quote bse"
    using fair_value_or [OF assms(2), of NSE "be_instrument_id ev" "be_ts_ingest_ns ev"]
      fair_value_or [OF assms(2), of BSE "be_instrument_id ev" "be_ts_ingest_ns ev"] q
    by (simp_all add: value_or_def)
  have "0 \<le> cm_min_net_edge_paise (si_costs sim)" using assms(5) by (simp add: cost_validate_def split: if_splits)
  moreover have "decided_trade d = spec_trade (si_strategy_cfg sim) nse bse (si_costs sim)"
    unfolding d(1) by (rule evaluate_refines [OF sane assms(3)])
  then have "cm_min_net_edge_paise (si_costs sim) \<le> ao_sell_price_paise opp - ao_buy_price_paise opp - true_cost (si_costs sim)"
    using d(2) by (auto simp: decided_trade_def d(3) spec_trade_def spec_direction_def edge_of_def Let_def split: if_splits)
  ultimately show ?thesis using assms(4) by linarith
qed


lemma replay_event_loss:
  assumes ok: "replay_ok h V cfg n w" "loss_ok cfg ps w" and n: "n \<le> 2147483647" and cfg: "loss_limited cfg" "si_risk_cfg sim = cfg"
    and ev: "V + volume ev \<le> i64_max" "be_qty ev \<le> i64_max" "fair_event ev"
    and costs: "sane_costs (si_costs sim)" "0 \<le> true_cost (si_costs sim)" "fst (cost_validate (si_costs sim))"
  shows "\<exists>w'. replay_event h clock sim n health item ev w = Some w' \<and> replay_ok h (V + volume ev) cfg n w' \<and>
    (\<exists>ps. loss_ok cfg ps w')"
proof -
  let ?V = "V + volume ev"
  have lim: "limits_sane cfg" using cfg(1) by (simp add: loss_limited_def)
  have quiet: "replay_ok h ?V cfg n w' \<and> loss_ok cfg ps w'" if "advanced ev w w'" for w'
    using ok that books_ok_event [OF _ ev(1,2), of "w_books w"] fair_books_event [OF _ ev(3), of "w_books w"]
    by (auto simp: replay_ok_def sim_ok_def engine_ok_def advanced_def audited_def loss_ok_def)
  show ?thesis
  proof (rule replay_event_rule)
    show "replay_ok h ?V cfg n w' \<and> (\<exists>ps. loss_ok cfg ps w')" if "advanced ev w w'" for w' using quiet [OF that] by blast
  next
    fix w1 opp assume a: "advanced ev w w1" "\<not> sr_trades (w_result w1) \<ge> n" "proposed sim ev w1 opp"
    let ?t = "sr_trades (w_result w1)"
    let ?next = "\<lambda>w2. w2\<lparr>w_result := (w_result w2)\<lparr>sr_trades := inc_result (sr_trades (w_result w2))\<rparr>\<rparr>"
    note q = quiet [OF a(1)]
    obtain p w2 where ex: "execute_opportunity h clock sim opp (be_ts_ingest_ns ev) w1 = Some (p, w2)" "replay_ok h ?V cfg n (?next w2)"
      using traded_ok [OF conjunct1 [OF q] a(2) n lim cfg(2), of clock opp "be_ts_ingest_ns ev"] by blast
    have t: "0 \<le> ?t" "?t < n" "sim_ok h ?V cfg (nat ?t * orders_per_trade cfg) w1" using q a(2) by (simp_all add: replay_ok_def)
    note room = order_budget [OF lim t(1,2) n]
    have same: "pt_instrument_id p = ao_instrument_id opp" "sr_trades (w_result w2) = ?t"
      using execute_opportunity_ok [OF t(3) room lim cfg(2), of clock opp "be_ts_ingest_ns ev"] ex(1) by simp_all
    have fair: "fair_books (w_books w1)" using q by (simp add: loss_ok_def)
    obtain ls hs where r: "om_fills (w_oms w2) = om_fills (w_oms w1) @ ls @ hs" "pair_result cfg opp (w_oms w2) ls hs p"
      "fair_books (w_books w2)"
      using execute_result [OF t(3) room cfg(2,1) fair ex(1)] by blast
    have "inc_result ?t = ?t + 1" using t(1,2) n by (simp add: inc_result_def wrap32_def)
    then have "loss_ok cfg (ps @ [p]) (?next w2)"
      using r execute_pairs [OF ex(1)] same(2)
      by (intro loss_ok_trade [OF conjunct2 [OF q] r(2) cfg(1) proposed_spread [OF a(3) fair costs] same(1)]) simp_all
    with ex show "\<exists>p w8. execute_opportunity h clock sim opp (be_ts_ingest_ns ev) w1 = Some (p, w8) \<and>
        replay_ok h ?V cfg n (?next w8) \<and> (\<exists>ps. loss_ok cfg ps (?next w8))"
      by blast
  qed
qed

lemma initial_loss_ok: "loss_ok cfg [] (initial_world sim new_book_manager ticks)"
  by (simp add: loss_ok_def initial_world_def Let_def empty_result_def new_order_manager_def fills_in_def pairs_in_def gain_append)

lemma filtered_cash: "cash_of i (map pos_of_fill fs) = gain (fills_in i fs)"
  by (induction fs) (auto simp: cash_of_def gain_def pos_of_fill_def signed_qty_def fills_in_def)

lemma replay_pairs:
  assumes "iteration_ok h" and "n \<le> 2147483647" and cfg: "loss_limited (si_risk_cfg sim)"
    and "handler_open fs path = Inr md" and fits: "stream_fits (events_of (fst (md_drain md)))"
    and fair: "list_all fair_event (events_of (fst (md_drain md)))"
    and costs: "sane_costs (si_costs sim)" "0 \<le> true_cost (si_costs sim)" "fst (cost_validate (si_costs sim))"
  shows "\<exists>w V ps. run_replay h clock fs sim new_book_manager ticks path n = Some (Inr w) \<and>
    replay_ok h V (si_risk_cfg sim) n w \<and> loss_ok (si_risk_cfg sim) ps w"
proof -
  let ?cfg = "si_risk_cfg sim" and ?w0 = "initial_world sim new_book_manager ticks"
  obtain rs md' where dr: "md_drain md = (rs, md')" by force
  let ?P = "\<lambda>evs w. replay_ok h (\<Sum>ev\<leftarrow>evs. volume ev) ?cfg n w \<and> (\<exists>ps. loss_ok ?cfg ps w)"
  have "\<exists>w'. replay_event h clock sim n health item ev w = Some w' \<and> ?P (evs @ [ev]) w'"
    if all: "[] @ events_of rs = evs @ ev # rest" and "?P evs w" for evs ev rest health item w
  proof -
    have "0 \<le> (\<Sum>ev\<leftarrow>rest. volume ev)" by (auto intro!: sum_list_nonneg simp: volume_def)
    with fits fair all have "(\<Sum>ev\<leftarrow>evs. volume ev) + volume ev \<le> i64_max" "be_qty ev \<le> i64_max" "fair_event ev"
      by (simp_all add: stream_fits_def dr)
    with that(2) replay_event_loss [OF _ _ assms(2) cfg refl _ _ _ costs, of h _ w _ ev clock health item] show ?thesis by fastforce
  qed
  moreover have "?P evs (timer_stop clock s t (tick w))" if "?P evs w" for evs w s t
    using that replay_ok_cong [of h _ ?cfg n w "timer_stop clock s t (tick w)"] by (auto simp: loss_ok_def)
  moreover have "?P [] ?w0"
    using initial_world_ok [OF assms(1), of sim n ticks] initial_loss_ok cfg by (auto simp: loss_limited_def)
  ultimately have "\<exists>w'. replay_loop h clock sim n md ?w0 = Some (md', w') \<and> ?P ([] @ events_of rs) w'"
    by (intro replay_loop_rule [of ?P "[]", OF _ dr])
  then show ?thesis using assms(4) by (auto simp: run_replay_def)
qed



lemma sample_events_fair: "list_all fair_event (events_of (fst (md_drain sample_handler)))"
proof -
  obtain a b where ab: "fst (md_drain sample_handler) = [a, b]"
    using sample_drain by (auto simp: map_eq_Cons_conv)
  then show ?thesis
    using sample_drain by (auto simp: fair_event_def fair_price_def sample_row_event_def)
qed


end
