(* ===== verification/Spec2Isabelle.thy ===== *)
theory Spec2Isabelle
  imports Apps Queue_Bench Pipeline_Bench Book_Types Findings Sim_Loss
begin

text \<open>
  A verification library for the NSE/BSE arbitrage engine: every component of the C++ sources
  under \<^verbatim>\<open>src/src\<close>, the two programs of \<^verbatim>\<open>src/apps\<close> and the two benchmarks of \<^verbatim>\<open>src/bench\<close>
  as executable definitions, and the theorems that make them correct. Paths below are relative
  to \<^verbatim>\<open>src/src\<close> unless they begin with \<^verbatim>\<open>apps\<close> or \<^verbatim>\<open>bench\<close>.

  \<^bold>\<open>The program.\<close> A replay file of market data of two exchanges is read packet by packet. Each
  event updates the order book of its venue and instrument; the strategy compares the best
  quotes of the two books, and if buying at one venue and selling at the other earns enough
  after all costs, the simulator sends two immediate-or-cancel orders through the risk engine
  and the order manager to a simulated exchange, which matches them against the same books,
  or fails as a scenario says. What one leg has bought more than the other has sold is
  hedged, order by order, until the pair is flat, the attempts are used up or the kill
  switch is thrown. Two queues, one lock-free and one with a mutex, are compared by a
  benchmark in which a producer thread sends events to a sink thread.

  \<^bold>\<open>Theories, in the order of the data flow.\<close>

  \<^item> \<open>Prelude\<close>: machine integers (\<open>i64\<close> is an \<open>int\<close> with \<open>wrap64\<close> after every operation that can
    overflow, \<open>u64\<close> and \<open>u32\<close> are words), association lists for the maps, decimal numbers;
    the collections \<open>wrap_simps\<close>, \<open>alist_simps\<close>, \<open>text_simps\<close>.
  \<^item> \<open>Csv_Text\<close> (\<^verbatim>\<open>common/csv\<close>), \<open>Common_Types\<close> (\<^verbatim>\<open>common/types\<close>), \<open>Config\<close> (\<^verbatim>\<open>common/config\<close>,
    \<^verbatim>\<open>strategy/cost_model\<close>, \<^verbatim>\<open>risk/risk_config\<close>): text, numbers, enumerations and configuration files;
    printed rows and files are read back. The locale \<open>csv_field_writer\<close> says what a writer
    of fields owes to the splitter; both writers of the repository are instances.
  \<^item> \<open>Order_Book\<close> (\<^verbatim>\<open>book/order_book\<close>): the state of a book (two sorted level maps and the index of
    orders) and every operation. \<open>Book_Invariant\<close>: what the operations keep, for levels sorted
    either way (locale \<open>level_order\<close>) and for the two readings of \<open>levels agree with orders\<close>
    (locale \<open>level_index_agreement\<close>: at most the orders after any stream, exactly the orders
    after a stream whose trades name them). \<open>Book_Spec\<close>: the abstract book, a map from ids to
    orders, and the refinement. \<open>Book_Matching\<close>: matching of an immediate-or-cancel order. \<open>Book_Types\<close>:
    all numbers stay 64-bit. \<open>Book_Manager\<close> (\<^verbatim>\<open>book/book_manager\<close>): the books of all instruments,
    over \<open>Keyed_Store\<close>, whose locale \<open>venue_key\<close> serves every table keyed by venue and number.
  \<^item> \<open>Market_Data\<close> (\<^verbatim>\<open>md\<close>): reader, parser, sequence tracker, feed health and the handler.
  \<^item> \<open>Strategy\<close> (\<^verbatim>\<open>strategy/arbitrage_strategy\<close>): the decision, against a specification in
    unbounded integers.
  \<^item> \<open>Risk\<close> (\<^verbatim>\<open>risk\<close>): kill switch, positions, rate limiter, guards and \<open>check_order\<close>, branch by branch.
  \<^item> \<open>Oms\<close> (\<^verbatim>\<open>oms\<close>, \<^verbatim>\<open>common/ids.hpp\<close>): orders and their states. The locale \<open>order_gateway\<close> states
    what the order manager needs from a gateway; \<open>Matching\<close> (\<^verbatim>\<open>sim/scenario\<close>,
    \<^verbatim>\<open>sim/matching_engine\<close>) shows that the simulated exchange provides it.
  \<^item> \<open>Pair_Hedge\<close> (\<^verbatim>\<open>hedge\<close>): the pair of legs and the policy that chooses hedge orders.
  \<^item> \<open>Doubles\<close>, \<open>Latency\<close> (\<^verbatim>\<open>metrics\<close>): double precision as rounding to the closest
    representable number, and the latency summary with its percentiles.
  \<^item> \<open>Simulator\<close> (\<^verbatim>\<open>sim/simulator\<close>): the world (books, order manager, positions, risk engine, logs,
    latencies) and \<open>run_replay\<close> with everything it calls. \<open>Sim_Safety\<close>: the invariant \<open>sim_ok\<close> of
    the world and each step that keeps it. \<open>Sim_Replay\<close>: whole opportunities and replays.
  \<^item> \<open>Pair_Accounts\<close>: the money a pair paid and received and how hedging changes it.
    \<open>Priced_Matching\<close>: books with fair prices trade at fair prices; the gateway contract with
    this law is the locale \<open>priced_gateway\<close>. \<open>Sim_Profit\<close>, \<open>Sim_Loss\<close>: what an opportunity and what
    a whole replay can lose.
  \<^item> \<open>Command_Line\<close>, \<open>Apps\<close> (\<^verbatim>\<open>apps\<close>): arguments, the demo and the scenario suite.
  \<^item> \<open>Bounded_Fifo\<close>: the contract of a bounded queue, a locale with a list as specification.
    \<open>Spsc_Ring\<close> and \<open>Blocking_Queue\<close> (\<^verbatim>\<open>concurrency\<close>): the two queues as instances of it, and as
    threads: the ring action by action, with loads that may return any value written since
    the last one; the blocking queue as a monitor with waiting and woken threads.
  \<^item> \<open>Pipeline\<close>, \<open>Bench_Report\<close>, \<open>Queue_Bench\<close> (\<^verbatim>\<open>bench/bench_queue_pipeline.cpp\<close>): the pipeline over
    any queue of the contract (locale \<open>pipeline_fifo\<close>), the figures and reports of a run, and \<open>main\<close>.
    \<open>Pipeline_Bench\<close> (\<^verbatim>\<open>bench/bench_pipeline.cpp\<close>): the book and strategy benchmark.
  \<^item> \<open>Findings\<close>: inputs on which the code does not do what it means to.

  \<^bold>\<open>What is proved.\<close> The book equals its specification after any event
  stream and its matching is best-first, exact and maximal; a checked order is within every
  limit; order fills, recorded fills and positions agree whatever reports arrive; hedging ends
  and each hedge order shrinks the residual; a whole replay returns, keeps every position within
  its limit and bounds the trades and orders, and its order and fill logs hold each settled
  order and each fill once; an opportunity and a replay lose at most what the spread, the hedge
  loss limit and the attempts allow; after the kill switch nothing is sent; the ring buffer
  loses, duplicates and overwrites nothing and has no race on a slot; no wake-up of the blocking
  queue is lost; both pipelines deliver every event once and in order and end; benchmarks report
  percentiles that are samples in the right order. The manifest lists the forty properties; each
  stands after a text block with its number.

  \<^bold>\<open>Parameters and bounds.\<close> The file system is a function from paths to contents, the clock a
  function from the number of a reading to its value, a hash map's iteration order any
  permutation (\<open>iteration_ok\<close>), a thread schedule a list of booleans. Loops that need not end
  in the code are \<open>partial_function (option)\<close>, with \<open>None\<close> for not returning (\<open>match_loop\<close>,
  \<open>hedge_loop\<close>, \<open>destroy_loop\<close>), and are proved to return. \<open>stream_fits\<close> bounds the added volume
  of a replay by 64 bits, \<open>limits_sane\<close> the configured limits, so that sums of quantities and
  products with prices do not overflow; the loss theorems also take fair prices (\<open>fair_event\<close>,
  at most \<open>10 ^ 15\<close> paise) and orders of at most 1000 shares (\<open>loss_limited\<close>), so that the
  estimated loss of a hedge is its loss; where they could, the wrap-around is in the model.
  Both pipelines end within \<open>12 * (events + 1)\<close> rounds of one step of each thread: the measure
  \<open>work\<close> counts six units for each event still to send and six for each still to take, and
  every round lowers it. The percentile theorems need at most \<open>2 ^ 53\<close> samples.

  \<^bold>\<open>Not modelled.\<close> The opening, flushing and closing of output files (a log is the list of rows
  written to it, a report its text), memory exhaustion, the mutex of the latency recorder (the
  replay is one thread), \<open>cpu_relax\<close>, and the worker stages of the queue benchmark, which do
  not exist since \<open>kWorkerStages\<close> is 0. Doubles have no infinities, NaNs or signed zeros; no
  value of the programs reaches them. The raw memory of the ring's slots is a list of
  options, empty when no object is constructed. Tests, the Python tools, scripts and SQL are
  outside this library.
\<close>

end
